(* ===== verification/Prelude.thy ===== *)
theory Prelude
  imports Complex_Main "HOL-Library.Signed_Division" "HOL-Library.Multiset"
begin

text \<open>
  What every component shares: the errors the packages throw and the result type that
  carries them, the parts of the language the packages lean on (the conversion of a
  bigint to a double, the truncating bigint division, the stable sort of an array), and
  the generic contracts (a comparator, a fold that keeps an invariant) that several
  components satisfy.

  A thrown error is a value: \<open>Inl e\<close>. The class of the error and its code are kept,
  the message text is not.
\<close>

section \<open>Errors and results\<close>

datatype quote_code = Non_positive_size | Empty_reserves | No_liquidity | Dust

datatype trading_code = Insufficient_sol | Insufficient_tokens | Invalid_state

datatype conflict = On_balance | On_position

datatype error =
    Fixed_point_error
  | Quote_error quote_code
  | Trading_error trading_code
  | Range_error
  | Merkle_error
  | Leaf_error
  | Ruleset_error
  | Void_error
  | Result_error
  | Finalize_error
  | Strategy_error
  | Candle_error
  | Price_error
  | Plain_error
  | Concurrent_trade conflict
  | Db_error

type_synonym 'a res = "error + 'a"

text \<open>Sequencing: the rest of a body runs only when nothing was thrown so far.\<close>

definition rbind :: "'a res \<Rightarrow> ('a \<Rightarrow> 'b res) \<Rightarrow> 'b res" where
  "rbind m f = (case m of Inl e \<Rightarrow> Inl e | Inr x \<Rightarrow> f x)"

declare rbind_def [code_unfold]

text \<open>A guard that throws: \<open>if (!ok) throw e\<close>.\<close>

definition ensure :: "bool \<Rightarrow> error \<Rightarrow> unit res" where
  "ensure ok e = (if ok then Inr () else Inl e)"

named_theorems res_simps \<open>evaluation of the result type\<close>

lemma rbind_Inl [simp, res_simps]: "rbind (Inl e) f = Inl e"
  by (simp add: rbind_def)

lemma rbind_Inr [simp, res_simps]: "rbind (Inr x) f = f x"
  by (simp add: rbind_def)

lemma rbind_eq_Inr [simp]: "rbind m f = Inr y \<longleftrightarrow> (\<exists>x. m = Inr x \<and> f x = Inr y)"
  by (cases m) auto

lemma rbind_eq_Inl: "rbind m f = Inl e \<longleftrightarrow> m = Inl e \<or> (\<exists>x. m = Inr x \<and> f x = Inl e)"
  by (cases m) auto

lemma ensure_eq_Inr [simp]: "ensure ok e = Inr u \<longleftrightarrow> ok"
  by (simp add: ensure_def)

lemma ensure_eq_Inl [simp]: "ensure ok e = Inl e' \<longleftrightarrow> \<not> ok \<and> e' = e"
  by (auto simp: ensure_def)

lemma ensure_simps [simp, res_simps]:
  "ensure True e = Inr ()" "ensure False e = Inl e"
  by (simp_all add: ensure_def)

text \<open>\<open>xs.map(f)\<close> for a body that may throw: the first throw ends the loop.\<close>

fun traverse :: "('a \<Rightarrow> 'b res) \<Rightarrow> 'a list \<Rightarrow> 'b list res" where
  "traverse f [] = Inr []"
| "traverse f (x # xs) = rbind (f x) (\<lambda>y. rbind (traverse f xs) (\<lambda>ys. Inr (y # ys)))"

lemma traverse_length: "traverse f xs = Inr ys \<Longrightarrow> length ys = length xs"
  by (induction xs arbitrary: ys) auto

lemma traverse_nth:
  "traverse f xs = Inr ys \<Longrightarrow> i < length xs \<Longrightarrow> f (xs ! i) = Inr (ys ! i)"
proof (induction xs arbitrary: ys i)
  case Nil
  then show ?case by simp
next
  case (Cons x xs)
  then show ?case by (cases i) auto
qed

lemma traverse_pure: "(\<And>x. x \<in> set xs \<Longrightarrow> f x = Inr (g x)) \<Longrightarrow> traverse f xs = Inr (map g xs)"
  by (induction xs) auto

lemma traverse_cong: "map f xs = map g xs \<Longrightarrow> traverse f xs = traverse g xs"
  by (induction xs) auto

lemma traverse_set: "traverse f xs = Inr ys \<Longrightarrow> x \<in> set xs \<Longrightarrow> \<exists>y \<in> set ys. f x = Inr y"
  by (induction xs arbitrary: ys) auto

lemma traverse_eq_Inr:
  assumes "\<And>x y. f x = Inr y \<longleftrightarrow> P x \<and> y = g x"
  shows "traverse f xs = Inr ys \<longleftrightarrow> list_all P xs \<and> ys = map g xs"
  using assms by (induction xs arbitrary: ys) auto

text \<open>Summing an array with \<open>reduce\<close>.\<close>

lemma foldl_plus_sum_list: "foldl (+) (a :: int) xs = a + sum_list xs"
  by (induction xs arbitrary: a) auto

text \<open>A loop over events whose body may throw.\<close>

fun run_res :: "('s \<Rightarrow> 'e \<Rightarrow> 's res) \<Rightarrow> 's \<Rightarrow> 'e list \<Rightarrow> 's res" where
  "run_res step s [] = Inr s"
| "run_res step s (x # xs) = rbind (step s x) (\<lambda>s'. run_res step s' xs)"

lemma run_res_append:
  "run_res step s (xs @ ys) = rbind (run_res step s xs) (\<lambda>s'. run_res step s' ys)"
proof (induction xs arbitrary: s)
  case (Cons x xs)
  then show ?case by (cases "step s x") simp_all
qed simp

section \<open>Integers of the language\<close>

text \<open>
  A bigint is an \<open>int\<close>. \<open>a / b\<close> on bigints truncates toward zero and throws a
  \<open>RangeError\<close> when \<open>b\<close> is zero.
\<close>

definition big_div :: "int \<Rightarrow> int \<Rightarrow> int res" where
  "big_div a b = (if b = 0 then Inl Range_error else Inr (a sdiv b))"

lemma big_div_eq_Inr [simp]: "big_div a b = Inr c \<longleftrightarrow> b \<noteq> 0 \<and> c = a sdiv b"
  by (auto simp: big_div_def)

lemma sdiv_nonneg: "0 \<le> a \<Longrightarrow> 0 < b \<Longrightarrow> a sdiv b = a div (b::int)"
  by (cases "a = 0") (simp_all add: signed_divide_int_def)

lemma sdiv_nonpos: "a \<le> 0 \<Longrightarrow> 0 < b \<Longrightarrow> a sdiv b = - ((- a) div (b::int))"
  by (cases "a = 0") (simp_all add: signed_divide_int_def)

lemma sdiv_nonpos_le: "a \<le> 0 \<Longrightarrow> 0 < b \<Longrightarrow> a sdiv b \<le> (0::int)"
  by (simp add: sdiv_nonpos pos_imp_zdiv_nonneg_iff)

lemma sdiv_nonneg_ge: "0 \<le> a \<Longrightarrow> 0 < b \<Longrightarrow> 0 \<le> a sdiv (b::int)"
  by (simp add: sdiv_nonneg pos_imp_zdiv_nonneg_iff)

lemma sdiv_mono:
  assumes "a \<le> a'" and b: "0 < (b::int)"
  shows "a sdiv b \<le> a' sdiv b"
proof -
  consider "0 \<le> a" | "a \<le> 0" "0 \<le> a'" | "a' \<le> 0" by linarith
  then show ?thesis
  proof cases
    case 1
    with assms show ?thesis by (simp add: sdiv_nonneg zdiv_mono1)
  next
    case 2
    then show ?thesis using sdiv_nonpos_le [of a b] sdiv_nonneg_ge [of a' b] b by linarith
  next
    case 3
    with assms have "(- a') div b \<le> (- a) div b" by (intro zdiv_mono1) auto
    with 3 assms show ?thesis by (simp add: sdiv_nonpos)
  qed
qed

text \<open>Truncated quotients compare like the fractions they round.\<close>

lemma div_ratio_mono:
  assumes "c * b \<le> a * d" "0 < b" "0 < (d::int)"
  shows "c div d \<le> a div b"
proof -
  have "c div d * d * b \<le> c * b" using assms by (intro mult_right_mono) (simp_all flip: minus_mod_eq_div_mult)
  also note assms(1)
  finally have "(c div d * b) * d \<le> a * d" by (simp only: mult.assoc mult.commute [of d b])
  then have "c div d * b \<le> a" using assms(3) by (simp only: mult_le_cancel_right_pos)
  then have "c div d * b div b \<le> a div b" using assms by (intro zdiv_mono1)
  then show ?thesis using assms by simp
qed

lemma sdiv_ratio_mono:
  assumes r: "c * b \<le> a * d" and b: "0 < b" and d: "0 < (d::int)"
  shows "c sdiv d \<le> a sdiv b"
proof -
  consider "0 \<le> c" | "c \<le> 0" "0 \<le> a" | "c \<le> 0" "a \<le> 0" by linarith
  then show ?thesis
  proof cases
    case 1
    then have "0 \<le> a * d" using r b by (meson mult_nonneg_nonneg less_imp_le order_trans)
    then have "0 \<le> a" using d by (simp add: zero_le_mult_iff)
    with 1 assms show ?thesis by (simp add: sdiv_nonneg div_ratio_mono)
  next
    case 2
    then show ?thesis using sdiv_nonpos_le [of c d] sdiv_nonneg_ge [of a b] b d by linarith
  next
    case 3
    with assms show ?thesis by (simp add: sdiv_nonpos div_ratio_mono)
  qed
qed

text \<open>
  \<open>Number(x)\<close> of a bigint is the double nearest to it, ties to the even significand: a
  magnitude of more than 53 bits loses its low bits. Amounts are at most 128 bits wide,
  so no product the packages convert reaches the largest double.
\<close>

fun bits :: "nat \<Rightarrow> nat" where
  "bits n = (if n = 0 then 0 else Suc (bits (n div 2)))"

declare bits.simps [simp del]

definition round53 :: "nat \<Rightarrow> nat" where
  "round53 n = (let u = 2 ^ (bits n - 53); q = n div u; r = n mod u
     in if 2 * r < u \<or> (2 * r = u \<and> even q) then q * u else (q + 1) * u)"

definition to_num :: "int \<Rightarrow> int" where
  "to_num x = (if \<bar>x\<bar> \<le> 2 ^ 53 then x else sgn x * int (round53 (nat \<bar>x\<bar>)))"

lemma bits_0 [simp]: "bits 0 = 0"
  by (simp add: bits.simps)

lemma bits_bounds: "0 < n \<Longrightarrow> 2 ^ (bits n - 1) \<le> n \<and> n < 2 ^ bits n"
proof (induction n rule: bits.induct)
  case (1 n)
  have b: "bits n = Suc (bits (n div 2))" using "1.prems" by (simp add: bits.simps)
  show ?case
  proof (cases "n div 2 = 0")
    case True
    then have "n = 1" using "1.prems" by auto
    with b True show ?thesis by simp
  next
    case False
    then have ih: "2 ^ (bits (n div 2) - 1) \<le> n div 2" "n div 2 < 2 ^ bits (n div 2)"
      using "1.IH" "1.prems" by auto
    have "bits (n div 2) \<noteq> 0" using False by (subst bits.simps) simp
    then obtain k where k: "bits (n div 2) = Suc k" by (cases "bits (n div 2)") auto
    from ih k have "2 * 2 ^ k \<le> n" "n < 2 * 2 ^ Suc k" by auto
    with b k show ?thesis by simp
  qed
qed

lemma bits_le: "n < 2 ^ k \<Longrightarrow> bits n \<le> k"
proof (rule ccontr)
  assume a: "n < 2 ^ k" and "\<not> bits n \<le> k"
  then have k: "k \<le> bits n - 1" and n: "0 < n" by (auto intro: gr0I)
  have "(2::nat) ^ k \<le> 2 ^ (bits n - 1)" using k by (simp add: power_increasing)
  also have "\<dots> \<le> n" using bits_bounds [OF n] by simp
  finally show False using a by simp
qed

lemma bits_gt:
  assumes "2 ^ k \<le> n"
  shows "k < bits n"
proof -
  have "0 < n" using assms by (rule less_le_trans [rotated]) simp
  then have "(2::nat) ^ k < 2 ^ bits n" using assms bits_bounds [of n] by linarith
  then show ?thesis by (simp only: power_strict_increasing_iff)
qed

lemma bits_mono: "m \<le> n \<Longrightarrow> bits m \<le> bits n"
proof (cases "n = 0")
  case False
  assume "m \<le> n"
  then have "m < 2 ^ bits n" using bits_bounds [of n] False by auto
  then show ?thesis by (rule bits_le)
qed simp

lemma round53_small: "n < 2 ^ 53 \<Longrightarrow> round53 n = n"
  using bits_le [of n 53] by (simp add: round53_def)

lemma round53_lower:
  assumes "0 < n"
  shows "2 ^ (bits n - 1) \<le> round53 n"
proof -
  define u :: nat where "u = 2 ^ (bits n - 53)"
  have u: "0 < u" by (simp add: u_def)
  show ?thesis
  proof (cases "bits n \<le> 53")
    case True
    then have "u = 1" by (simp add: u_def)
    then have "round53 n = n" by (simp add: round53_def u_def)
    then show ?thesis using bits_bounds [OF assms] by simp
  next
    case False
    then have p: "(2::nat) ^ (bits n - 1) = 2 ^ 52 * u"
      unfolding u_def by (subst power_add [symmetric]) simp
    have "2 ^ 52 * u \<le> n" using bits_bounds [OF assms] p by simp
    then have "2 ^ 52 \<le> n div u" using u by (simp add: less_eq_div_iff_mult_less_eq)
    then have "2 ^ 52 * u \<le> (n div u) * u" by simp
    also have "\<dots> \<le> round53 n" by (simp add: round53_def Let_def u_def)
    finally show ?thesis using p by simp
  qed
qed

lemma round53_upper: "round53 n \<le> 2 ^ bits n"
proof (cases "n = 0")
  case True
  then show ?thesis by (simp add: round53_def)
next
  case n: False
  define u :: nat where "u = 2 ^ (bits n - 53)"
  have u: "0 < u" by (simp add: u_def)
  show ?thesis
  proof (cases "bits n \<le> 53")
    case True
    then have "u = 1" by (simp add: u_def)
    then have "round53 n = n" by (simp add: round53_def u_def)
    then show ?thesis using bits_bounds [of n] n by simp
  next
    case False
    then have p: "(2::nat) ^ bits n = 2 ^ 53 * u"
      unfolding u_def by (subst power_add [symmetric]) simp
    have "n < 2 ^ 53 * u" using bits_bounds [of n] n p by simp
    then have "n div u < 2 ^ 53" using u by (simp add: less_mult_imp_div_less)
    then have "n div u + 1 \<le> 2 ^ 53" by simp
    then have "(n div u + 1) * u \<le> 2 ^ 53 * u" by (rule mult_le_mono1)
    moreover have "round53 n \<le> (n div u + 1) * u" by (simp add: round53_def Let_def u_def)
    ultimately show ?thesis using p by linarith
  qed
qed

lemma round53_mono: "m \<le> n \<Longrightarrow> round53 m \<le> round53 n"
proof -
  assume mn: "m \<le> n"
  consider "m = 0" | "0 < m" "bits m = bits n" | "0 < m" "bits m < bits n"
    using bits_mono [OF mn] by linarith
  then show ?thesis
  proof cases
    case 1
    then show ?thesis by (simp add: round53_def)
  next
    case 2
    define u :: nat where "u = 2 ^ (bits n - 53)"
    have u: "0 < u" by (simp add: u_def)
    have q: "m div u \<le> n div u" using mn by (rule div_le_mono)
    show ?thesis
    proof (cases "m div u = n div u")
      case True
      have "m mod u \<le> n mod u"
        using mn True by (metis div_mult_mod_eq nat_add_left_cancel_le)
      with True 2 show ?thesis by (auto simp: round53_def Let_def u_def [symmetric])
    next
      case False
      with q have "m div u + 1 \<le> n div u" by simp
      then have "(m div u + 1) * u \<le> (n div u) * u" by (rule mult_le_mono1)
      moreover have "round53 m \<le> (m div u + 1) * u" using 2 by (simp add: round53_def Let_def u_def)
      moreover have "(n div u) * u \<le> round53 n" by (simp add: round53_def Let_def u_def)
      ultimately show ?thesis by linarith
    qed
  next
    case 3
    have "round53 m \<le> 2 ^ bits m" by (rule round53_upper)
    also have "\<dots> \<le> 2 ^ (bits n - 1)" using 3 by (simp add: power_increasing)
    also have "\<dots> \<le> round53 n" using mn 3 by (intro round53_lower) simp
    finally show ?thesis .
  qed
qed

lemma round53_2_53: "round53 (2 ^ 53) = 2 ^ 53"
proof -
  have "bits (2 ^ 53) \<le> 54" by (rule bits_le) simp
  moreover have "53 < bits (2 ^ 53)" by (rule bits_gt) simp
  ultimately have "bits (2 ^ 53) = 54" by simp
  then show ?thesis by (simp add: round53_def)
qed

lemma to_num_eq: "to_num x = sgn x * int (round53 (nat \<bar>x\<bar>))"
proof (cases "\<bar>x\<bar> \<le> 2 ^ 53")
  case True
  have "round53 (nat \<bar>x\<bar>) = nat \<bar>x\<bar>"
  proof (cases "\<bar>x\<bar> = 2 ^ 53")
    case True
    then have "nat \<bar>x\<bar> = 2 ^ 53" by simp
    then show ?thesis by (simp only: round53_2_53)
  next
    case False
    with \<open>\<bar>x\<bar> \<le> 2 ^ 53\<close> have "nat \<bar>x\<bar> < 2 ^ 53" by simp
    then show ?thesis by (rule round53_small)
  qed
  with True show ?thesis by (simp add: to_num_def abs_mult_sgn mult.commute)
next
  case False
  then show ?thesis by (simp add: to_num_def)
qed

lemma to_num_exact [simp]: "\<bar>x\<bar> \<le> 2 ^ 53 \<Longrightarrow> to_num x = x"
  by (simp add: to_num_def)

lemma to_num_nonneg: "0 \<le> x \<Longrightarrow> 0 \<le> to_num x"
  by (simp add: to_num_eq sgn_if)

lemma to_num_minus: "to_num (- x) = - to_num x"
  by (simp add: to_num_def sgn_if)

lemma to_num_mono: "x \<le> y \<Longrightarrow> to_num x \<le> to_num y"
proof -
  assume xy: "x \<le> y"
  consider "0 \<le> x" | "x \<le> 0" "0 \<le> y" | "y \<le> 0" by linarith
  then show ?thesis
  proof cases
    case 1
    have "round53 (nat x) \<le> round53 (nat y)" using xy by (intro round53_mono) simp
    with 1 xy show ?thesis by (auto simp: to_num_eq sgn_if)
  next
    case 2
    then show ?thesis using to_num_nonneg [of "- x"] to_num_nonneg [of y] by (simp add: to_num_minus)
  next
    case 3
    have "round53 (nat (- y)) \<le> round53 (nat (- x))" using xy by (intro round53_mono) simp
    with 3 xy show ?thesis by (auto simp: to_num_eq sgn_if round53_def)
  qed
qed

text \<open>Comparing with a small limit gives the same answer before and after the conversion.\<close>

lemma to_num_le_iff: "\<bar>k\<bar> < 2 ^ 53 \<Longrightarrow> to_num x \<le> k \<longleftrightarrow> x \<le> k"
proof
  assume k: "\<bar>k\<bar> < 2 ^ 53" and "x \<le> k"
  then show "to_num x \<le> k" using to_num_mono [of x k] by simp
next
  assume k: "\<bar>k\<bar> < 2 ^ 53" and le: "to_num x \<le> k"
  show "x \<le> k"
  proof (rule ccontr)
    assume "\<not> x \<le> k"
    then have "to_num (k + 1) \<le> to_num x" by (intro to_num_mono) simp
    moreover have "to_num (k + 1) = k + 1" using k by (intro to_num_exact) linarith
    ultimately show False using le by simp
  qed
qed

lemma to_num_0_iff: "to_num x = 0 \<longleftrightarrow> x = 0"
  using to_num_le_iff [of 0 x] to_num_le_iff [of 0 "- x"] by (auto simp: to_num_minus)

end
