(* ===== verification/Contracts.thy ===== *)
theory Contracts
  imports Prelude
begin

text \<open>
  The interfaces that several components share, each stated once as a locale and
  interpreted where a component provides it: a comparison function handed to
  \<open>Array.prototype.sort\<close>, a loop whose body keeps an invariant, and a loop whose body
  may throw. The array sort itself is modelled here as a stable insertion sort: for a
  consistent comparison function the language fixes its result completely.
\<close>

section \<open>Sorting an array by a comparison function\<close>

fun js_insert :: "('a \<Rightarrow> 'a \<Rightarrow> int) \<Rightarrow> 'a \<Rightarrow> 'a list \<Rightarrow> 'a list" where
  "js_insert cmp x [] = [x]"
| "js_insert cmp x (y # ys) = (if cmp x y \<le> 0 then x # y # ys else y # js_insert cmp x ys)"

definition js_sort :: "('a \<Rightarrow> 'a \<Rightarrow> int) \<Rightarrow> 'a list \<Rightarrow> 'a list" where
  "js_sort cmp xs = foldr (js_insert cmp) xs []"

lemma js_sort_simps [simp]:
  "js_sort cmp [] = []"
  "js_sort cmp (x # xs) = js_insert cmp x (js_sort cmp xs)"
  by (simp_all add: js_sort_def)

lemma mset_js_insert [simp]: "mset (js_insert cmp x xs) = add_mset x (mset xs)"
  by (induction xs) auto

lemma mset_js_sort [simp]: "mset (js_sort cmp xs) = mset xs"
  by (induction xs) auto

lemma set_js_insert [simp]: "set (js_insert cmp x xs) = insert x (set xs)"
  by (induction xs) auto

lemma set_js_sort [simp]: "set (js_sort cmp xs) = set xs"
  by (induction xs) auto

lemma length_js_sort [simp]: "length (js_sort cmp xs) = length xs"
  by (metis mset_js_sort size_mset)

lemma js_sort_eq_Nil [simp]: "js_sort cmp xs = [] \<longleftrightarrow> xs = []"
  by (metis length_0_conv length_js_sort)

text \<open>A consistent comparison function: total and transitive.\<close>

locale comparator =
  fixes cmp :: "'a \<Rightarrow> 'a \<Rightarrow> int"
  assumes total: "cmp x y \<le> 0 \<or> cmp y x \<le> 0"
    and trans: "cmp x y \<le> 0 \<Longrightarrow> cmp y z \<le> 0 \<Longrightarrow> cmp x z \<le> 0"
begin

lemma refl: "cmp x x \<le> 0"
  using total by blast

lemma insert_sorted:
  "sorted_wrt (\<lambda>a b. cmp a b \<le> 0) xs \<Longrightarrow> sorted_wrt (\<lambda>a b. cmp a b \<le> 0) (js_insert cmp x xs)"
proof (induction xs)
  case (Cons y ys)
  then show ?case using total [of x y] trans by (auto intro: trans)
qed simp

lemma sort_sorted: "sorted_wrt (\<lambda>a b. cmp a b \<le> 0) (js_sort cmp xs)"
  by (induction xs) (simp_all add: insert_sorted)

text \<open>Elements the comparison does not distinguish keep their order.\<close>

lemma insert_stable:
  "filter (\<lambda>b. cmp a b \<le> 0 \<and> cmp b a \<le> 0) (js_insert cmp x xs)
    = filter (\<lambda>b. cmp a b \<le> 0 \<and> cmp b a \<le> 0) (x # xs)"
proof (induction xs)
  case (Cons y ys)
  show ?case
  proof (cases "cmp x y \<le> 0")
    case False
    then have "\<not> (cmp a x \<le> 0 \<and> cmp x a \<le> 0 \<and> cmp a y \<le> 0 \<and> cmp y a \<le> 0)"
      using trans [of x a y] by blast
    with Cons False show ?thesis by auto
  qed simp
qed simp

lemma sort_stable:
  "filter (\<lambda>b. cmp a b \<le> 0 \<and> cmp b a \<le> 0) (js_sort cmp xs)
    = filter (\<lambda>b. cmp a b \<le> 0 \<and> cmp b a \<le> 0) xs"
  by (induction xs) (auto simp: insert_stable)

lemma sorted_id: "sorted_wrt (\<lambda>a b. cmp a b \<le> 0) xs \<Longrightarrow> js_sort cmp xs = xs"
proof (induction xs)
  case (Cons x xs)
  then show ?case by (cases xs) auto
qed simp

lemma sort_idem: "js_sort cmp (js_sort cmp xs) = js_sort cmp xs"
  by (rule sorted_id [OF sort_sorted])

end

text \<open>
  A comparison function that separates elements with different keys: the sorted array
  then does not depend on the order the elements arrived in.
\<close>

locale linear_comparator = comparator cmp for cmp :: "'a \<Rightarrow> 'a \<Rightarrow> int" +
  fixes key :: "'a \<Rightarrow> 'k"
  assumes antisym: "cmp x y \<le> 0 \<Longrightarrow> cmp y x \<le> 0 \<Longrightarrow> key x = key y"
begin

lemma sorted_unique:
  assumes "sorted_wrt (\<lambda>a b. cmp a b \<le> 0) xs" "sorted_wrt (\<lambda>a b. cmp a b \<le> 0) ys"
    and "mset xs = mset ys" and "inj_on key (set xs)"
  shows "xs = ys"
  using assms
proof (induction xs arbitrary: ys)
  case Nil
  then show ?case by simp
next
  case (Cons x xs)
  then obtain y ys' where ys: "ys = y # ys'" by (cases ys) auto
  have eq: "set (x # xs) = set ys" using Cons.prems(3) by (metis set_mset_mset)
  have xy: "cmp x y \<le> 0"
  proof (cases "y = x")
    case True
    then show ?thesis by (simp add: refl)
  next
    case False
    then have "y \<in> set xs" using eq ys by auto
    then show ?thesis using Cons.prems(1) by simp
  qed
  have yx: "cmp y x \<le> 0"
  proof (cases "y = x")
    case True
    then show ?thesis by (simp add: refl)
  next
    case False
    then have "x \<in> set ys'" using eq ys by auto
    then show ?thesis using Cons.prems(2) ys by simp
  qed
  have "x = y"
    using antisym [OF xy yx] Cons.prems(4) eq ys by (metis inj_onD list.set_intros(1))
  with Cons ys show ?case by auto
qed

lemma sort_perm:
  "mset xs = mset ys \<Longrightarrow> inj_on key (set xs) \<Longrightarrow> js_sort cmp xs = js_sort cmp ys"
  by (rule sorted_unique) (simp_all add: sort_sorted)

end

text \<open>The comparison functions of the shape \<open>(a, b) => f(a) - f(b)\<close>.\<close>

lemma comparator_diff: "comparator (\<lambda>a b. (f a :: int) - f b)"
  by unfold_locales auto

lemma sorted_diff: "sorted_wrt (\<lambda>a b. (f a :: int) - f b \<le> 0) xs \<longleftrightarrow> sorted (map f xs)"
  by (induction xs) auto

section \<open>Loops that keep an invariant\<close>

locale loop =
  fixes step :: "'s \<Rightarrow> 'e \<Rightarrow> 's"
    and ok :: "'e \<Rightarrow> bool"
    and inv :: "'s \<Rightarrow> bool"
  assumes step_inv: "inv s \<Longrightarrow> ok e \<Longrightarrow> inv (step s e)"
begin

lemma fold_inv: "inv s \<Longrightarrow> list_all ok es \<Longrightarrow> inv (foldl step s es)"
  by (induction es arbitrary: s) (auto intro: step_inv)

end

text \<open>The same for a body that may throw: the invariant holds of whatever is returned.\<close>

locale fallible_loop =
  fixes step :: "'s \<Rightarrow> 'e \<Rightarrow> 's res"
    and ok :: "'e \<Rightarrow> bool"
    and inv :: "'s \<Rightarrow> bool"
  assumes step_inv: "inv s \<Longrightarrow> ok e \<Longrightarrow> step s e = Inr s' \<Longrightarrow> inv s'"
begin

lemma run_inv: "inv s \<Longrightarrow> list_all ok es \<Longrightarrow> run_res step s es = Inr s' \<Longrightarrow> inv s'"
proof (induction es arbitrary: s)
  case (Cons e es)
  then show ?case by (auto intro: step_inv)
qed simp

end

text \<open>A quantity that every step leaves unchanged.\<close>

locale conserved =
  fixes step :: "'s \<Rightarrow> 'e \<Rightarrow> 's res"
    and quantity :: "'s \<Rightarrow> 'q"
  assumes step_conserves: "step s e = Inr s' \<Longrightarrow> quantity s' = quantity s"
begin

lemma run_conserves: "run_res step s es = Inr s' \<Longrightarrow> quantity s' = quantity s"
proof (induction es arbitrary: s)
  case (Cons e es)
  then show ?case using step_conserves by fastforce
qed simp

end

sublocale conserved \<subseteq> keeps: fallible_loop step "\<lambda>_. True" "\<lambda>s. quantity s = q" for q
  by unfold_locales (simp add: step_conserves)

end
