(* ===== verification/Fixed.thy ===== *)
theory Fixed
  imports Prelude
begin

text \<open>
  \<open>packages/sim/src/fixed.ts\<close>: fixed-point arithmetic on amounts in an asset's smallest
  unit, with every rounding direction explicit, and the conversion between amounts and
  decimal strings. An amount is a bigint, so an \<open>int\<close>; a decimal precision and a number
  of basis points are whole numbers, so \<open>int\<close>s too (the \<open>Number.isInteger\<close> guards are
  then always met). Strings are lists of characters.
\<close>

section \<open>Multiply and divide\<close>

definition BPS_DENOMINATOR :: int where
  "BPS_DENOMINATOR = 10000"

definition assertNonNegative :: "int \<Rightarrow> unit res" where
  "assertNonNegative v = ensure (\<not> v < 0) Fixed_point_error"

definition assertPositive :: "int \<Rightarrow> unit res" where
  "assertPositive v = ensure (\<not> v \<le> 0) Fixed_point_error"

definition mulDivFloor :: "int \<Rightarrow> int \<Rightarrow> int \<Rightarrow> int res" where
  "mulDivFloor a b d =
     rbind (assertNonNegative a) (\<lambda>_.
     rbind (assertNonNegative b) (\<lambda>_.
     rbind (assertPositive d) (\<lambda>_.
     Inr ((a * b) sdiv d))))"

definition mulDivCeil :: "int \<Rightarrow> int \<Rightarrow> int \<Rightarrow> int res" where
  "mulDivCeil a b d =
     rbind (assertNonNegative a) (\<lambda>_.
     rbind (assertNonNegative b) (\<lambda>_.
     rbind (assertPositive d) (\<lambda>_.
     let product = a * b in
     if product = 0 then Inr 0 else Inr ((product + d - 1) sdiv d))))"

definition feeOf :: "int \<Rightarrow> int \<Rightarrow> int res" where
  "feeOf amount bps =
     rbind (assertNonNegative amount) (\<lambda>_.
     rbind (ensure (\<not> (bps < 0 \<or> bps > 10000)) Fixed_point_error) (\<lambda>_.
     mulDivCeil amount bps BPS_DENOMINATOR))"

definition subtractFee :: "int \<Rightarrow> int \<Rightarrow> int res" where
  "subtractFee amount bps = rbind (feeOf amount bps) (\<lambda>fee. Inr (amount - fee))"

lemma mulDivFloor_eq:
  "mulDivFloor a b d = (if 0 \<le> a \<and> 0 \<le> b \<and> 0 < d then Inr (a * b div d) else Inl Fixed_point_error)"
  by (auto simp: mulDivFloor_def assertNonNegative_def assertPositive_def ensure_def sdiv_nonneg)

lemma mulDivFloor_ok [simp]:
  "0 \<le> a \<Longrightarrow> 0 \<le> b \<Longrightarrow> 0 < d \<Longrightarrow> mulDivFloor a b d = Inr (a * b div d)"
  by (simp add: mulDivFloor_eq)

text \<open>The floor of a quotient, by what it is the greatest of.\<close>

lemma floor_mult_le: "0 < d \<Longrightarrow> (x div d) * d \<le> (x::int)"
  by (metis mult.commute pos_mod_sign div_mult_mod_eq le_add_same_cancel1)

lemma le_floor_iff: "0 < d \<Longrightarrow> k \<le> x div d \<longleftrightarrow> k * d \<le> (x::int)"
proof
  assume d: "0 < d" and "k \<le> x div d"
  then have "k * d \<le> (x div d) * d" by (simp add: mult_right_mono)
  also have "\<dots> \<le> x" using d by (rule floor_mult_le)
  finally show "k * d \<le> x" .
next
  assume d: "0 < d" and "k * d \<le> x"
  then have "(k * d) div d \<le> x div d" by (intro zdiv_mono1)
  moreover have "(k * d) div d = k" using d by simp
  ultimately show "k \<le> x div d" by linarith
qed

lemma floor_lt_iff: "0 < d \<Longrightarrow> x div d < k \<longleftrightarrow> (x::int) < k * d"
  using le_floor_iff [of d k x] by linarith

text \<open>The ceiling of a quotient, as the code computes it.\<close>

definition ceil_div :: "int \<Rightarrow> int \<Rightarrow> int" where
  "ceil_div x d = (x + d - 1) div d"

lemma mulDivCeil_eq:
  "mulDivCeil a b d = (if 0 \<le> a \<and> 0 \<le> b \<and> 0 < d then Inr (ceil_div (a * b) d) else Inl Fixed_point_error)"
proof (cases "0 \<le> a \<and> 0 \<le> b \<and> 0 < d")
  case True
  then have "0 \<le> a * b" by simp
  then have "(a * b + d - 1) sdiv d = (a * b + d - 1) div d" using True by (intro sdiv_nonneg) linarith+
  moreover have "(d - 1) div d = 0" using True by simp
  ultimately show ?thesis
    using True by (auto simp: mulDivCeil_def assertNonNegative_def assertPositive_def ceil_div_def)
qed (auto simp: mulDivCeil_def assertNonNegative_def assertPositive_def ensure_def)

lemma mulDivCeil_ok [simp]:
  "0 \<le> a \<Longrightarrow> 0 \<le> b \<Longrightarrow> 0 < d \<Longrightarrow> mulDivCeil a b d = Inr (ceil_div (a * b) d)"
  by (simp add: mulDivCeil_eq)

lemma ceil_div_le_iff: "0 < d \<Longrightarrow> ceil_div x d \<le> k \<longleftrightarrow> x \<le> k * d"
proof -
  assume d: "0 < d"
  have "ceil_div x d \<le> k \<longleftrightarrow> (x + d - 1) div d < k + 1" by (auto simp: ceil_div_def)
  also have "\<dots> \<longleftrightarrow> x + d - 1 < (k + 1) * d" using d by (rule floor_lt_iff)
  also have "\<dots> \<longleftrightarrow> x \<le> k * d" by (auto simp: algebra_simps)
  finally show ?thesis .
qed

lemma le_ceil_div: "0 < d \<Longrightarrow> x \<le> ceil_div x d * d"
  using ceil_div_le_iff [of d x "ceil_div x d"] by simp

lemma ceil_div_lt: "0 < d \<Longrightarrow> ceil_div x d * d < x + d"
proof -
  assume d: "0 < d"
  have "(x + d - 1) div d * d \<le> x + d - 1" using d by (metis mult.commute pos_mod_sign div_mult_mod_eq le_add_same_cancel1)
  then show ?thesis by (simp add: ceil_div_def)
qed

lemma ceil_div_nonneg: "0 < d \<Longrightarrow> 0 \<le> x \<Longrightarrow> 0 \<le> ceil_div x d"
  by (simp add: ceil_div_def pos_imp_zdiv_nonneg_iff)

lemma floor_le_ceil: "0 < d \<Longrightarrow> x div d \<le> ceil_div x d"
  by (simp add: ceil_div_def zdiv_mono1)

lemma ceil_le_floor_Suc: "0 < d \<Longrightarrow> ceil_div x d \<le> x div d + 1"
  using floor_lt_iff [of d x "x div d + 1"] by (subst ceil_div_le_iff) auto

lemma ceil_floor_mono: "0 < d \<Longrightarrow> x \<le> y \<Longrightarrow> ceil_div x d \<le> ceil_div y d"
  by (simp add: ceil_div_def zdiv_mono1)

lemma ceil_div_add: "0 < d \<Longrightarrow> ceil_div (x + y) d \<le> ceil_div x d + ceil_div y d"
  using le_ceil_div [of d x] le_ceil_div [of d y] by (subst ceil_div_le_iff) (simp_all add: algebra_simps)

text \<open>What is left of an amount after a fee of at most all of it grows with the amount.\<close>

lemma net_mono:
  assumes "x \<le> y" "f \<le> d" "0 < d"
  shows "x - ceil_div (x * f) d \<le> y - ceil_div (y * f) d"
proof -
  have "(y - x) * f \<le> (y - x) * d" using assms by (intro mult_left_mono) simp_all
  then have "ceil_div (y * f) d \<le> ceil_div (x * f) d + (y - x)"
    using le_ceil_div [of d "x * f"] assms by (subst ceil_div_le_iff) (simp_all add: algebra_simps)
  then show ?thesis by simp
qed

lemma subtractFee_ok:
  assumes "0 \<le> amount" "0 \<le> bps" "bps \<le> 10000"
  shows "subtractFee amount bps = Inr (amount - ceil_div (amount * bps) 10000)"
  using assms by (simp add: subtractFee_def feeOf_def assertNonNegative_def BPS_DENOMINATOR_def)

section \<open>Decimal strings\<close>

definition digit_char :: "nat \<Rightarrow> char" where
  "digit_char n = char_of (48 + n)"

definition is_digit :: "char \<Rightarrow> bool" where
  "is_digit c = (48 \<le> (of_char c :: nat) \<and> (of_char c :: nat) \<le> 57)"

definition digit_val :: "char \<Rightarrow> int" where
  "digit_val c = int (of_char c) - 48"

text \<open>\<open>String(n)\<close> of a whole number that is not negative.\<close>

fun show_nat :: "nat \<Rightarrow> string" where
  "show_nat n = (if n < 10 then [digit_char n] else show_nat (n div 10) @ [digit_char (n mod 10)])"

declare show_nat.simps [simp del]

text \<open>\<open>BigInt(s)\<close> of a string of digits.\<close>

definition read_digits :: "string \<Rightarrow> int" where
  "read_digits s = foldl (\<lambda>n c. 10 * n + digit_val c) 0 s"

definition pad_start :: "nat \<Rightarrow> char \<Rightarrow> string \<Rightarrow> string" where
  "pad_start n c s = replicate (n - length s) c @ s"

definition pad_end :: "nat \<Rightarrow> char \<Rightarrow> string \<Rightarrow> string" where
  "pad_end n c s = s @ replicate (n - length s) c"

text \<open>\<open>s.replace(/0+$/, "")\<close>.\<close>

definition strip_zeros :: "string \<Rightarrow> string" where
  "strip_zeros s = rev (dropWhile (\<lambda>c. c = CHR ''0'') (rev s))"

text \<open>\<open>s.trim()\<close>, on the white space among the characters of one byte.\<close>

definition is_space :: "char \<Rightarrow> bool" where
  "is_space c = ((of_char c :: nat) \<in> {9, 10, 11, 12, 13, 32, 160})"

definition trim :: "string \<Rightarrow> string" where
  "trim s = rev (dropWhile is_space (rev (dropWhile is_space s)))"

text \<open>The regular expression \<open>/^\d+(\.\d+)?$/\<close>.\<close>

definition decimal_syntax :: "string \<Rightarrow> bool" where
  "decimal_syntax s =
     (let w = takeWhile is_digit s; rest = dropWhile is_digit s
      in w \<noteq> [] \<and> (case rest of [] \<Rightarrow> True
           | c # f \<Rightarrow> c = CHR ''.'' \<and> f \<noteq> [] \<and> list_all is_digit f))"

definition formatAmount :: "int \<Rightarrow> int \<Rightarrow> string res" where
  "formatAmount raw decimals =
     rbind (assertNonNegative raw) (\<lambda>_.
     rbind (ensure (\<not> (decimals < 0 \<or> decimals > 32)) Fixed_point_error) (\<lambda>_.
     if decimals = 0 then Inr (show_nat (nat raw))
     else let scale = 10 ^ nat decimals;
              whole = raw sdiv scale;
              fraction = raw smod scale in
          if fraction = 0 then Inr (show_nat (nat whole))
          else let padded = strip_zeros (pad_start (nat decimals) (CHR ''0'') (show_nat (nat fraction)))
               in Inr (show_nat (nat whole) @ CHR ''.'' # padded)))"

definition parseAmount :: "string \<Rightarrow> int \<Rightarrow> int res" where
  "parseAmount input decimals =
     rbind (ensure (\<not> (decimals < 0 \<or> decimals > 32)) Fixed_point_error) (\<lambda>_.
     let trimmed = trim input in
     rbind (ensure (decimal_syntax trimmed) Fixed_point_error) (\<lambda>_.
     let wholePart = takeWhile (\<lambda>c. c \<noteq> CHR ''.'') trimmed;
         fractionPart = tl (dropWhile (\<lambda>c. c \<noteq> CHR ''.'') trimmed) in
     rbind (ensure (\<not> int (length fractionPart) > decimals) Fixed_point_error) (\<lambda>_.
     let scale = 10 ^ nat decimals;
         fractionScaled = read_digits (pad_end (nat decimals) (CHR ''0'') fractionPart)
     in Inr (read_digits wholePart * scale + fractionScaled))))"

lemma is_digit_digit_char [simp]: "n < 10 \<Longrightarrow> is_digit (digit_char n)"
  by (simp add: is_digit_def digit_char_def)

lemma digit_val_digit_char [simp]: "n < 10 \<Longrightarrow> digit_val (digit_char n) = int n"
  by (simp add: digit_val_def digit_char_def)

lemma digit_val_0 [simp]: "digit_val (CHR ''0'') = 0"
  by (simp add: digit_val_def)

lemma not_digit_dot [simp]: "\<not> is_digit (CHR ''.'')"
  by (simp add: is_digit_def)

lemma not_space_digit: "is_digit c \<Longrightarrow> \<not> is_space c"
  by (auto simp: is_digit_def is_space_def)

lemma show_nat_digits: "list_all is_digit (show_nat n)"
proof (induction n rule: show_nat.induct)
  case (1 n)
  then show ?case by (subst show_nat.simps) auto
qed

lemma show_nat_not_Nil [simp]: "show_nat n \<noteq> []"
  by (subst show_nat.simps) simp

lemma foldl_digits:
  "foldl (\<lambda>n c. 10 * n + digit_val c) a s = a * 10 ^ length s + read_digits s"
proof (induction s rule: rev_induct)
  case Nil
  then show ?case by (simp add: read_digits_def)
next
  case (snoc c s)
  then show ?case by (simp add: read_digits_def algebra_simps)
qed

lemma read_digits_append: "read_digits (s @ t) = read_digits s * 10 ^ length t + read_digits t"
  using foldl_digits [of "read_digits s" t] by (simp add: read_digits_def)

lemma read_digits_zeros [simp]: "read_digits (replicate n (CHR ''0'')) = 0"
  by (induction n) (simp_all add: read_digits_def)

lemma read_show_nat [simp]: "read_digits (show_nat n) = int n"
proof (induction n rule: show_nat.induct)
  case (1 n)
  show ?case
  proof (cases "n < 10")
    case True
    then show ?thesis by (subst show_nat.simps) (simp add: read_digits_def)
  next
    case False
    with 1 have "read_digits (show_nat (n div 10)) = int (n div 10)" by simp
    moreover have "int (n div 10) * 10 + int (n mod 10) = int n" by presburger
    ultimately show ?thesis
      using False by (subst show_nat.simps) (simp add: read_digits_append, simp add: read_digits_def)
  qed
qed

lemma length_show_nat: "n < 10 ^ d \<Longrightarrow> 0 < d \<Longrightarrow> length (show_nat n) \<le> d"
proof (induction n arbitrary: d rule: show_nat.induct)
  case (1 n)
  show ?case
  proof (cases "n < 10")
    case True
    with 1 show ?thesis by (subst show_nat.simps) simp
  next
    case False
    then obtain e where d: "d = Suc e" and e: "0 < e" using 1 by (cases d; cases "d - 1") auto
    have "n div 10 < 10 ^ e" using 1 d by (simp add: less_mult_imp_div_less mult.commute)
    with 1 False d e show ?thesis by (subst show_nat.simps) simp
  qed
qed

text \<open>Padding a stripped fraction gives it back.\<close>

lemma pad_strip: "pad_end (length s) (CHR ''0'') (strip_zeros s) = s"
proof (induction s rule: rev_induct)
  case Nil
  then show ?case by (simp add: pad_end_def strip_zeros_def)
next
  case (snoc c s)
  show ?case
  proof (cases "c = CHR ''0''")
    case True
    have "length (strip_zeros s) \<le> length s"
      by (simp add: strip_zeros_def) (metis length_dropWhile_le length_rev)
    with True snoc show ?thesis
      by (simp add: pad_end_def strip_zeros_def Suc_diff_le replicate_append_same [symmetric] flip: append_assoc)
  next
    case False
    then show ?thesis by (simp add: pad_end_def strip_zeros_def)
  qed
qed

lemma length_strip: "length (strip_zeros s) \<le> length s"
  by (simp add: strip_zeros_def) (metis length_dropWhile_le length_rev)

lemma strip_digits: "list_all is_digit s \<Longrightarrow> list_all is_digit (strip_zeros s)"
  by (auto simp: strip_zeros_def list_all_iff dest: set_dropWhileD)

lemma strip_not_Nil: "read_digits s \<noteq> 0 \<Longrightarrow> strip_zeros s \<noteq> []"
proof
  assume n: "read_digits s \<noteq> 0" and "strip_zeros s = []"
  then have "s = replicate (length s) (CHR ''0'')"
    using pad_strip [of s] by (simp add: pad_end_def)
  then have "read_digits s = 0" by (metis read_digits_zeros)
  with n show False by simp
qed

lemma dropWhile_hd: "\<not> p (hd s) \<Longrightarrow> dropWhile p s = s"
  by (cases s) auto

lemma trim_id: "\<not> is_space (hd s) \<Longrightarrow> \<not> is_space (last s) \<Longrightarrow> trim s = s"
  by (simp add: trim_def dropWhile_hd hd_rev)

lemma digits_not_space: "list_all is_digit w \<Longrightarrow> w \<noteq> [] \<Longrightarrow> \<not> is_space (hd w) \<and> \<not> is_space (last w)"
  by (auto simp: list_all_iff not_space_digit)

lemma digits_not_dot: "list_all is_digit w \<Longrightarrow> \<forall>c \<in> set w. c \<noteq> CHR ''.''"
  by (auto simp: list_all_iff)

lemma parse_whole:
  assumes "0 \<le> decimals" "decimals \<le> 32" "list_all is_digit w" "w \<noteq> []"
  shows "parseAmount w decimals = Inr (read_digits w * 10 ^ nat decimals)"
proof -
  have t: "trim w = w" using assms(3,4) by (simp add: trim_id digits_not_space)
  have d: "takeWhile is_digit w = w" "dropWhile is_digit w = []"
    using assms(3) by (simp_all add: list_all_iff)
  have p: "takeWhile (\<lambda>c. c \<noteq> CHR ''.'') w = w" "dropWhile (\<lambda>c. c \<noteq> CHR ''.'') w = []"
    using assms(3) by (auto simp: list_all_iff)
  show ?thesis
    using assms by (simp add: parseAmount_def t decimal_syntax_def d p pad_end_def)
qed

lemma parse_fraction:
  assumes "0 \<le> decimals" "decimals \<le> 32" "list_all is_digit w" "w \<noteq> []"
    and "list_all is_digit f" "f \<noteq> []" "int (length f) \<le> decimals"
  shows "parseAmount (w @ CHR ''.'' # f) decimals
    = Inr (read_digits w * 10 ^ nat decimals + read_digits (pad_end (nat decimals) (CHR ''0'') f))"
proof -
  let ?s = "w @ CHR ''.'' # f"
  have t: "trim ?s = ?s" using assms(3-6) by (intro trim_id) (simp_all add: digits_not_space)
  have d: "takeWhile is_digit ?s = w" "dropWhile is_digit ?s = CHR ''.'' # f"
    using assms(3) by (simp_all add: list_all_iff)
  have p: "takeWhile (\<lambda>c. c \<noteq> CHR ''.'') ?s = w" "dropWhile (\<lambda>c. c \<noteq> CHR ''.'') ?s = CHR ''.'' # f"
    using digits_not_dot [OF assms(3)] by (simp_all add: takeWhile_append2 dropWhile_append2)
  show ?thesis
    using assms by (simp add: parseAmount_def t decimal_syntax_def d p)
qed

text \<open>The two numbers a decimal string is made of, and the padded fraction.\<close>

lemma smod_nonneg: "0 \<le> a \<Longrightarrow> 0 < b \<Longrightarrow> a smod b = a mod (b::int)"
  by (cases "a = 0") (simp_all add: signed_modulo_int_def)

lemma padded_fraction:
  assumes f: "0 < f" "f < 10 ^ d" and d: "0 < d"
    and pf: "pf = pad_start d (CHR ''0'') (show_nat (nat f))"
  shows "length pf = d" and "read_digits pf = f" and "list_all is_digit pf"
    and "strip_zeros pf \<noteq> []"
proof -
  have "nat f < 10 ^ d" using f by (simp add: nat_less_iff)
  then have "length (show_nat (nat f)) \<le> d" using d by (rule length_show_nat)
  then show "length pf = d" by (simp add: pf pad_start_def)
  show val: "read_digits pf = f"
    using f by (simp add: pf pad_start_def read_digits_append)
  show "list_all is_digit pf"
    using show_nat_digits [of "nat f"] by (auto simp: pf pad_start_def list_all_iff is_digit_def)
  show "strip_zeros pf \<noteq> []" using val f by (intro strip_not_Nil) simp
qed

lemma parse_padded:
  assumes "0 \<le> decimals" "decimals \<le> 32" "0 \<le> w" "0 < f" "f < 10 ^ nat decimals" "decimals \<noteq> 0"
  shows "parseAmount (show_nat (nat w) @ CHR ''.''
      # strip_zeros (pad_start (nat decimals) (CHR ''0'') (show_nat (nat f)))) decimals
    = Inr (w * 10 ^ nat decimals + f)"
proof -
  define pf where "pf = pad_start (nat decimals) (CHR ''0'') (show_nat (nat f))"
  have "0 < nat decimals" using assms by simp
  note p = padded_fraction [OF assms(4,5) this pf_def]
  have "int (length (strip_zeros pf)) \<le> decimals" using length_strip [of pf] p(1) assms by simp
  moreover have "pad_end (nat decimals) (CHR ''0'') (strip_zeros pf) = pf"
    using pad_strip [of pf] p(1) by simp
  ultimately show ?thesis
    using assms p by (subst parse_fraction) (simp_all add: show_nat_digits strip_digits flip: pf_def)
qed

text \<open>
  rendering an amount and reading it back gives the amount, for every amount that is
  not negative and every precision the code accepts: no digit is dropped on the way.
\<close>

theorem format_parse_roundtrip:
  assumes "0 \<le> raw" "0 \<le> decimals" "decimals \<le> 32"
  shows "\<exists>s. formatAmount raw decimals = Inr s \<and> parseAmount s decimals = Inr raw"
proof -
  define scale :: int where "scale = 10 ^ nat decimals"
  have scale: "0 < scale" by (simp add: scale_def)
  have nn: "0 \<le> raw div scale" "0 \<le> raw mod scale" "raw mod scale < scale"
    using assms scale by (simp_all add: pos_imp_zdiv_nonneg_iff)
  have split: "raw div scale * scale + raw mod scale = raw" by simp
  have eqs: "raw sdiv scale = raw div scale" "raw smod scale = raw mod scale"
    using assms scale by (simp_all add: sdiv_nonneg smod_nonneg)
  consider "decimals = 0" | "decimals \<noteq> 0" "raw mod scale = 0" | "decimals \<noteq> 0" "0 < raw mod scale"
    using nn by linarith
  then show ?thesis
  proof cases
    case 1
    with assms show ?thesis
      by (simp add: formatAmount_def assertNonNegative_def parse_whole show_nat_digits)
  next
    case 2
    with assms nn split show ?thesis
      by (simp add: formatAmount_def assertNonNegative_def eqs parse_whole show_nat_digits
          flip: scale_def)
  next
    case 3
    with assms nn split parse_padded [of decimals "raw div scale" "raw mod scale"] show ?thesis
      by (simp add: formatAmount_def assertNonNegative_def eqs Let_def flip: scale_def)
  qed
qed

theorem format_parse_roundtrip_witness:
  "\<exists>s. formatAmount 1230000000 9 = Inr s \<and> parseAmount s 9 = Inr 1230000000"
  by (rule format_parse_roundtrip) simp_all

end
