(* ===== verification/Doubles.thy ===== *)
theory Doubles
  imports Prelude
begin

text \<open>
  The language's numbers: an IEEE double is the rational it denotes, and every arithmetic
  operation is the exact operation followed by \<open>fl\<close>, the rounding to the nearest double
  with ties to the even significand, gradual underflow included. Overflow to infinity is
  left out: nothing the packages compute comes near \<open>2 ^ 1023\<close>.
\<close>

section \<open>Rounding\<close>

definition half_even :: "rat \<Rightarrow> int" where
  "half_even z = (let f = \<lfloor>z\<rfloor>; r = z - of_int f
     in if r < 1 / 2 \<or> (r = 1 / 2 \<and> even f) then f else f + 1)"

text \<open>The exponent of the leading bit of a positive rational.\<close>

definition lead :: "rat \<Rightarrow> int" where
  "lead x = (case quotient_of x of (n, d) \<Rightarrow>
     let k = int (bits (nat n)) - int (bits (nat d)) in if 2 powi k \<le> x then k else k - 1)"

definition ulp :: "rat \<Rightarrow> rat" where
  "ulp x = 2 powi (max (lead x) (-1022) - 52)"

definition fl_pos :: "rat \<Rightarrow> rat" where
  "fl_pos x = of_int (half_even (x / ulp x)) * ulp x"

definition fl :: "rat \<Rightarrow> rat" where
  "fl x = (if x = 0 then 0 else if 0 < x then fl_pos x else - fl_pos (- x))"

text \<open>\<open>Math.round\<close>: the nearest integer, ties toward positive infinity.\<close>

definition math_round :: "rat \<Rightarrow> int" where
  "math_round x = \<lfloor>x + 1 / 2\<rfloor>"

section \<open>Facts about rounding\<close>

lemma half_even_of_int [simp]: "half_even (of_int n) = n"
  by (simp add: half_even_def)

lemma half_even_bounds: "\<lfloor>z\<rfloor> \<le> half_even z" "half_even z \<le> \<lfloor>z\<rfloor> + 1"
  by (simp_all add: half_even_def Let_def)

lemma half_even_mono:
  assumes "x \<le> y"
  shows "half_even x \<le> half_even y"
proof (cases "\<lfloor>x\<rfloor> = \<lfloor>y\<rfloor>")
  case True
  then show ?thesis using assms by (auto simp: half_even_def Let_def)
next
  case False
  then have "\<lfloor>x\<rfloor> + 1 \<le> \<lfloor>y\<rfloor>" using floor_mono [OF assms] by simp
  then show ?thesis using half_even_bounds [of x] half_even_bounds [of y] by linarith
qed

lemma powi_pos [simp]: "0 < (2::rat) powi k"
  by (rule zero_less_power_int) simp

lemma powi_mono: "j \<le> k \<Longrightarrow> (2::rat) powi j \<le> 2 powi k"
  by (rule power_int_increasing) simp_all

lemma powi_add: "(2::rat) powi (j + k) = 2 powi j * 2 powi k"
  by (rule power_int_add) simp

lemma lead_bounds:
  assumes x: "0 < x"
  shows "2 powi lead x \<le> x \<and> x < 2 powi (lead x + 1)"
proof -
  obtain n d where q: "quotient_of x = (n, d)" by force
  have d: "0 < d" and xe: "x = of_int n / of_int d"
    using quotient_of_denom_pos [OF q] quotient_of_div [OF q] by simp_all
  have n: "0 < n" using x d unfolding xe by (simp add: zero_less_divide_iff)
  let ?b = "\<lambda>m. int (bits (nat m))"
  have b: "(2::rat) powi (?b m - 1) \<le> of_int m \<and> (of_int m :: rat) < 2 powi ?b m" if m: "0 < m" for m
  proof -
    have "0 < bits (nat m)" using m by (subst bits.simps) simp
    then have "?b m - 1 = int (bits (nat m) - 1)" by (simp add: of_nat_diff)
    moreover have "2 ^ (bits (nat m) - 1) \<le> nat m" "nat m < 2 ^ bits (nat m)"
      using bits_bounds [of "nat m"] m by simp_all
    then have "rat_of_nat (2 ^ (bits (nat m) - 1)) \<le> rat_of_nat (nat m)"
      "rat_of_nat (nat m) < rat_of_nat (2 ^ bits (nat m))"
      by (simp_all only: of_nat_le_iff of_nat_less_iff)
    moreover have "rat_of_nat (nat m) = of_int m" using m by simp
    ultimately show ?thesis by (simp only: power_int_of_nat of_nat_power of_nat_numeral simp_thms)
  qed
  let ?k = "?b n - ?b d"
  have lo: "(2::rat) powi (?k - 1) \<le> x"
  proof -
    have "(2::rat) powi (?k - 1) * of_int d \<le> 2 powi (?k - 1) * 2 powi ?b d"
      using b [OF d] by (intro mult_left_mono) auto
    also have "\<dots> = 2 powi (?b n - 1)" unfolding powi_add [symmetric] by simp
    also have "\<dots> \<le> of_int n" using b [OF n] by simp
    finally show ?thesis using d unfolding xe by (simp add: pos_le_divide_eq)
  qed
  have hi: "x < (2::rat) powi (?k + 1)"
  proof -
    have "of_int n < (2::rat) powi ?b n" using b [OF n] by simp
    also have "\<dots> = 2 powi (?k + 1) * 2 powi (?b d - 1)"
      unfolding powi_add [symmetric] by simp
    also have "\<dots> \<le> 2 powi (?k + 1) * of_int d" using b [OF d] by (intro mult_left_mono) auto
    finally show ?thesis using d unfolding xe by (simp add: pos_divide_less_eq)
  qed
  show ?thesis using lo hi unfolding lead_def q by (simp add: Let_def)
qed

lemma ulp_pos [simp]: "0 < ulp x"
  by (simp add: ulp_def)

lemma ulp_nonneg [simp]: "0 \<le> ulp x"
  by (rule less_imp_le) simp

lemma lead_mono:
  assumes "0 < x" "x \<le> y"
  shows "lead x \<le> lead y"
proof (rule ccontr)
  assume "\<not> lead x \<le> lead y"
  then have "(2::rat) powi (lead y + 1) \<le> 2 powi lead x" by (intro powi_mono) simp
  also have "\<dots> \<le> x" using lead_bounds assms by simp
  finally show False using lead_bounds [of y] assms by simp
qed

lemma fl_pos_upper:
  assumes "0 < x"
  shows "fl_pos x \<le> 2 powi (max (lead x) (-1022) + 1)"
proof -
  let ?e = "max (lead x) (-1022)"
  have e: "(2::rat) powi (?e + 1) = of_int (2 ^ 53) * ulp x"
  proof -
    have "?e + 1 = 53 + (?e - 52)" by simp
    then have "(2::rat) powi (?e + 1) = 2 powi 53 * 2 powi (?e - 52)" by (metis powi_add)
    then show ?thesis by (simp add: ulp_def)
  qed
  have "x < 2 powi (lead x + 1)" using lead_bounds [OF assms] by simp
  also have "\<dots> \<le> 2 powi (?e + 1)" by (intro powi_mono) simp
  finally have "x / ulp x \<le> of_int (2 ^ 53)" unfolding e by (simp add: pos_divide_le_eq)
  then have "half_even (x / ulp x) \<le> 2 ^ 53" using half_even_mono half_even_of_int by metis
  then have "(of_int (half_even (x / ulp x)) :: rat) \<le> of_int (2 ^ 53)" by (simp only: of_int_le_iff)
  then show ?thesis unfolding e fl_pos_def by (intro mult_right_mono) simp_all
qed

lemma fl_pos_lower:
  assumes "0 < x" "-1022 \<le> lead x"
  shows "2 powi lead x \<le> fl_pos x"
proof -
  have e: "(2::rat) powi lead x = of_int (2 ^ 52) * ulp x"
  proof -
    have "lead x = 52 + (lead x - 52)" by simp
    then have "(2::rat) powi lead x = 2 powi 52 * 2 powi (lead x - 52)" by (metis powi_add)
    then show ?thesis using assms by (simp add: ulp_def max_def)
  qed
  have "of_int (2 ^ 52) \<le> x / ulp x"
    using lead_bounds [OF assms(1)] unfolding e by (simp add: pos_le_divide_eq)
  then have "2 ^ 52 \<le> half_even (x / ulp x)" using half_even_mono half_even_of_int by metis
  then have "of_int (2 ^ 52) \<le> (of_int (half_even (x / ulp x)) :: rat)" by (simp only: of_int_le_iff)
  then show ?thesis unfolding e fl_pos_def by (intro mult_right_mono) simp_all
qed

lemma fl_pos_nonneg: "0 < x \<Longrightarrow> 0 \<le> fl_pos x"
proof -
  assume "0 < x"
  then have "0 \<le> \<lfloor>x / ulp x\<rfloor>" by (simp add: zero_le_floor less_imp_le)
  then have "0 \<le> half_even (x / ulp x)" using half_even_bounds(1) order_trans by blast
  then show ?thesis by (simp add: fl_pos_def)
qed

lemma fl_pos_mono:
  assumes x: "0 < x" and xy: "x \<le> y"
  shows "fl_pos x \<le> fl_pos y"
proof (cases "max (lead x) (-1022) = max (lead y) (-1022)")
  case True
  then have u: "ulp x = ulp y" by (simp add: ulp_def)
  have "half_even (x / ulp y) \<le> half_even (y / ulp y)"
    using xy by (intro half_even_mono divide_right_mono) (simp_all add: less_imp_le)
  then show ?thesis unfolding fl_pos_def u by (simp add: mult_right_mono less_imp_le)
next
  case False
  with lead_mono [OF x xy] have l: "max (lead x) (-1022) + 1 \<le> lead y" "-1022 \<le> lead y" by auto
  have "fl_pos x \<le> 2 powi (max (lead x) (-1022) + 1)" by (rule fl_pos_upper [OF x])
  also have "\<dots> \<le> 2 powi lead y" using l by (intro powi_mono)
  also have "\<dots> \<le> fl_pos y" using l x xy by (intro fl_pos_lower) simp_all
  finally show ?thesis .
qed

lemma fl_0 [simp]: "fl 0 = 0"
  by (simp add: fl_def)

lemma fl_nonneg: "0 \<le> x \<Longrightarrow> 0 \<le> fl x"
  by (simp add: fl_def fl_pos_nonneg)

lemma fl_minus: "fl (- x) = - fl x"
  by (simp add: fl_def)

lemma fl_mono: "x \<le> y \<Longrightarrow> fl x \<le> fl y"
proof -
  assume xy: "x \<le> y"
  consider "0 < x" | "x \<le> 0" "0 \<le> y" | "y < 0" by linarith
  then show ?thesis
  proof cases
    case 1
    then show ?thesis using fl_pos_mono [OF _ xy] xy by (simp add: fl_def)
  next
    case 2
    then have "0 \<le> fl (- x)" "0 \<le> fl y" by (simp_all add: fl_nonneg)
    then show ?thesis by (simp add: fl_minus)
  next
    case 3
    then show ?thesis using fl_pos_mono [of "- y" "- x"] xy by (simp add: fl_def)
  qed
qed

text \<open>Whole numbers of up to 53 bits are doubles.\<close>

lemma fl_pos_of_int:
  assumes n: "0 < n" and s: "n \<le> 2 ^ 53"
  shows "fl_pos (of_int n) = of_int n"
proof -
  let ?x = "of_int n :: rat"
  have b: "2 powi lead ?x \<le> ?x" "?x < 2 powi (lead ?x + 1)" using lead_bounds [of ?x] n by simp_all
  have "0 \<le> lead ?x"
  proof (rule ccontr)
    assume "\<not> 0 \<le> lead ?x"
    then have "(2::rat) powi (lead ?x + 1) \<le> 2 powi 0" by (intro powi_mono) simp
    with b(2) n show False by simp
  qed
  show ?thesis
  proof (cases "lead ?x \<le> 52")
    case True
    define j where "j = nat (52 - lead ?x)"
    have "ulp ?x = 2 powi (- int j)"
      using True \<open>0 \<le> lead ?x\<close> by (simp add: ulp_def j_def max_def)
    then have u: "ulp ?x = 1 / 2 ^ j" by (simp add: power_int_minus divide_inverse)
    then have "?x / ulp ?x = of_int (n * 2 ^ j)" by simp
    then have "half_even (?x / ulp ?x) = n * 2 ^ j" by (simp only: half_even_of_int)
    then show ?thesis by (simp add: fl_pos_def u)
  next
    case False
    then have "(2::rat) powi 53 \<le> 2 powi lead ?x" by (intro powi_mono) simp
    with b(1) have "rat_of_int (2 ^ 53) \<le> ?x" by simp
    then have "2 ^ 53 \<le> n" by (simp only: of_int_le_iff)
    with s have e: "n = 2 ^ 53" by simp
    have "lead ?x = 53"
    proof (rule ccontr)
      assume "lead ?x \<noteq> 53"
      with False have "(2::rat) powi 54 \<le> 2 powi lead ?x" by (intro powi_mono) simp
      with b(1) have "(2::rat) powi 54 \<le> ?x" by linarith
      then show False unfolding e by simp
    qed
    then have u: "ulp ?x = 2" by (simp add: ulp_def)
    have "?x / ulp ?x = of_int (2 ^ 52)" unfolding u by (simp add: e)
    then have "half_even (?x / ulp ?x) = 2 ^ 52" by (simp only: half_even_of_int)
    then have "fl_pos ?x = of_int (2 ^ 52) * 2" unfolding fl_pos_def u by simp
    then show ?thesis by (simp add: e)
  qed
qed

lemma fl_of_int [simp]: "\<bar>n\<bar> \<le> 2 ^ 53 \<Longrightarrow> fl (of_int n) = of_int n"
  using fl_pos_of_int [of n] fl_pos_of_int [of "- n"] by (auto simp: fl_def)

lemma fl_of_nat: "int n \<le> 2 ^ 53 \<Longrightarrow> fl (of_nat n) = of_nat n"
  using fl_of_int [of "int n"] by (simp del: fl_of_int)

lemma fl_1 [simp]: "fl 1 = 1"
  using fl_of_int [of 1] by simp

lemma fl_numeral [simp]: "(numeral k :: int) \<le> 2 ^ 53 \<Longrightarrow> fl (numeral k) = numeral k"
  using fl_of_int [of "numeral k"] by simp

text \<open>So a bound that is a double survives rounding.\<close>

lemma fl_le_int: "x \<le> of_int n \<Longrightarrow> \<bar>n\<bar> \<le> 2 ^ 53 \<Longrightarrow> fl x \<le> of_int n"
  using fl_mono [of x "of_int n"] by simp

lemma fl_ge_int: "of_int n \<le> x \<Longrightarrow> \<bar>n\<bar> \<le> 2 ^ 53 \<Longrightarrow> of_int n \<le> fl x"
  using fl_mono [of "of_int n" x] by simp

lemma fl_le_1: "x \<le> 1 \<Longrightarrow> fl x \<le> 1"
  using fl_le_int [of x 1] by simp

lemma math_round_of_int [simp]: "math_round (of_int n) = n"
  unfolding math_round_def by (subst add.commute) (simp add: floor_eq_iff)

lemma math_round_mono: "x \<le> y \<Longrightarrow> math_round x \<le> math_round y"
  unfolding math_round_def by (intro floor_mono) simp

lemma math_round_le_int: "x \<le> of_int n \<Longrightarrow> math_round x \<le> n"
  using math_round_mono [of x "of_int n"] by simp

lemma math_round_ge_int: "of_int n \<le> x \<Longrightarrow> n \<le> math_round x"
  using math_round_mono [of "of_int n" x] by simp

end
