(* ===== verification/Json.thy ===== *)
theory Json
  imports Doubles Fixed
begin

text \<open>
  Values of type \<open>unknown\<close>: what a request body or a stored row turns out to hold, and the
  conversions of the language the validators apply to it (\<open>Number\<close>, \<open>BigInt\<close>, \<open>String\<close>).
  Functions, symbols and class instances never come out of \<open>JSON.parse\<close> and are left out.
  A stored text is represented by what \<open>JSON.parse\<close> makes of it.
\<close>

datatype json =
    JUndefined
  | JNull
  | JBool bool
  | JNum rat
  | JNotFinite
  | JBig int
  | JStr string
  | JArr "json list"
  | JObj "(string \<times> json) list"

definition show_int :: "int \<Rightarrow> string" where
  "show_int n = (if n < 0 then CHR ''-'' # show_nat (nat (- n)) else show_nat (nat n))"

section \<open>Literals\<close>

definition hex_val :: "char \<Rightarrow> nat option" where
  "hex_val c = (let k = (of_char c :: nat) in
     if 48 \<le> k \<and> k \<le> 57 then Some (k - 48)
     else if 97 \<le> k \<and> k \<le> 102 then Some (k - 87)
     else if 65 \<le> k \<and> k \<le> 70 then Some (k - 55) else None)"

definition radix_digits :: "nat \<Rightarrow> string \<Rightarrow> int option" where
  "radix_digits b s = (if s = [] then None else
     foldl (\<lambda>acc c. case (acc, hex_val c) of (Some n, Some d) \<Rightarrow> if d < b then Some (int b * n + int d) else None
                      | _ \<Rightarrow> None) (Some 0) s)"

text \<open>A literal with a base prefix, which never carries a sign.\<close>

definition radix_literal :: "string \<Rightarrow> int option" where
  "radix_literal s = (case s of
       c # d # ds \<Rightarrow> if c \<noteq> CHR ''0'' then None
         else if d = CHR ''x'' \<or> d = CHR ''X'' then radix_digits 16 ds
         else if d = CHR ''o'' \<or> d = CHR ''O'' then radix_digits 8 ds
         else if d = CHR ''b'' \<or> d = CHR ''B'' then radix_digits 2 ds
         else None
     | _ \<Rightarrow> None)"

definition signed_of :: "string \<Rightarrow> int \<times> string" where
  "signed_of s = (case s of [] \<Rightarrow> (1, []) | c # cs \<Rightarrow>
     if c = CHR ''-'' then (-1, cs) else if c = CHR ''+'' then (1, cs) else (1, c # cs))"

text \<open>\<open>BigInt(s)\<close> of a string; \<open>None\<close> is its \<open>SyntaxError\<close>.\<close>

definition bigint_literal :: "string \<Rightarrow> int option" where
  "bigint_literal s = (let t = trim s in
     if t = [] then Some 0
     else case radix_literal t of Some n \<Rightarrow> Some n
     | None \<Rightarrow> (case signed_of t of (sg, ds) \<Rightarrow>
         if ds \<noteq> [] \<and> list_all is_digit ds then Some (sg * read_digits ds) else None))"

text \<open>
  \<open>Number(s)\<close> of a string; \<open>None\<close> is a result that is not finite. The value of a decimal
  literal is rounded to the nearest double.
\<close>

definition exponent_of :: "string \<Rightarrow> int option" where
  "exponent_of s = (case s of [] \<Rightarrow> Some 0 | _ # cs \<Rightarrow>
     (case signed_of cs of (sg, ds) \<Rightarrow>
        if ds \<noteq> [] \<and> list_all is_digit ds then Some (sg * read_digits ds) else None))"

definition unsigned_decimal :: "string \<Rightarrow> rat option" where
  "unsigned_decimal s =
     (let mant = takeWhile (\<lambda>c. c \<noteq> CHR ''e'' \<and> c \<noteq> CHR ''E'') s;
          expo = dropWhile (\<lambda>c. c \<noteq> CHR ''e'' \<and> c \<noteq> CHR ''E'') s;
          whole = takeWhile is_digit mant;
          rest = dropWhile is_digit mant;
          frac = tl rest
      in if (rest = [] \<or> hd rest = CHR ''.'') \<and> whole @ frac \<noteq> [] \<and> list_all is_digit frac
         then map_option (\<lambda>e. fl (of_int (read_digits (whole @ frac)) * 10 powi (e - int (length frac))))
                (exponent_of expo)
         else None)"

definition number_literal :: "string \<Rightarrow> rat option" where
  "number_literal s = (let t = trim s in
     if t = [] then Some 0
     else case radix_literal t of Some n \<Rightarrow> Some (fl (of_int n))
     | None \<Rightarrow> (case signed_of t of (sg, ds) \<Rightarrow> map_option (\<lambda>x. of_int sg * x) (unsigned_decimal ds)))"

section \<open>Conversions\<close>

text \<open>
  \<open>String(v)\<close>. \<open>None\<close> stands for the text of a number that is not a whole number below
  \<open>10 ^ 21\<close>: such a text holds a point, an exponent or a word, so no validator here accepts
  it as a whole number or as a name.
\<close>

fun js_string :: "json \<Rightarrow> string option" where
  "js_string JUndefined = Some ''undefined''"
| "js_string JNull = Some ''null''"
| "js_string (JBool b) = Some (if b then ''true'' else ''false'')"
| "js_string (JNum x) = (if of_int \<lfloor>x\<rfloor> = x \<and> \<bar>x\<bar> < 10 ^ 21 then Some (show_int \<lfloor>x\<rfloor>) else None)"
| "js_string JNotFinite = None"
| "js_string (JBig n) = Some (show_int n)"
| "js_string (JStr s) = Some s"
| "js_string (JArr []) = Some []"
| "js_string (JArr (v # vs)) =
     (case (if v = JUndefined \<or> v = JNull then Some [] else js_string v) of
        None \<Rightarrow> None
      | Some s \<Rightarrow> if vs = [] then Some s
          else (case js_string (JArr vs) of None \<Rightarrow> None | Some t \<Rightarrow> Some (s @ CHR '','' # t)))"
| "js_string (JObj _) = Some ''[object Object]''"

text \<open>\<open>Number(v)\<close>; an array is read through its text.\<close>

definition to_number :: "json \<Rightarrow> rat option" where
  "to_number v = (case v of
       JUndefined \<Rightarrow> None
     | JNull \<Rightarrow> Some 0
     | JBool b \<Rightarrow> Some (if b then 1 else 0)
     | JNum x \<Rightarrow> Some x
     | JNotFinite \<Rightarrow> None
     | JBig n \<Rightarrow> Some (of_int (to_num n))
     | JStr s \<Rightarrow> number_literal s
     | JArr vs \<Rightarrow> (case js_string v of None \<Rightarrow> None | Some s \<Rightarrow> number_literal s)
     | JObj _ \<Rightarrow> None)"

text \<open>\<open>BigInt\<close> of a string or a number, and of the text of anything else.\<close>

definition to_bigint :: "json \<Rightarrow> int option" where
  "to_bigint v = (case v of
       JStr s \<Rightarrow> bigint_literal s
     | JNum x \<Rightarrow> if of_int \<lfloor>x\<rfloor> = x then Some \<lfloor>x\<rfloor> else None
     | JNotFinite \<Rightarrow> None
     | _ \<Rightarrow> (case js_string v of None \<Rightarrow> None | Some s \<Rightarrow> bigint_literal s))"

section \<open>Objects\<close>

text \<open>\<open>o[k]\<close>.\<close>

definition field :: "(string \<times> json) list \<Rightarrow> string \<Rightarrow> json" where
  "field ob k = (case map_of ob k of Some v \<Rightarrow> v | None \<Rightarrow> JUndefined)"

text \<open>An object literal some of whose fields may be absent.\<close>

fun present_fields :: "(string \<times> json option) list \<Rightarrow> (string \<times> json) list" where
  "present_fields [] = []"
| "present_fields ((k, None) # kvs) = present_fields kvs"
| "present_fields ((k, Some v) # kvs) = (k, v) # present_fields kvs"

lemma map_of_present_fields_notin: "k \<notin> fst ` set kvs \<Longrightarrow> map_of (present_fields kvs) k = None"
  by (induction kvs rule: present_fields.induct) auto

lemma field_present:
  "distinct (map fst kvs) \<Longrightarrow>
     field (present_fields kvs) k = (case map_of kvs k of Some (Some v) \<Rightarrow> v | _ \<Rightarrow> JUndefined)"
proof (induction kvs rule: present_fields.induct)
  case (2 k' kvs)
  then show ?case using map_of_present_fields_notin [of k' kvs] by (auto simp: field_def)
qed (auto simp: field_def)

text \<open>The digits of a whole number read back.\<close>

lemma not_digit_letters [simp]:
  "\<not> is_digit (CHR ''x'')" "\<not> is_digit (CHR ''X'')" "\<not> is_digit (CHR ''o'')"
  "\<not> is_digit (CHR ''O'')" "\<not> is_digit (CHR ''b'')" "\<not> is_digit (CHR ''B'')"
  "\<not> is_digit (CHR ''-'')" "\<not> is_digit (CHR ''+'')"
  by (simp_all add: is_digit_def)

lemma digits_no_radix:
  assumes "list_all is_digit s"
  shows "radix_literal s = None"
proof (cases s)
  case (Cons c r)
  show ?thesis
  proof (cases r)
    case (Cons d ds)
    with assms \<open>s = c # r\<close> have "is_digit d" by simp
    then have "d \<noteq> CHR ''x''" "d \<noteq> CHR ''X''" "d \<noteq> CHR ''o''" "d \<noteq> CHR ''O''" "d \<noteq> CHR ''b''"
      "d \<noteq> CHR ''B''" using not_digit_letters by blast+
    then show ?thesis using Cons \<open>s = c # r\<close> by (simp add: radix_literal_def)
  qed (simp add: Cons radix_literal_def)
qed (simp add: radix_literal_def)

lemma digits_unsigned: "list_all is_digit s \<Longrightarrow> s \<noteq> [] \<Longrightarrow> signed_of s = (1, s)"
  using not_digit_letters by (cases s) (auto simp: signed_of_def)

lemma bigint_literal_show [simp]: "bigint_literal (show_nat n) = Some (int n)"
proof -
  let ?s = "show_nat n"
  have d: "list_all is_digit ?s" "?s \<noteq> []" by (simp_all add: show_nat_digits)
  then have "trim ?s = ?s" using digits_not_space trim_id by blast
  then show ?thesis using d by (simp add: bigint_literal_def digits_no_radix digits_unsigned)
qed

lemma to_bigint_show [simp]: "0 \<le> n \<Longrightarrow> to_bigint (JStr (show_int n)) = Some n"
  by (simp add: to_bigint_def show_int_def)

lemma to_number_of_int [simp]: "to_number (JNum x) = Some x"
  by (simp add: to_number_def)

end
