(* ===== verification/Engine.thy ===== *)
theory Engine
  imports Fixed
begin

text \<open>
  \<open>packages/sim/src/types.ts\<close> and \<open>packages/sim/src/engine.ts\<close>: a pool as the fill
  engine sees it, the quote of a buy and of a sell against it, and the pool a fill leaves
  behind. Reserves and amounts are bigints, fee rates and slots whole numbers; a price
  impact is the double the code converts its bigint to.
\<close>

section \<open>Pools and quotes\<close>

datatype pool_source = Pumpfun_curve | Pumpswap | Raydium

datatype side = Buy | Sell

record fee_schedule =
  protocolBps :: int
  creatorBps :: int
  lpBps :: int

definition totalFeeBps :: "fee_schedule \<Rightarrow> int" where
  "totalFeeBps f = protocolBps f + creatorBps f + lpBps f"

record pool_state =
  mint :: string
  solReserve :: int
  tokenReserve :: int
  deliverableTokens :: int
  tokenDecimals :: int
  fees :: fee_schedule
  source :: pool_source
  slot :: int

definition ENGINE_VERSION :: int where
  "ENGINE_VERSION = 1"

record quote =
  qside :: side
  solAmount :: int
  tokenAmount :: int
  feeLamports :: int
  priceImpactBps :: int
  partial :: bool
  engineVersion :: int

definition assertQuotable :: "pool_state \<Rightarrow> unit res" where
  "assertQuotable p = ensure (\<not> (solReserve p \<le> 0 \<or> tokenReserve p \<le> 0)) (Quote_error Empty_reserves)"

definition impactBps :: "int \<Rightarrow> int \<Rightarrow> int \<Rightarrow> int \<Rightarrow> int res" where
  "impactBps solAmt tokenAmt solRes tokenRes =
     (if tokenAmt = 0 \<or> solAmt = 0 then Inr 0
      else let numerator = solAmt * tokenRes;
               denominator = tokenAmt * solRes in
        if denominator = 0 then Inr 0
        else rbind (mulDivFloor numerator BPS_DENOMINATOR denominator) (\<lambda>ratioBps.
             let impact = ratioBps - BPS_DENOMINATOR
             in Inr (to_num (if impact < 0 then - impact else impact))))"

definition quoteBuy :: "pool_state \<Rightarrow> int \<Rightarrow> quote res" where
  "quoteBuy pool solIn =
     rbind (ensure (\<not> solIn \<le> 0) (Quote_error Non_positive_size)) (\<lambda>_.
     rbind (assertQuotable pool) (\<lambda>_.
     let feeBps = totalFeeBps (fees pool) in
     rbind (mulDivFloor (if solIn > 0 then solIn - 1 else 0) BPS_DENOMINATOR (BPS_DENOMINATOR + feeBps))
       (\<lambda>afterFee.
     rbind (ensure (\<not> afterFee \<le> 0) (Quote_error Dust)) (\<lambda>_.
     let feeLam = solIn - afterFee in
     rbind (mulDivFloor afterFee (tokenReserve pool) (solReserve pool + afterFee)) (\<lambda>uncapped.
     rbind (ensure (uncapped \<noteq> 0) (Quote_error Dust)) (\<lambda>_.
     rbind (ensure (deliverableTokens pool \<noteq> 0) (Quote_error No_liquidity)) (\<lambda>_.
     if uncapped \<le> deliverableTokens pool then
       rbind (impactBps afterFee uncapped (solReserve pool) (tokenReserve pool)) (\<lambda>impact.
       Inr \<lparr>qside = Buy, solAmount = solIn, tokenAmount = uncapped, feeLamports = feeLam,
            priceImpactBps = impact, partial = False, engineVersion = ENGINE_VERSION\<rparr>)
     else
       let tokenAmt = deliverableTokens pool in
       rbind (mulDivCeil tokenAmt (solReserve pool) (tokenReserve pool - tokenAmt)) (\<lambda>requiredAfterFee.
       rbind (mulDivCeil requiredAfterFee (BPS_DENOMINATOR + feeBps) BPS_DENOMINATOR) (\<lambda>gross.
       let requiredGross = gross + 1;
           spent = (if requiredGross > solIn then solIn else requiredGross);
           spentAfterFee = (if requiredAfterFee > afterFee then afterFee else requiredAfterFee) in
       rbind (impactBps spentAfterFee tokenAmt (solReserve pool) (tokenReserve pool)) (\<lambda>impact.
       Inr \<lparr>qside = Buy, solAmount = spent, tokenAmount = tokenAmt,
            feeLamports = spent - spentAfterFee, priceImpactBps = impact, partial = True,
            engineVersion = ENGINE_VERSION\<rparr>))))))))))"

definition quoteSell :: "pool_state \<Rightarrow> int \<Rightarrow> quote res" where
  "quoteSell pool tokensIn =
     rbind (ensure (\<not> tokensIn \<le> 0) (Quote_error Non_positive_size)) (\<lambda>_.
     rbind (assertQuotable pool) (\<lambda>_.
     rbind (mulDivFloor tokensIn (solReserve pool) (tokenReserve pool + tokensIn)) (\<lambda>grossSol.
     rbind (ensure (grossSol \<noteq> 0) (Quote_error Dust)) (\<lambda>_.
     let feeBps = totalFeeBps (fees pool) in
     rbind (mulDivCeil grossSol feeBps BPS_DENOMINATOR) (\<lambda>feeLam.
     let solOut = (if grossSol > feeLam then grossSol - feeLam else 0) in
     rbind (ensure (solOut \<noteq> 0) (Quote_error Dust)) (\<lambda>_.
     rbind (impactBps grossSol tokensIn (solReserve pool) (tokenReserve pool)) (\<lambda>impact.
     Inr \<lparr>qside = Sell, solAmount = solOut, tokenAmount = tokensIn, feeLamports = feeLam,
          priceImpactBps = impact, partial = False, engineVersion = ENGINE_VERSION\<rparr>)))))))"

definition applyQuote :: "pool_state \<Rightarrow> quote \<Rightarrow> pool_state" where
  "applyQuote pool q =
     (case qside q of
        Buy \<Rightarrow>
          let intoCurve = solAmount q - feeLamports q in
          pool\<lparr>solReserve := solReserve pool + intoCurve,
               tokenReserve := tokenReserve pool - tokenAmount q,
               deliverableTokens := deliverableTokens pool - tokenAmount q\<rparr>
      | Sell \<Rightarrow>
          let outOfCurve = solAmount q + feeLamports q in
          pool\<lparr>solReserve := (if solReserve pool > outOfCurve then solReserve pool - outOfCurve else 0),
               tokenReserve := tokenReserve pool + tokenAmount q,
               deliverableTokens := deliverableTokens pool + tokenAmount q\<rparr>)"

section \<open>What a quote is made of\<close>

definition wf_fees :: "fee_schedule \<Rightarrow> bool" where
  "wf_fees f \<longleftrightarrow> 0 \<le> protocolBps f \<and> 0 \<le> creatorBps f \<and> 0 \<le> lpBps f"

text \<open>A pool as the readers deliver it: no amount is negative, no fee pays the trader.\<close>

definition wf_pool :: "pool_state \<Rightarrow> bool" where
  "wf_pool p \<longleftrightarrow> 0 \<le> solReserve p \<and> 0 \<le> tokenReserve p \<and> 0 \<le> deliverableTokens p
     \<and> wf_fees (fees p)"

lemma wf_total_fee [simp]: "wf_fees f \<Longrightarrow> 0 \<le> totalFeeBps f"
  by (simp add: wf_fees_def totalFeeBps_def)

text \<open>The part of an offer that reaches the curve, and what the curve alone would give.\<close>

definition after_fee :: "pool_state \<Rightarrow> int \<Rightarrow> int" where
  "after_fee p x = (x - 1) * 10000 div (10000 + totalFeeBps (fees p))"

definition curve_out :: "pool_state \<Rightarrow> int \<Rightarrow> int" where
  "curve_out p a = a * tokenReserve p div (solReserve p + a)"

definition curve_in :: "pool_state \<Rightarrow> int \<Rightarrow> int" where
  "curve_in p t = ceil_div (t * solReserve p) (tokenReserve p - t)"

lemma after_fee_le: "wf_fees (fees p) \<Longrightarrow> 0 < x \<Longrightarrow> after_fee p x < x"
proof -
  assume f: "wf_fees (fees p)" and x: "0 < x"
  have "(x - 1) * 10000 \<le> (x - 1) * (10000 + totalFeeBps (fees p))"
    using f x by (intro mult_left_mono) simp_all
  also have "\<dots> < x * (10000 + totalFeeBps (fees p))"
    using f by (intro mult_strict_right_mono) (simp_all add: add_pos_nonneg)
  finally show ?thesis
    unfolding after_fee_def using f by (subst floor_lt_iff) (simp_all add: add_pos_nonneg)
qed

lemma curve_out_lt: "0 < solReserve p \<Longrightarrow> 0 < tokenReserve p \<Longrightarrow> 0 \<le> a \<Longrightarrow> curve_out p a < tokenReserve p"
  unfolding curve_out_def by (subst floor_lt_iff) (simp_all add: algebra_simps)

text \<open>
  The curve inverted: \<open>curve_in p t\<close> is the least input whose exact output is at least
  \<open>t\<close>, so an input that buys more than \<open>t\<close> pays at least \<open>curve_in p t\<close>.
\<close>

lemma curve_in_least:
  assumes "0 \<le> solReserve p" "0 < solReserve p + a" "t < tokenReserve p"
  shows "curve_in p t \<le> a \<longleftrightarrow> t \<le> curve_out p a"
proof -
  have "curve_in p t \<le> a \<longleftrightarrow> t * solReserve p \<le> a * (tokenReserve p - t)"
    unfolding curve_in_def using assms by (intro ceil_div_le_iff) simp
  also have "\<dots> \<longleftrightarrow> t * (solReserve p + a) \<le> a * tokenReserve p" by (simp add: algebra_simps)
  also have "\<dots> \<longleftrightarrow> t \<le> curve_out p a"
    unfolding curve_out_def using assms by (simp add: le_floor_iff)
  finally show ?thesis .
qed

text \<open>The impact of amounts that are all positive: no branch of it throws.\<close>

definition impact_of :: "int \<Rightarrow> int \<Rightarrow> int \<Rightarrow> int \<Rightarrow> int" where
  "impact_of s t S T = to_num \<bar>s * T * 10000 div (t * S) - 10000\<bar>"

lemma impactBps_pos:
  assumes "0 < s" "0 < t" "0 < S" "0 < T"
  shows "impactBps s t S T = Inr (impact_of s t S T)"
proof -
  have "0 \<le> s * T" "0 < t * S" using assms by simp_all
  moreover have "t * S \<noteq> 0" using \<open>0 < t * S\<close> by linarith
  ultimately show ?thesis
    using assms by (auto simp: impactBps_def impact_of_def BPS_DENOMINATOR_def Let_def abs_if)
qed

definition full_quote :: "pool_state \<Rightarrow> int \<Rightarrow> quote" where
  "full_quote p x =
     (let a = after_fee p x in
      \<lparr>qside = Buy, solAmount = x, tokenAmount = curve_out p a, feeLamports = x - a,
       priceImpactBps = impact_of a (curve_out p a) (solReserve p) (tokenReserve p),
       partial = False, engineVersion = ENGINE_VERSION\<rparr>)"

definition capped_quote :: "pool_state \<Rightarrow> int \<Rightarrow> quote" where
  "capped_quote p x =
     (let t = deliverableTokens p; a = curve_in p t;
          spent = min x (ceil_div (a * (10000 + totalFeeBps (fees p))) 10000 + 1) in
      \<lparr>qside = Buy, solAmount = spent, tokenAmount = t, feeLamports = spent - a,
       priceImpactBps = impact_of a t (solReserve p) (tokenReserve p),
       partial = True, engineVersion = ENGINE_VERSION\<rparr>)"

lemma curve_in_pos:
  assumes "0 < solReserve p" "0 < t" "t < tokenReserve p"
  shows "0 < curve_in p t"
proof -
  have "0 < t * solReserve p" using assms by simp
  also have "\<dots> \<le> curve_in p t * (tokenReserve p - t)"
    unfolding curve_in_def using assms by (intro le_ceil_div) simp
  finally show ?thesis using assms by (simp add: zero_less_mult_iff)
qed

lemma quoteBuy_eq:
  assumes wf: "wf_pool p"
  shows "quoteBuy p x =
    (let a = after_fee p x; u = curve_out p a in
     if x \<le> 0 then Inl (Quote_error Non_positive_size)
     else if solReserve p = 0 \<or> tokenReserve p = 0 then Inl (Quote_error Empty_reserves)
     else if a = 0 \<or> u = 0 then Inl (Quote_error Dust)
     else if deliverableTokens p = 0 then Inl (Quote_error No_liquidity)
     else if u \<le> deliverableTokens p then Inr (full_quote p x)
     else Inr (capped_quote p x))"
proof (cases "0 < x \<and> 0 < solReserve p \<and> 0 < tokenReserve p")
  case False
  then consider "x \<le> 0" | "0 < x" "solReserve p = 0 \<or> tokenReserve p = 0"
    using wf by (cases "x \<le> 0") (auto simp: wf_pool_def)
  then show ?thesis
  proof cases
    case 1
    then show ?thesis by (simp add: quoteBuy_def ensure_def)
  next
    case 2
    then have "assertQuotable p = Inl (Quote_error Empty_reserves)"
      by (auto simp: assertQuotable_def)
    with 2 show ?thesis by (simp add: quoteBuy_def)
  qed
next
  case pos: True
  define a where "a = after_fee p x"
  have f: "0 \<le> totalFeeBps (fees p)" using wf by (simp add: wf_pool_def)
  have a: "mulDivFloor (x - 1) 10000 (10000 + totalFeeBps (fees p)) = Inr a"
    using pos f by (simp add: a_def after_fee_def)
  have an: "0 \<le> a" unfolding a_def after_fee_def using pos f by (simp add: pos_imp_zdiv_nonneg_iff)
  have u: "mulDivFloor a (tokenReserve p) (solReserve p + a) = Inr (curve_out p a)"
    using an pos by (simp add: curve_out_def)
  have un: "0 \<le> curve_out p a"
    unfolding curve_out_def using an pos by (simp add: pos_imp_zdiv_nonneg_iff)
  note eval = quoteBuy_def assertQuotable_def BPS_DENOMINATOR_def Let_def
  consider "a = 0" | "0 < a" "curve_out p a = 0" | "0 < a" "0 < curve_out p a" "deliverableTokens p = 0"
    | "0 < a" "0 < curve_out p a" "0 < deliverableTokens p" "curve_out p a \<le> deliverableTokens p"
    | "0 < a" "0 < curve_out p a" "0 < deliverableTokens p" "deliverableTokens p < curve_out p a"
    using an un wf unfolding wf_pool_def by linarith
  then show ?thesis
  proof cases
    case 4
    have "impactBps a (curve_out p a) (solReserve p) (tokenReserve p)
        = Inr (impact_of a (curve_out p a) (solReserve p) (tokenReserve p))"
      using 4 pos by (intro impactBps_pos) simp_all
    with 4 a u pos show ?thesis by (simp add: eval full_quote_def flip: a_def)
  next
    case 5
    let ?t = "deliverableTokens p"
    have tT: "?t < tokenReserve p" using curve_out_lt [of p a] 5 pos by simp
    have c: "mulDivCeil ?t (solReserve p) (tokenReserve p - ?t) = Inr (curve_in p ?t)"
      using 5 tT pos by (simp add: curve_in_def)
    have cp: "0 < curve_in p ?t" using curve_in_pos pos 5 tT by simp
    then have i: "impactBps (curve_in p ?t) ?t (solReserve p) (tokenReserve p)
        = Inr (impact_of (curve_in p ?t) ?t (solReserve p) (tokenReserve p))"
      using 5 pos by (intro impactBps_pos) simp_all
    have le: "curve_in p ?t \<le> a" using 5 pos tT by (subst curve_in_least) simp_all
    have m: "mulDivCeil (curve_in p ?t) (10000 + totalFeeBps (fees p)) 10000
        = Inr (ceil_div (curve_in p ?t * (10000 + totalFeeBps (fees p))) 10000)"
      using cp f by simp
    with 5 a u pos c i m le show ?thesis
      by (simp add: eval capped_quote_def min_def flip: a_def)
  qed (use a u pos in \<open>simp_all add: eval flip: a_def\<close>)
qed

definition full_sell :: "pool_state \<Rightarrow> int \<Rightarrow> quote" where
  "full_sell p t =
     (let g = t * solReserve p div (tokenReserve p + t);
          fee = ceil_div (g * totalFeeBps (fees p)) 10000 in
      \<lparr>qside = Sell, solAmount = g - fee, tokenAmount = t, feeLamports = fee,
       priceImpactBps = impact_of g t (solReserve p) (tokenReserve p),
       partial = False, engineVersion = ENGINE_VERSION\<rparr>)"

definition sell_gross :: "pool_state \<Rightarrow> int \<Rightarrow> int" where
  "sell_gross p t = t * solReserve p div (tokenReserve p + t)"

lemma quoteSell_eq:
  assumes wf: "wf_pool p"
  shows "quoteSell p t =
    (let g = sell_gross p t in
     if t \<le> 0 then Inl (Quote_error Non_positive_size)
     else if solReserve p = 0 \<or> tokenReserve p = 0 then Inl (Quote_error Empty_reserves)
     else if g = 0 \<or> g \<le> ceil_div (g * totalFeeBps (fees p)) 10000 then Inl (Quote_error Dust)
     else Inr (full_sell p t))"
proof (cases "0 < t \<and> 0 < solReserve p \<and> 0 < tokenReserve p")
  case False
  then consider "t \<le> 0" | "0 < t" "solReserve p = 0 \<or> tokenReserve p = 0"
    using wf by (cases "t \<le> 0") (auto simp: wf_pool_def)
  then show ?thesis
  proof cases
    case 1
    then show ?thesis by (simp add: quoteSell_def ensure_def)
  next
    case 2
    then have "assertQuotable p = Inl (Quote_error Empty_reserves)"
      by (auto simp: assertQuotable_def)
    with 2 show ?thesis by (simp add: quoteSell_def)
  qed
next
  case pos: True
  have f: "0 \<le> totalFeeBps (fees p)" using wf by (simp add: wf_pool_def)
  have g: "mulDivFloor t (solReserve p) (tokenReserve p + t) = Inr (sell_gross p t)"
    using pos by (simp add: sell_gross_def)
  have gn: "0 \<le> sell_gross p t"
    unfolding sell_gross_def using pos by (simp add: pos_imp_zdiv_nonneg_iff)
  note eval = quoteSell_def assertQuotable_def BPS_DENOMINATOR_def Let_def
  consider "sell_gross p t = 0"
    | "0 < sell_gross p t" "sell_gross p t \<le> ceil_div (sell_gross p t * totalFeeBps (fees p)) 10000"
    | "0 < sell_gross p t" "ceil_div (sell_gross p t * totalFeeBps (fees p)) 10000 < sell_gross p t"
    using gn by linarith
  then show ?thesis
  proof cases
    case 3
    have "impactBps (sell_gross p t) t (solReserve p) (tokenReserve p)
        = Inr (impact_of (sell_gross p t) t (solReserve p) (tokenReserve p))"
      using 3 pos by (intro impactBps_pos) simp_all
    with 3 f g pos show ?thesis by (simp add: eval full_sell_def flip: sell_gross_def)
  qed (use f g pos in \<open>simp_all add: eval\<close>)
qed

section \<open>The contract of the engine\<close>

lemma full_quote_simps [simp]:
  "qside (full_quote p x) = Buy" "solAmount (full_quote p x) = x"
  "tokenAmount (full_quote p x) = curve_out p (after_fee p x)"
  "feeLamports (full_quote p x) = x - after_fee p x" "\<not> partial (full_quote p x)"
  "engineVersion (full_quote p x) = ENGINE_VERSION"
  "priceImpactBps (full_quote p x)
    = impact_of (after_fee p x) (curve_out p (after_fee p x)) (solReserve p) (tokenReserve p)"
  by (simp_all add: full_quote_def Let_def)

lemma capped_quote_simps [simp]:
  "qside (capped_quote p x) = Buy" "tokenAmount (capped_quote p x) = deliverableTokens p"
  "feeLamports (capped_quote p x) = solAmount (capped_quote p x) - curve_in p (deliverableTokens p)"
  "partial (capped_quote p x)" "engineVersion (capped_quote p x) = ENGINE_VERSION"
  by (simp_all add: capped_quote_def Let_def)

lemma full_sell_simps [simp]:
  "qside (full_sell p t) = Sell" "tokenAmount (full_sell p t) = t" "\<not> partial (full_sell p t)"
  "feeLamports (full_sell p t) = ceil_div (sell_gross p t * totalFeeBps (fees p)) 10000"
  "solAmount (full_sell p t)
    = sell_gross p t - ceil_div (sell_gross p t * totalFeeBps (fees p)) 10000"
  "engineVersion (full_sell p t) = ENGINE_VERSION"
  "priceImpactBps (full_sell p t) = impact_of (sell_gross p t) t (solReserve p) (tokenReserve p)"
  by (simp_all add: full_sell_def sell_gross_def Let_def)

lemma after_fee_nonneg: "wf_pool p \<Longrightarrow> 0 < x \<Longrightarrow> 0 \<le> after_fee p x"
  unfolding after_fee_def by (simp add: pos_imp_zdiv_nonneg_iff wf_pool_def add_pos_nonneg)

lemma after_fee_less: "wf_pool p \<Longrightarrow> 0 < x \<Longrightarrow> after_fee p x < x"
  by (intro after_fee_le) (simp_all add: wf_pool_def)

lemma curve_out_nonneg: "0 \<le> solReserve p \<Longrightarrow> 0 \<le> tokenReserve p \<Longrightarrow> 0 < a \<Longrightarrow> 0 \<le> curve_out p a"
  unfolding curve_out_def by (simp add: pos_imp_zdiv_nonneg_iff add_nonneg_pos)

lemma sell_gross_nonneg: "0 \<le> solReserve p \<Longrightarrow> 0 \<le> tokenReserve p \<Longrightarrow> 0 < t \<Longrightarrow> 0 \<le> sell_gross p t"
  unfolding sell_gross_def by (simp add: pos_imp_zdiv_nonneg_iff add_nonneg_pos)

text \<open>
  What a capped fill costs: at least what the curve asks for the tokens, and never more
  than was offered.
\<close>

lemma capped_bounds:
  assumes wf: "wf_pool p" and S: "0 < solReserve p" and T: "0 < tokenReserve p" and x: "0 < x"
    and d: "0 < deliverableTokens p" and cap: "deliverableTokens p < curve_out p (after_fee p x)"
  shows "deliverableTokens p < tokenReserve p"
    and "0 < curve_in p (deliverableTokens p)"
    and "curve_in p (deliverableTokens p) \<le> after_fee p x"
    and "curve_in p (deliverableTokens p) < solAmount (capped_quote p x)"
    and "solAmount (capped_quote p x) \<le> x"
proof -
  let ?t = "deliverableTokens p" and ?f = "totalFeeBps (fees p)"
  define c where "c = ceil_div (curve_in p ?t * (10000 + ?f)) 10000"
  have f: "0 \<le> ?f" using wf by (simp add: wf_pool_def)
  have an: "0 \<le> after_fee p x" using wf x by (rule after_fee_nonneg)
  show tT: "?t < tokenReserve p" using curve_out_lt [OF S T an] cap by simp
  show pos: "0 < curve_in p ?t" using S d tT by (rule curve_in_pos)
  show le: "curve_in p ?t \<le> after_fee p x" using S an tT cap by (subst curve_in_least) simp_all
  have "curve_in p ?t * 10000 \<le> curve_in p ?t * (10000 + ?f)"
    using pos f by (intro mult_left_mono) simp_all
  also have "\<dots> \<le> c * 10000" unfolding c_def by (rule le_ceil_div) simp
  finally have "curve_in p ?t \<le> c" by simp
  moreover have "solAmount (capped_quote p x) = min x (c + 1)"
    by (simp add: capped_quote_def Let_def c_def)
  ultimately show "curve_in p ?t < solAmount (capped_quote p x)" "solAmount (capped_quote p x) \<le> x"
    using le after_fee_less [OF wf x] by simp_all
qed

lemma quoteBuy_InrE:
  assumes "quoteBuy p x = Inr q" and wf: "wf_pool p"
  obtains (full) "0 < x" "0 < solReserve p" "0 < tokenReserve p" "0 < after_fee p x"
      "0 < curve_out p (after_fee p x)" "curve_out p (after_fee p x) \<le> deliverableTokens p"
      "q = full_quote p x"
  | (capped) "0 < x" "0 < solReserve p" "0 < tokenReserve p" "0 < deliverableTokens p"
      "deliverableTokens p < curve_out p (after_fee p x)" "q = capped_quote p x"
proof -
  note eq = assms(1) [unfolded quoteBuy_eq [OF wf] Let_def]
  have x: "0 < x" using eq by (cases "x \<le> 0") simp_all
  have r: "\<not> (solReserve p = 0 \<or> tokenReserve p = 0)" using eq x by (intro notI) simp
  then have S: "0 < solReserve p" "0 < tokenReserve p" using wf by (simp_all add: wf_pool_def)
  have d: "\<not> (after_fee p x = 0 \<or> curve_out p (after_fee p x) = 0)" using eq x r by (intro notI) simp
  then have a: "0 < after_fee p x" using after_fee_nonneg [OF wf x] by simp
  then have u: "0 < curve_out p (after_fee p x)" using curve_out_nonneg [of p "after_fee p x"] S d by simp
  have D: "deliverableTokens p \<noteq> 0" using eq x r d by (intro notI) simp
  then have D': "0 < deliverableTokens p" using wf by (simp add: wf_pool_def)
  show thesis
  proof (cases "curve_out p (after_fee p x) \<le> deliverableTokens p")
    case True
    then have "q = full_quote p x" using eq x r d D by simp
    with x S a u True show thesis by (rule full)
  next
    case False
    then have "q = capped_quote p x" using eq x r d D by simp
    with x S D' False show thesis by (intro capped) simp_all
  qed
qed

lemma quoteSell_InrE:
  assumes "quoteSell p t = Inr q" and wf: "wf_pool p"
  obtains "0 < t" "0 < solReserve p" "0 < tokenReserve p" "0 < sell_gross p t"
      "ceil_div (sell_gross p t * totalFeeBps (fees p)) 10000 < sell_gross p t" "q = full_sell p t"
proof -
  note eq = assms(1) [unfolded quoteSell_eq [OF wf] Let_def]
  have t: "0 < t" using eq by (cases "t \<le> 0") simp_all
  have r: "\<not> (solReserve p = 0 \<or> tokenReserve p = 0)" using eq t by (intro notI) simp
  then have S: "0 < solReserve p" "0 < tokenReserve p" using wf by (simp_all add: wf_pool_def)
  have g: "\<not> (sell_gross p t = 0 \<or> sell_gross p t \<le> ceil_div (sell_gross p t * totalFeeBps (fees p)) 10000)"
    using eq t r by (intro notI) simp
  then have "0 < sell_gross p t" using sell_gross_nonneg [of p t] S t by simp
  then show thesis using that eq t r S g by simp
qed

text \<open>
  The contract in one place: what a caller may rely on of a quote it received for \<open>x\<close>
  lamports offered, or for \<open>t\<close> tokens handed over.
\<close>

definition buy_contract :: "pool_state \<Rightarrow> int \<Rightarrow> quote \<Rightarrow> bool" where
  "buy_contract p x q \<longleftrightarrow> qside q = Buy \<and> 0 < tokenAmount q \<and> tokenAmount q \<le> deliverableTokens p
     \<and> tokenAmount q < tokenReserve p \<and> solAmount q \<le> x \<and> 0 < feeLamports q
     \<and> feeLamports q < solAmount q \<and> engineVersion q = ENGINE_VERSION"

definition sell_contract :: "pool_state \<Rightarrow> int \<Rightarrow> quote \<Rightarrow> bool" where
  "sell_contract p t q \<longleftrightarrow> qside q = Sell \<and> tokenAmount q = t \<and> 0 < t \<and> 0 < solAmount q
     \<and> 0 \<le> feeLamports q \<and> solAmount q + feeLamports q = sell_gross p t
     \<and> sell_gross p t < solReserve p \<and> \<not> partial q \<and> engineVersion q = ENGINE_VERSION"

lemma quoteBuy_contract:
  assumes "quoteBuy p x = Inr q" and wf: "wf_pool p"
  shows "buy_contract p x q"
  using assms
proof (cases rule: quoteBuy_InrE)
  case full
  have "curve_out p (after_fee p x) < tokenReserve p" using full by (intro curve_out_lt) simp_all
  with full after_fee_less [OF wf, of x] show ?thesis by (simp add: buy_contract_def)
next
  case capped
  with capped_bounds [OF wf capped(2,3,1,4,5)] show ?thesis by (simp add: buy_contract_def)
qed

lemma quoteSell_contract:
  assumes "quoteSell p t = Inr q" and wf: "wf_pool p"
  shows "sell_contract p t q"
  using assms
proof (cases rule: quoteSell_InrE)
  case 1
  have "0 \<le> ceil_div (sell_gross p t * totalFeeBps (fees p)) 10000"
    using 1 wf by (intro ceil_div_nonneg) (simp_all add: wf_pool_def)
  moreover have "sell_gross p t < solReserve p"
    unfolding sell_gross_def using 1 by (subst floor_lt_iff) (simp_all add: algebra_simps)
  ultimately show ?thesis using 1 by (simp add: sell_contract_def)
qed

text \<open>A fill never lets the product of the reserves fall.\<close>

lemma buy_product:
  assumes "quoteBuy p x = Inr q" and wf: "wf_pool p"
  shows "solReserve p * tokenReserve p
    \<le> (solReserve p + (solAmount q - feeLamports q)) * (tokenReserve p - tokenAmount q)"
  using assms
proof (cases rule: quoteBuy_InrE)
  case full
  let ?a = "after_fee p x"
  have "curve_out p ?a * (solReserve p + ?a) \<le> ?a * tokenReserve p"
    unfolding curve_out_def using full by (intro floor_mult_le) simp
  then show ?thesis using full by (simp add: algebra_simps)
next
  case capped
  let ?t = "deliverableTokens p"
  have "?t * solReserve p \<le> curve_in p ?t * (tokenReserve p - ?t)"
    unfolding curve_in_def using capped_bounds(1) [OF wf capped(2,3,1,4,5)] by (intro le_ceil_div) simp
  then show ?thesis using capped by (simp add: algebra_simps)
qed

lemma sell_product:
  assumes "quoteSell p t = Inr q" and wf: "wf_pool p"
  shows "solReserve p * tokenReserve p
    \<le> (solReserve p - (solAmount q + feeLamports q)) * (tokenReserve p + tokenAmount q)"
proof -
  note c = quoteSell_contract [OF assms, unfolded sell_contract_def]
  have "0 < tokenReserve p + t" using c wf by (simp add: wf_pool_def add_nonneg_pos)
  then have "sell_gross p t * (tokenReserve p + t) \<le> t * solReserve p"
    unfolding sell_gross_def by (rule floor_mult_le)
  then show ?thesis using c by (simp add: algebra_simps)
qed

lemma applyQuote_buy:
  "qside q = Buy \<Longrightarrow> applyQuote p q = p\<lparr>solReserve := solReserve p + (solAmount q - feeLamports q),
     tokenReserve := tokenReserve p - tokenAmount q,
     deliverableTokens := deliverableTokens p - tokenAmount q\<rparr>"
  by (simp add: applyQuote_def)

lemma applyQuote_sell:
  "sell_contract p t q \<Longrightarrow> applyQuote p q = p\<lparr>solReserve := solReserve p - sell_gross p t,
     tokenReserve := tokenReserve p + t, deliverableTokens := deliverableTokens p + t\<rparr>"
  by (simp add: applyQuote_def sell_contract_def)

text \<open>What one fill leaves behind, for either side.\<close>

lemma applyQuote_wf:
  assumes wf: "wf_pool p" and q: "quoteBuy p x = Inr q \<or> quoteSell p x = Inr q"
  shows "wf_pool (applyQuote p q) \<and> 0 < solReserve (applyQuote p q) \<and> 0 < tokenReserve (applyQuote p q)
    \<and> solReserve p * tokenReserve p \<le> solReserve (applyQuote p q) * tokenReserve (applyQuote p q)"
  using q
proof
  assume b: "quoteBuy p x = Inr q"
  note c = quoteBuy_contract [OF b wf, unfolded buy_contract_def]
  show ?thesis using c buy_product [OF b wf] wf by (simp add: applyQuote_buy wf_pool_def)
next
  assume s: "quoteSell p x = Inr q"
  note k = quoteSell_contract [OF s wf]
  note c = k [unfolded sell_contract_def]
  show ?thesis using c sell_product [OF s wf] wf by (simp add: applyQuote_sell [OF k] wf_pool_def)
qed

section \<open>Properties\<close>

text \<open>
  C10: a fill never drains the pool. Whatever a buy or a sell quoted on a well-formed pool,
  the pool it leaves behind is well-formed again, has both reserves positive, and the
  product of its reserves is at least what it was: rounding and fees favour the pool.
\<close>

theorem fill_keeps_product:
  assumes wf: "wf_pool p" and q: "quoteBuy p x = Inr q \<or> quoteSell p x = Inr q"
  shows "wf_pool (applyQuote p q) \<and> 0 < solReserve (applyQuote p q) \<and> 0 < tokenReserve (applyQuote p q)
    \<and> solReserve p * tokenReserve p \<le> solReserve (applyQuote p q) * tokenReserve (applyQuote p q)"
  by (rule applyQuote_wf [OF assms])

text \<open>A bonding curve as it stands at launch, for the witnesses.\<close>

definition launch_pool :: pool_state where
  "launch_pool = \<lparr>mint = ''mint'', solReserve = 30000000000, tokenReserve = 1073000000000000,
     deliverableTokens = 793100000000000, tokenDecimals = 6,
     fees = \<lparr>protocolBps = 95, creatorBps = 30, lpBps = 0\<rparr>, source = Pumpfun_curve, slot = 0\<rparr>"

lemma wf_launch_pool: "wf_pool launch_pool"
  by (simp add: wf_pool_def wf_fees_def launch_pool_def)

lemma launch_sell: "quoteSell launch_pool 1000000000000 = Inr (full_sell launch_pool 1000000000000)"
  by (simp add: quoteSell_eq [OF wf_launch_pool])
    (simp add: launch_pool_def sell_gross_def totalFeeBps_def ceil_div_def)

lemma launch_buy: "quoteBuy launch_pool 1000000000 = Inr (full_quote launch_pool 1000000000)"
  by (simp add: quoteBuy_eq [OF wf_launch_pool])
    (simp add: launch_pool_def after_fee_def curve_out_def totalFeeBps_def)

theorem fill_keeps_product_witness:
  "solReserve launch_pool * tokenReserve launch_pool
    \<le> solReserve (applyQuote launch_pool (full_quote launch_pool 1000000000))
      * tokenReserve (applyQuote launch_pool (full_quote launch_pool 1000000000))"
  using fill_keeps_product [OF wf_launch_pool, of 1000000000 "full_quote launch_pool 1000000000"]
  by (simp add: launch_buy)

text \<open>
  C19: buying and selling straight back never makes money. If the tokens of a buy are sold
  into the very pool that buy left behind, the SOL received is strictly less than the SOL
  spent, whatever the size, the fees and the rounding.
\<close>

theorem round_trip_loses:
  assumes wf: "wf_pool p" and b: "quoteBuy p x = Inr q"
    and s: "quoteSell (applyQuote p q) (tokenAmount q) = Inr q'"
  shows "solAmount q' < solAmount q"
proof -
  let ?p' = "applyQuote p q" and ?a = "solAmount q - feeLamports q"
  note c = quoteBuy_contract [OF b wf, unfolded buy_contract_def]
  have wf': "wf_pool ?p'" using applyQuote_wf [OF wf] b by blast
  note c' = quoteSell_contract [OF s wf', unfolded sell_contract_def]
  have k: "solReserve p * tokenReserve p \<le> (solReserve p + ?a) * (tokenReserve p - tokenAmount q)"
    by (rule buy_product [OF b wf])
  have "sell_gross ?p' (tokenAmount q) \<le> ?a"
  proof -
    have "tokenAmount q * (solReserve p + ?a) \<le> ?a * tokenReserve p"
      using k by (simp add: algebra_simps)
    then have "tokenAmount q * (solReserve p + ?a) div tokenReserve p \<le> ?a * tokenReserve p div tokenReserve p"
      using c by (intro zdiv_mono1) simp_all
    then show ?thesis using c by (simp add: sell_gross_def applyQuote_buy)
  qed
  then show ?thesis using c c' by linarith
qed

theorem round_trip_loses_witness:
  "solAmount (full_sell (applyQuote launch_pool (full_quote launch_pool 1000000000))
      (tokenAmount (full_quote launch_pool 1000000000))) < 1000000000"
proof -
  let ?q = "full_quote launch_pool 1000000000"
  have wf: "wf_pool (applyQuote launch_pool ?q)"
    by (simp add: applyQuote_buy wf_pool_def launch_pool_def wf_fees_def after_fee_def
        curve_out_def totalFeeBps_def)
  have "quoteSell (applyQuote launch_pool ?q) (tokenAmount ?q)
      = Inr (full_sell (applyQuote launch_pool ?q) (tokenAmount ?q))"
    by (simp add: quoteSell_eq [OF wf])
      (simp add: applyQuote_buy launch_pool_def sell_gross_def totalFeeBps_def ceil_div_def
        after_fee_def curve_out_def)
  then show ?thesis using round_trip_loses [OF wf_launch_pool launch_buy] by simp
qed

text \<open>A position sold in parts, each part into the pool the part before it left behind.\<close>

fun sell_run :: "pool_state \<Rightarrow> int list \<Rightarrow> (int \<times> pool_state) res" where
  "sell_run p [] = Inr (0, p)"
| "sell_run p (t # ts) =
     rbind (quoteSell p t) (\<lambda>q.
     rbind (sell_run (applyQuote p q) ts) (\<lambda>(s, p'). Inr (solAmount q + s, p')))"

definition sell_run_inv :: "pool_state \<Rightarrow> int list \<Rightarrow> int \<Rightarrow> pool_state \<Rightarrow> bool" where
  "sell_run_inv p ts s p' \<longleftrightarrow> fees p' = fees p \<and> tokenReserve p' = tokenReserve p + sum_list ts
     \<and> solReserve p * tokenReserve p \<le> solReserve p' * tokenReserve p'
     \<and> 0 \<le> sum_list ts
     \<and> s \<le> (solReserve p - solReserve p')
           - ceil_div ((solReserve p - solReserve p') * totalFeeBps (fees p)) 10000
     \<and> (ts \<noteq> [] \<longrightarrow> 0 < s \<and> 0 < sum_list ts \<and> 0 < solReserve p \<and> 0 < tokenReserve p
           \<and> totalFeeBps (fees p) < 10000)"

lemma sell_run_inv:
  "wf_pool p \<Longrightarrow> sell_run p ts = Inr (s, p') \<Longrightarrow> sell_run_inv p ts s p'"
proof (induction ts arbitrary: p s)
  case Nil
  then show ?case by (simp add: sell_run_inv_def ceil_div_def)
next
  case (Cons t ts)
  from Cons.prems obtain q s0 where q: "quoteSell p t = Inr q"
    and r: "sell_run (applyQuote p q) ts = Inr (s0, p')" and s: "s = solAmount q + s0"
    by auto
  let ?p = "applyQuote p q" and ?f = "totalFeeBps (fees p)" and ?g = "sell_gross p t"
  note k = quoteSell_contract [OF q Cons.prems(1)]
  note c = k [unfolded sell_contract_def]
  have p: "solReserve ?p = solReserve p - ?g" "tokenReserve ?p = tokenReserve p + t" "fees ?p = fees p"
    by (simp_all add: applyQuote_sell [OF k])
  have wf: "wf_pool ?p" using applyQuote_wf [OF Cons.prems(1)] q by blast
  note ih = Cons.IH [OF wf r, unfolded sell_run_inv_def p]
  have prod: "solReserve p * tokenReserve p \<le> (solReserve p - ?g) * (tokenReserve p + t)"
    using sell_product [OF q Cons.prems(1)] c by simp
  have "q = full_sell p t" "0 < solReserve p" "0 < tokenReserve p" and g: "ceil_div (?g * ?f) 10000 < ?g"
    using q Cons.prems(1) by (auto elim: quoteSell_InrE)
  then have net: "solAmount q = ?g - ceil_div (?g * ?f) 10000" by simp
  have "?g * ?f < ?g * 10000" using le_ceil_div [of 10000 "?g * ?f"] g by linarith
  then have f: "?f < 10000"
    using c by (metis add_pos_nonneg mult_less_cancel_left_pos)
  have add: "ceil_div (?g * ?f + (solReserve p - ?g - solReserve p') * ?f) 10000
      \<le> ceil_div (?g * ?f) 10000 + ceil_div ((solReserve p - ?g - solReserve p') * ?f) 10000"
    by (rule ceil_div_add) simp
  have eq: "?g * ?f + (solReserve p - ?g - solReserve p') * ?f = (solReserve p - solReserve p') * ?f"
    by (simp add: algebra_simps)
  have s0: "0 \<le> s0" using ih r by (cases "ts = []") auto
  have "(solReserve p - ?g) * (tokenReserve p + t) \<le> solReserve p' * tokenReserve p'"
    using ih by blast
  with prod have prod: "solReserve p * tokenReserve p \<le> solReserve p' * tokenReserve p'" by linarith
  have len: "s \<le> (solReserve p - solReserve p') - ceil_div ((solReserve p - solReserve p') * ?f) 10000"
    using ih s net add unfolding eq by linarith
  have "0 \<le> sum_list ts" "tokenReserve p' = tokenReserve p + t + sum_list ts" using ih by blast+
  then show ?case
    using ih prod s len f c s0 \<open>0 < solReserve p\<close> \<open>0 < tokenReserve p\<close>
    unfolding sell_run_inv_def by simp
qed

text \<open>
  splitting an order is worth nothing. Any sequence of sells placed one after the other
  into the same pool brings in no more SOL, fees included, than one sell of their total,
  and that single sell is never refused when the parts were not.
\<close>

theorem splitting_a_sell_never_pays:
  assumes wf: "wf_pool p" and r: "sell_run p ts = Inr (s, p')" and ne: "ts \<noteq> []"
  shows "\<exists>q. quoteSell p (sum_list ts) = Inr q \<and> s \<le> solAmount q"
proof -
  note i = sell_run_inv [OF wf r, unfolded sell_run_inv_def]
  let ?t = "sum_list ts" and ?f = "totalFeeBps (fees p)" and ?G = "solReserve p - solReserve p'"
  have "solReserve p * tokenReserve p \<le> solReserve p' * (tokenReserve p + ?t)" using i by metis
  then have "?G * (tokenReserve p + ?t) \<le> ?t * solReserve p" by (simp add: algebra_simps)
  then have G: "?G \<le> sell_gross p ?t"
    unfolding sell_gross_def using i ne by (subst le_floor_iff) simp_all
  have net: "?G - ceil_div (?G * ?f) 10000 \<le> sell_gross p ?t - ceil_div (sell_gross p ?t * ?f) 10000"
    using G i ne by (intro net_mono) simp_all
  then have pos: "ceil_div (sell_gross p ?t * ?f) 10000 < sell_gross p ?t" using i ne by simp
  then have "sell_gross p ?t \<noteq> 0" by (auto simp: ceil_div_def)
  with pos i ne have "quoteSell p ?t = Inr (full_sell p ?t)" by (simp add: quoteSell_eq [OF wf])
  with net i show ?thesis by simp
qed

theorem splitting_a_sell_never_pays_witness:
  "\<exists>s p' q. sell_run launch_pool [1000000000000, 2000000000000] = Inr (s, p')
    \<and> quoteSell launch_pool 3000000000000 = Inr q \<and> s \<le> solAmount q"
proof -
  define p2 where "p2 = launch_pool\<lparr>solReserve := 29972067040, tokenReserve := 1074000000000000,
      deliverableTokens := 794100000000000\<rparr>"
  have k: "sell_contract launch_pool 1000000000000 (full_sell launch_pool 1000000000000)"
    by (rule quoteSell_contract [OF launch_sell wf_launch_pool])
  have p: "applyQuote launch_pool (full_sell launch_pool 1000000000000) = p2"
    by (subst applyQuote_sell [OF k]) (simp add: p2_def launch_pool_def sell_gross_def)
  have wf: "wf_pool p2" by (simp add: p2_def wf_pool_def wf_fees_def launch_pool_def)
  have "quoteSell p2 2000000000000 = Inr (full_sell p2 2000000000000)"
    by (simp add: quoteSell_eq [OF wf])
      (simp add: p2_def launch_pool_def sell_gross_def totalFeeBps_def ceil_div_def)
  then obtain s p' where r: "sell_run launch_pool [1000000000000, 2000000000000] = Inr (s, p')"
    by (simp add: launch_sell p)
  from splitting_a_sell_never_pays [OF wf_launch_pool r] r show ?thesis by auto
qed

text \<open>
  a buy the venue cannot fill in full is priced exactly. The capped fill hands over all
  the tokens the venue has, charges never more than was offered, and the part that reaches
  the curve is the least input that buys that many tokens on it: one lamport less would buy
  fewer.
\<close>

theorem capped_fill_is_exact:
  assumes wf: "wf_pool p" and q: "quoteBuy p x = Inr q" and part: "partial q"
  shows "tokenAmount q = deliverableTokens p \<and> solAmount q \<le> x
    \<and> tokenAmount q \<le> curve_out p (solAmount q - feeLamports q)
    \<and> (\<forall>a. 0 \<le> a \<longrightarrow> a < solAmount q - feeLamports q \<longrightarrow> curve_out p a < tokenAmount q)"
  using q wf
proof (cases rule: quoteBuy_InrE)
  case full
  with part show ?thesis by simp
next
  case capped
  note b = capped_bounds [OF wf capped(2,3,1,4,5)]
  have least: "0 \<le> a \<Longrightarrow> curve_in p (deliverableTokens p) \<le> a \<longleftrightarrow> deliverableTokens p \<le> curve_out p a" for a
    using capped b(1) by (intro curve_in_least) simp_all
  have "curve_out p a < deliverableTokens p" if "0 \<le> a" "a < curve_in p (deliverableTokens p)" for a
    using least [OF that(1)] that(2) by linarith
  moreover have "deliverableTokens p \<le> curve_out p (curve_in p (deliverableTokens p))"
    using least [of "curve_in p (deliverableTokens p)"] b(2) by simp
  ultimately show ?thesis using capped b by simp
qed

lemma launch_cap: "quoteBuy launch_pool 200000000000 = Inr (capped_quote launch_pool 200000000000)"
  by (simp add: quoteBuy_eq [OF wf_launch_pool])
    (simp add: launch_pool_def after_fee_def curve_out_def totalFeeBps_def)

theorem capped_fill_is_exact_witness:
  "tokenAmount (capped_quote launch_pool 200000000000) = 793100000000000
    \<and> solAmount (capped_quote launch_pool 200000000000) \<le> 200000000000"
  using capped_fill_is_exact [OF wf_launch_pool launch_cap] by (simp add: launch_pool_def)

text \<open>
  on a well-formed pool every refusal of a buy is one of the four codes of the engine,
  each in exactly the situation it names, and a buy in none of those situations is filled.
  No internal arithmetic error can escape.
\<close>

theorem quoteBuy_refusals:
  assumes wf: "wf_pool p"
  shows "(quoteBuy p x = Inl e \<longleftrightarrow>
      (x \<le> 0 \<and> e = Quote_error Non_positive_size)
    \<or> (0 < x \<and> (solReserve p = 0 \<or> tokenReserve p = 0) \<and> e = Quote_error Empty_reserves)
    \<or> (0 < x \<and> solReserve p \<noteq> 0 \<and> tokenReserve p \<noteq> 0
        \<and> (after_fee p x = 0 \<or> curve_out p (after_fee p x) = 0) \<and> e = Quote_error Dust)
    \<or> (0 < x \<and> solReserve p \<noteq> 0 \<and> tokenReserve p \<noteq> 0
        \<and> after_fee p x \<noteq> 0 \<and> curve_out p (after_fee p x) \<noteq> 0
        \<and> deliverableTokens p = 0 \<and> e = Quote_error No_liquidity))"
  unfolding quoteBuy_eq [OF wf] Let_def by (simp split: if_split) blast

theorem quoteBuy_refusals_witness: "quoteBuy launch_pool 1 = Inl (Quote_error Dust)"
  using quoteBuy_refusals [OF wf_launch_pool, of 1 "Quote_error Dust"]
  by (simp add: launch_pool_def after_fee_def totalFeeBps_def)

end
