(* ===== verification/Execution.thy ===== *)
theory Execution
  imports Engine
begin

text \<open>
  \<open>packages/sim/src/execution.ts\<close>: what a click would really have done. The quote at click
  time is what the trader was shown, the quote against the pool at landing time is what
  they get, and the rules of the season decide whether that is a fill or a refusal. The
  refusal keeps its reason and the quote it was shown with; the text of it is left out.
\<close>

section \<open>Rules, requests and outcomes\<close>

datatype reject_reason =
  Slippage | Price_impact | R_no_liquidity | R_dust | Partial_not_allowed | Venue_changed

record execution_rules =
  latencyMs :: int
  rslippageBps :: int
  maxPriceImpactBps :: int
  allowPartialFills :: bool

record fill_request =
  rside :: side
  rsize :: int
  atClick :: pool_state
  atFill :: pool_state
  rules :: execution_rules

record filled_outcome =
  fquote :: quote
  expected :: quote
  fslippageBps :: int
  flatencyMs :: int
  fengineVersion :: int

datatype fill_outcome =
    Filled filled_outcome
  | Rejected reject_reason "quote option"

definition quote_side :: "pool_state \<Rightarrow> side \<Rightarrow> int \<Rightarrow> quote res" where
  "quote_side pool s n = (case s of Buy \<Rightarrow> quoteBuy pool n | Sell \<Rightarrow> quoteSell pool n)"

definition shortfallBps :: "int \<Rightarrow> int \<Rightarrow> int res" where
  "shortfallBps shown actual =
     (if shown = 0 then Inr 0
      else let difference = shown - actual;
               magnitude = (if difference < 0 then - difference else difference) in
        rbind (mulDivFloor magnitude BPS_DENOMINATOR shown) (\<lambda>b.
        let bps = to_num b in Inr (if difference < 0 then - bps else bps)))"

definition reason_of :: "quote_code \<Rightarrow> reject_reason" where
  "reason_of c = (case c of No_liquidity \<Rightarrow> R_no_liquidity | _ \<Rightarrow> R_dust)"

text \<open>What a fill receives: tokens on a buy, SOL on a sell.\<close>

definition received :: "side \<Rightarrow> quote \<Rightarrow> int" where
  "received s q = (case s of Buy \<Rightarrow> tokenAmount q | Sell \<Rightarrow> solAmount q)"

definition simulateFill :: "fill_request \<Rightarrow> fill_outcome res" where
  "simulateFill r =
     (if source (atClick r) \<noteq> source (atFill r) then Inr (Rejected Venue_changed None)
      else case quote_side (atClick r) (rside r) (rsize r) of
        Inl (Quote_error c) \<Rightarrow> Inr (Rejected (reason_of c) None)
      | Inl e \<Rightarrow> Inl e
      | Inr shown \<Rightarrow>
        if priceImpactBps shown > maxPriceImpactBps (rules r) then Inr (Rejected Price_impact (Some shown))
        else case quote_side (atFill r) (rside r) (rsize r) of
          Inl (Quote_error c) \<Rightarrow> Inr (Rejected (reason_of c) (Some shown))
        | Inl e \<Rightarrow> Inl e
        | Inr actual \<Rightarrow>
          if priceImpactBps actual > maxPriceImpactBps (rules r)
          then Inr (Rejected Price_impact (Some shown))
          else if partial actual \<and> \<not> allowPartialFills (rules r)
          then Inr (Rejected Partial_not_allowed (Some shown))
          else rbind (shortfallBps (received (rside r) shown) (received (rside r) actual)) (\<lambda>slippage.
            if slippage > rslippageBps (rules r) then Inr (Rejected Slippage (Some shown))
            else Inr (Filled \<lparr>fquote = actual, expected = shown, fslippageBps = slippage,
                   flatencyMs = latencyMs (rules r), fengineVersion = ENGINE_VERSION\<rparr>)))"

definition DEFAULT_RULES :: execution_rules where
  "DEFAULT_RULES = \<lparr>latencyMs = 600, rslippageBps = 1000, maxPriceImpactBps = 5000,
     allowPartialFills = True\<rparr>"

section \<open>The quotes execution relies on\<close>

text \<open>
  Execution never looks inside a quote function. What it needs is stated as a contract: a
  quote on a well-formed pool either fails with a code of the engine or receives something
  and charges a fee it can show.
\<close>

locale quoter =
  fixes qf :: "pool_state \<Rightarrow> side \<Rightarrow> int \<Rightarrow> quote res"
  assumes only_quote_errors: "wf_pool p \<Longrightarrow> qf p s n = Inl e \<Longrightarrow> \<exists>c. e = Quote_error c"
    and receives: "wf_pool p \<Longrightarrow> qf p s n = Inr q \<Longrightarrow> 0 < received s q"
    and side_of: "wf_pool p \<Longrightarrow> qf p s n = Inr q \<Longrightarrow> qside q = s"
    and impact_nonneg: "wf_pool p \<Longrightarrow> qf p s n = Inr q \<Longrightarrow> 0 \<le> priceImpactBps q"
begin

lemma quote_total:
  assumes "wf_pool p"
  obtains (ok) q where "qf p s n = Inr q" | (refused) c where "qf p s n = Inl (Quote_error c)"
  using only_quote_errors [OF assms, of s n] by (cases "qf p s n") blast+

lemma shortfall_total:
  assumes "wf_pool p" "wf_pool p'" "qf p s n = Inr q" "qf p' s n = Inr q'"
  shows "\<exists>b. shortfallBps (received s q) (received s q') = Inr b"
proof -
  have "0 < received s q" using assms by (auto intro: receives)
  then show ?thesis by (simp add: shortfallBps_def BPS_DENOMINATOR_def Let_def)
qed

end

lemma impact_of_nonneg: "0 \<le> impact_of s t S T"
  by (simp add: impact_of_def to_num_nonneg)

lemma capped_impact_nonneg: "0 \<le> priceImpactBps (capped_quote p x)"
  by (simp add: capped_quote_def Let_def impact_of_nonneg)

interpretation engine: quoter quote_side
proof unfold_locales
  fix p s n e
  assume wf: "wf_pool p" and "quote_side p s n = Inl e"
  then show "\<exists>c. e = Quote_error c"
    by (cases s) (auto simp: quote_side_def quoteBuy_eq [OF wf] quoteSell_eq [OF wf] Let_def
        split: if_splits)
next
  fix p s n q
  assume wf: "wf_pool p" and q: "quote_side p s n = Inr q"
  show "0 < received s q"
    using q quoteBuy_contract [OF _ wf] quoteSell_contract [OF _ wf]
    by (cases s) (auto simp: quote_side_def received_def buy_contract_def sell_contract_def)
  show "qside q = s"
    using q quoteBuy_contract [OF _ wf] quoteSell_contract [OF _ wf]
    by (cases s) (auto simp: quote_side_def buy_contract_def sell_contract_def)
  show "0 \<le> priceImpactBps q"
    using q wf
    by (cases s) (auto simp: quote_side_def impact_of_nonneg capped_impact_nonneg
        elim!: quoteBuy_InrE quoteSell_InrE)
qed

section \<open>Properties\<close>

lemma shortfall_le:
  assumes "shortfallBps e a = Inr s" "s \<le> k" "0 < e" "0 \<le> k" "k < 2 ^ 53"
  shows "(e - a) * 10000 < (k + 1) * e"
proof (cases "e - a < 0")
  case True
  then have "(e - a) * 10000 < 0" by simp
  also have "0 \<le> (k + 1) * e" using assms by simp
  finally show ?thesis .
next
  case False
  then have "s = to_num ((e - a) * 10000 div e)"
    using assms by (simp add: shortfallBps_def BPS_DENOMINATOR_def Let_def)
  then have "(e - a) * 10000 div e \<le> k" using assms by (simp add: to_num_le_iff)
  then have "(e - a) * 10000 div e < k + 1" by linarith
  then show ?thesis using floor_lt_iff [OF assms(3)] by blast
qed

lemma shortfall_same: "0 < e \<Longrightarrow> shortfallBps e e = Inr 0"
  by (simp add: shortfallBps_def BPS_DENOMINATOR_def)

lemma simulateFill_FilledD:
  assumes "simulateFill r = Inr (Filled f)"
  shows "source (atClick r) = source (atFill r)"
    "quote_side (atClick r) (rside r) (rsize r) = Inr (expected f)"
    "quote_side (atFill r) (rside r) (rsize r) = Inr (fquote f)"
    "priceImpactBps (expected f) \<le> maxPriceImpactBps (rules r)"
    "priceImpactBps (fquote f) \<le> maxPriceImpactBps (rules r)"
    "partial (fquote f) \<Longrightarrow> allowPartialFills (rules r)"
    "shortfallBps (received (rside r) (expected f)) (received (rside r) (fquote f)) = Inr (fslippageBps f)"
    "fslippageBps f \<le> rslippageBps (rules r)"
    "flatencyMs f = latencyMs (rules r)" "fengineVersion f = ENGINE_VERSION"
  using assms unfolding simulateFill_def
  by (auto split: if_splits sum.splits error.splits)

text \<open>
  simulating a fill always answers. On well-formed pools it never throws: whatever the
  side, the size and the rules, the trader gets a fill or a refusal with a reason.
\<close>

theorem simulateFill_total:
  assumes "wf_pool (atClick r)" "wf_pool (atFill r)"
  shows "\<exists>out. simulateFill r = Inr out"
proof (cases "source (atClick r) = source (atFill r)")
  case False
  then show ?thesis by (simp add: simulateFill_def)
next
  case src: True
  let ?s = "rside r" and ?n = "rsize r"
  show ?thesis
    using assms(1)
  proof (cases rule: engine.quote_total [where s = ?s and n = ?n])
    case (refused c)
    with src show ?thesis by (simp add: simulateFill_def)
  next
    case clicked: (ok shown)
    show ?thesis
      using assms(2)
    proof (cases rule: engine.quote_total [where s = ?s and n = ?n])
      case (refused c)
      with src clicked show ?thesis by (simp add: simulateFill_def)
    next
      case (ok actual)
      with src clicked engine.shortfall_total [OF assms clicked ok] show ?thesis
        by (auto simp: simulateFill_def)
    qed
  qed
qed

definition launch_request :: fill_request where
  "launch_request = \<lparr>rside = Sell, rsize = 1000000000000, atClick = launch_pool,
     atFill = launch_pool, rules = DEFAULT_RULES\<rparr>"

theorem simulateFill_total_witness: "\<exists>out. simulateFill launch_request = Inr out"
  by (rule simulateFill_total) (simp_all add: launch_request_def wf_launch_pool)

lemma launch_fill:
  "\<exists>f. simulateFill launch_request = Inr (Filled f)"
proof -
  have q: "quote_side launch_pool Sell 1000000000000 = Inr (full_sell launch_pool 1000000000000)"
    by (simp add: quote_side_def launch_sell)
  have i: "priceImpactBps (full_sell launch_pool 1000000000000) \<le> 5000"
    by (simp add: launch_pool_def sell_gross_def impact_of_def)
  have r: "0 < received Sell (full_sell launch_pool 1000000000000)"
    by (rule engine.receives [OF wf_launch_pool q])
  from q i show ?thesis
    by (simp add: simulateFill_def launch_request_def DEFAULT_RULES_def shortfall_same [OF r])
qed

text \<open>
  C21: a fill keeps every promise of the rules. A filled outcome was priced by the engine
  against the pool at landing, on the venue it was clicked on, moved the price no further
  than the limit at either moment, is partial only where that is allowed, and received at
  least what was shown less the tolerated slippage (rounded to one basis point).
\<close>

theorem filled_within_rules:
  assumes "simulateFill r = Inr (Filled f)" and "wf_pool (atClick r)"
    and "0 \<le> rslippageBps (rules r)" "rslippageBps (rules r) < 2 ^ 53"
  shows "source (atClick r) = source (atFill r)
    \<and> quote_side (atFill r) (rside r) (rsize r) = Inr (fquote f)
    \<and> priceImpactBps (expected f) \<le> maxPriceImpactBps (rules r)
    \<and> priceImpactBps (fquote f) \<le> maxPriceImpactBps (rules r)
    \<and> (partial (fquote f) \<longrightarrow> allowPartialFills (rules r))
    \<and> (received (rside r) (expected f) - received (rside r) (fquote f)) * 10000
        < (rslippageBps (rules r) + 1) * received (rside r) (expected f)"
proof -
  note d = simulateFill_FilledD [OF assms(1)]
  have "0 < received (rside r) (expected f)" using engine.receives [OF assms(2) d(2)] .
  then have "(received (rside r) (expected f) - received (rside r) (fquote f)) * 10000
        < (rslippageBps (rules r) + 1) * received (rside r) (expected f)"
    using shortfall_le [OF d(7,8)] assms by blast
  with d show ?thesis by simp
qed

theorem filled_within_rules_witness:
  "\<exists>f. simulateFill launch_request = Inr (Filled f)
    \<and> quote_side launch_pool Sell 1000000000000 = Inr (fquote f)"
  using launch_fill filled_within_rules [of launch_request]
  by (fastforce simp: launch_request_def wf_launch_pool DEFAULT_RULES_def)

text \<open>
  without a change of the pool there is no slippage. If the pool at landing is the pool
  at click, the outcome is never a slippage refusal, and a fill is the quote that was shown.
\<close>

theorem no_move_no_slippage:
  assumes wf: "wf_pool (atClick r)" and same: "atFill r = atClick r" and k: "0 \<le> rslippageBps (rules r)"
  shows "(\<forall>q. simulateFill r \<noteq> Inr (Rejected Slippage q))
    \<and> (\<forall>f. simulateFill r = Inr (Filled f) \<longrightarrow> fquote f = expected f \<and> fslippageBps f = 0)"
proof (intro conjI allI impI)
  fix q
  show "simulateFill r \<noteq> Inr (Rejected Slippage q)"
    using wf
  proof (cases rule: engine.quote_total [where s = "rside r" and n = "rsize r"])
    case (ok shown)
    have "shortfallBps (received (rside r) shown) (received (rside r) shown) = Inr 0"
      using engine.receives [OF wf ok] by (rule shortfall_same)
    with ok same k show ?thesis by (simp add: simulateFill_def)
  next
    case (refused c)
    then show ?thesis using same by (cases c) (simp_all add: simulateFill_def reason_of_def)
  qed
next
  fix f
  assume "simulateFill r = Inr (Filled f)"
  note d = simulateFill_FilledD [OF this]
  have eq: "fquote f = expected f" using d(2,3) same by simp
  have "0 < received (rside r) (expected f)" using engine.receives [OF wf d(2)] .
  then show "fquote f = expected f" "fslippageBps f = 0"
    using eq d(7) by (simp_all add: shortfall_same)
qed

theorem no_move_no_slippage_witness:
  "\<exists>f. simulateFill launch_request = Inr (Filled f) \<and> fslippageBps f = 0"
  using launch_fill no_move_no_slippage [of launch_request]
  by (fastforce simp: launch_request_def wf_launch_pool DEFAULT_RULES_def)

end
