(* ===== verification/Trading.thy ===== *)
theory Trading
  imports Engine Contracts
begin

text \<open>
  \<open>packages/trading/src/apply.ts\<close> and \<open>packages/trading/src/equity.ts\<close>: what a fill does
  to a balance and a position, and what an account is worth. A balance is a bigint; realized
  profit is signed.
\<close>

section \<open>Applying a fill\<close>

record position =
  pmint :: string
  ptokens :: int
  costBasis :: int
  realizedPnl :: int

record account_state =
  solBalance :: int
  pos :: "position option"

record fill_application =
  account :: account_state
  realized :: int
  closed :: bool

definition emptyPosition :: "string \<Rightarrow> position" where
  "emptyPosition m = \<lparr>pmint = m, ptokens = 0, costBasis = 0, realizedPnl = 0\<rparr>"

definition applyBuy :: "account_state \<Rightarrow> quote \<Rightarrow> string \<Rightarrow> fill_application res" where
  "applyBuy st q m =
     rbind (ensure (\<not> solAmount q > solBalance st) (Trading_error Insufficient_sol)) (\<lambda>_.
     let existing = (case pos st of None \<Rightarrow> emptyPosition m | Some p \<Rightarrow> p) in
     rbind (ensure (\<not> pmint existing \<noteq> m) (Trading_error Invalid_state)) (\<lambda>_.
     Inr \<lparr>account = \<lparr>solBalance = solBalance st - solAmount q,
            pos = Some \<lparr>pmint = m, ptokens = ptokens existing + tokenAmount q,
              costBasis = costBasis existing + solAmount q,
              realizedPnl = realizedPnl existing\<rparr>\<rparr>,
          realized = 0, closed = False\<rparr>))"

definition applySell :: "account_state \<Rightarrow> quote \<Rightarrow> string \<Rightarrow> fill_application res" where
  "applySell st q m =
     (case pos st of
        None \<Rightarrow> Inl (Trading_error Insufficient_tokens)
      | Some existing \<Rightarrow>
        if pmint existing \<noteq> m then Inl (Trading_error Insufficient_tokens)
        else if tokenAmount q > ptokens existing then Inl (Trading_error Insufficient_tokens)
        else let closingAll = (tokenAmount q = ptokens existing) in
          rbind (if closingAll then Inr (costBasis existing)
                 else mulDivFloor (costBasis existing) (tokenAmount q) (ptokens existing)) (\<lambda>costOfSold.
          let r = solAmount q - costOfSold in
          Inr \<lparr>account = \<lparr>solBalance = solBalance st + solAmount q,
                 pos = Some \<lparr>pmint = m, ptokens = ptokens existing - tokenAmount q,
                   costBasis = costBasis existing - costOfSold,
                   realizedPnl = realizedPnl existing + r\<rparr>\<rparr>,
               realized = r, closed = closingAll\<rparr>))"

definition applyFill :: "account_state \<Rightarrow> quote \<Rightarrow> string \<Rightarrow> fill_application res" where
  "applyFill st q m = (case qside q of Buy \<Rightarrow> applyBuy st q m | Sell \<Rightarrow> applySell st q m)"

definition unrealizedPnl :: "position \<Rightarrow> int \<Rightarrow> int \<Rightarrow> (int \<times> int) res" where
  "unrealizedPnl p scaledPrice priceScale =
     rbind (mulDivFloor (ptokens p) scaledPrice priceScale) (\<lambda>value.
     Inr (value, value - costBasis p))"

definition sellableTokens :: "position option \<Rightarrow> string \<Rightarrow> int" where
  "sellableTokens p m = (case p of None \<Rightarrow> 0 | Some x \<Rightarrow> if pmint x = m then ptokens x else 0)"

definition fractionOfPosition :: "position \<Rightarrow> int \<Rightarrow> int \<Rightarrow> int res" where
  "fractionOfPosition p numerator denominator =
     (if denominator \<le> 0 \<or> numerator < 0 \<or> numerator > denominator
      then Inl (Trading_error Invalid_state)
      else if numerator = denominator then Inr (ptokens p)
      else mulDivFloor (ptokens p) numerator denominator)"

section \<open>Equity\<close>

record valued_position =
  vmint :: string
  vtokens :: int
  vcost :: int
  vrealized :: int
  vvalue :: int

record equity_t =
  cash :: int
  positionValue :: int
  equity :: int
  erealized :: int
  unrealized :: int
  totalPnl :: int
  returnBps :: int

definition valuePosition :: "position \<Rightarrow> int \<Rightarrow> int \<Rightarrow> valued_position res" where
  "valuePosition p scaledPrice priceScale =
     rbind (mulDivFloor (ptokens p) scaledPrice priceScale) (\<lambda>v.
     Inr \<lparr>vmint = pmint p, vtokens = ptokens p, vcost = costBasis p, vrealized = realizedPnl p,
          vvalue = v\<rparr>)"

definition accountEquity :: "int \<Rightarrow> valued_position list \<Rightarrow> int \<Rightarrow> int \<Rightarrow> equity_t res" where
  "accountEquity c openPositions realizedFromAllPositions startingBalance =
     (let pv = foldl (\<lambda>sum p. sum + vvalue p) 0 openPositions;
          openCost = foldl (\<lambda>sum p. sum + vcost p) 0 openPositions;
          eq = c + pv;
          pnl = eq - startingBalance;
          magnitude = (if pnl < 0 then - pnl else pnl) in
      rbind (if startingBalance = 0 then Inr 0
             else rbind (mulDivFloor magnitude 10000 startingBalance) (\<lambda>b. Inr (to_num b))) (\<lambda>bps.
      Inr \<lparr>cash = c, positionValue = pv, equity = eq, erealized = realizedFromAllPositions,
           unrealized = pv - openCost, totalPnl = pnl,
           returnBps = (if pnl < 0 then - bps else bps)\<rparr>))"

section \<open>Invariants of an account\<close>

text \<open>A fill the engine can have produced.\<close>

definition wf_quote :: "quote \<Rightarrow> bool" where
  "wf_quote q \<longleftrightarrow> 0 \<le> solAmount q \<and> 0 < tokenAmount q"

text \<open>
  Nothing is negative, and a position of no tokens carries no cost: closing a position
  leaves no phantom basis behind.
\<close>

definition wf_position :: "position \<Rightarrow> bool" where
  "wf_position p \<longleftrightarrow> 0 \<le> ptokens p \<and> 0 \<le> costBasis p \<and> (ptokens p = 0 \<longrightarrow> costBasis p = 0)"

definition wf_account :: "account_state \<Rightarrow> bool" where
  "wf_account a \<longleftrightarrow> 0 \<le> solBalance a \<and> (case pos a of None \<Rightarrow> True | Some p \<Rightarrow> wf_position p)"

text \<open>The quantity no fill changes: cash, plus what is invested, less what was booked.\<close>

definition basis_of :: "account_state \<Rightarrow> int" where
  "basis_of a = (case pos a of None \<Rightarrow> 0 | Some p \<Rightarrow> costBasis p)"

definition booked :: "account_state \<Rightarrow> int" where
  "booked a = (case pos a of None \<Rightarrow> 0 | Some p \<Rightarrow> realizedPnl p)"

definition stake_total :: "account_state \<Rightarrow> int" where
  "stake_total a = solBalance a + basis_of a - booked a"

text \<open>One fill after another on one token.\<close>

definition fill_step :: "string \<Rightarrow> account_state \<Rightarrow> quote \<Rightarrow> account_state res" where
  "fill_step m a q = rbind (applyFill a q m) (\<lambda>f. Inr (account f))"

lemmas apply_defs = applyFill_def applyBuy_def applySell_def

lemma slice_bounds:
  assumes "0 \<le> c" "0 \<le> t" "t < (n::int)"
  shows "0 \<le> c * t div n" "c * t div n \<le> c"
proof -
  show "0 \<le> c * t div n" using assms by (simp add: pos_imp_zdiv_nonneg_iff)
  have "c * t div n \<le> c * n div n" using assms by (intro zdiv_mono1 mult_left_mono) simp_all
  then show "c * t div n \<le> c" using assms by simp
qed

lemma applySell_Inr:
  assumes "applySell a q m = Inr f"
  obtains p c where "pos a = Some p" "pmint p = m" "tokenAmount q \<le> ptokens p"
    "closed f \<longleftrightarrow> tokenAmount q = ptokens p"
    "if closed f then c = costBasis p
     else mulDivFloor (costBasis p) (tokenAmount q) (ptokens p) = Inr c"
    "account f = \<lparr>solBalance = solBalance a + solAmount q,
       pos = Some \<lparr>pmint = m, ptokens = ptokens p - tokenAmount q, costBasis = costBasis p - c,
         realizedPnl = realizedPnl p + (solAmount q - c)\<rparr>\<rparr>"
    "realized f = solAmount q - c"
proof -
  from assms obtain p where p: "pos a = Some p" by (auto simp: applySell_def split: option.splits)
  with assms have m: "pmint p = m" "tokenAmount q \<le> ptokens p"
    by (auto simp: applySell_def split: if_splits)
  define r where "r = (if tokenAmount q = ptokens p then Inr (costBasis p)
     else mulDivFloor (costBasis p) (tokenAmount q) (ptokens p))"
  from assms p m have "rbind r (\<lambda>c. Inr \<lparr>account = \<lparr>solBalance = solBalance a + solAmount q,
       pos = Some \<lparr>pmint = m, ptokens = ptokens p - tokenAmount q, costBasis = costBasis p - c,
         realizedPnl = realizedPnl p + (solAmount q - c)\<rparr>\<rparr>,
       realized = solAmount q - c, closed = (tokenAmount q = ptokens p)\<rparr>) = Inr f"
    by (simp add: applySell_def Let_def r_def)
  then obtain c where "r = Inr c" and "f = \<lparr>account = \<lparr>solBalance = solBalance a + solAmount q,
       pos = Some \<lparr>pmint = m, ptokens = ptokens p - tokenAmount q, costBasis = costBasis p - c,
         realizedPnl = realizedPnl p + (solAmount q - c)\<rparr>\<rparr>,
       realized = solAmount q - c, closed = (tokenAmount q = ptokens p)\<rparr>"
    by auto
  with p m that show thesis by (auto simp: r_def split: if_splits)
qed

interpretation basis: conserved "fill_step m" stake_total for m
proof unfold_locales
  fix a q a'
  assume "fill_step m a q = Inr a'"
  then obtain f where f: "applyFill a q m = Inr f" and a': "a' = account f"
    by (auto simp: fill_step_def)
  show "stake_total a' = stake_total a"
  proof (cases "qside q")
    case Buy
    with f a' show ?thesis
      by (auto simp: applyFill_def applyBuy_def stake_total_def basis_of_def booked_def emptyPosition_def
          Let_def split: option.splits)
  next
    case Sell
    with f have "applySell a q m = Inr f" by (simp add: applyFill_def)
    with a' show ?thesis
      by (elim applySell_Inr) (simp add: stake_total_def basis_of_def booked_def)
  qed
qed

interpretation account: fallible_loop "fill_step m" wf_quote wf_account for m
proof unfold_locales
  fix a q a'
  assume wf: "wf_account a" and q: "wf_quote q" and "fill_step m a q = Inr a'"
  then obtain f where f: "applyFill a q m = Inr f" and a': "a' = account f"
    by (auto simp: fill_step_def)
  show "wf_account a'"
  proof (cases "qside q")
    case Buy
    with f a' wf q show ?thesis
      by (auto simp: applyFill_def applyBuy_def wf_account_def wf_position_def wf_quote_def
          emptyPosition_def Let_def split: option.splits)
  next
    case Sell
    with f have "applySell a q m = Inr f" by (simp add: applyFill_def)
    then show ?thesis
    proof (cases rule: applySell_Inr)
      case (1 p c)
      then have p: "wf_position p" using wf by (simp add: wf_account_def)
      show ?thesis
      proof (cases "closed f")
        case True
        with 1 p wf q a' show ?thesis by (simp add: wf_account_def wf_position_def wf_quote_def)
      next
        case False
        with 1 p q have n: "0 < ptokens p" "tokenAmount q < ptokens p"
          by (simp_all add: wf_position_def wf_quote_def)
        with 1 False p q have c: "c = costBasis p * tokenAmount q div ptokens p"
          by (simp add: wf_position_def wf_quote_def)
        have "0 \<le> c" "c \<le> costBasis p"
          using slice_bounds [of "costBasis p" "tokenAmount q" "ptokens p"] n p q
          by (simp_all add: c wf_position_def wf_quote_def)
        with 1 n p wf q a' show ?thesis by (simp add: wf_account_def wf_position_def wf_quote_def)
      qed
    qed
  qed
qed

section \<open>Properties\<close>

abbreviation run_fills :: "string \<Rightarrow> account_state \<Rightarrow> quote list \<Rightarrow> account_state res" where
  "run_fills m \<equiv> run_res (fill_step m)"

definition fresh_account :: "int \<Rightarrow> account_state" where
  "fresh_account b = \<lparr>solBalance = b, pos = None\<rparr>"

lemma wf_fresh: "0 \<le> b \<Longrightarrow> wf_account (fresh_account b)"
  by (simp add: fresh_account_def wf_account_def)

lemma stake_fresh: "stake_total (fresh_account b) = b"
  by (simp add: fresh_account_def stake_total_def basis_of_def booked_def)

text \<open>
  C20: no sequence of fills overdraws an account. However many buys and sells are applied,
  the balance, the holding and the cost basis of the account that comes out are never
  negative, and a position of no tokens has no cost left on it.
\<close>

theorem fills_keep_account_sound:
  assumes "wf_account a" "list_all wf_quote qs" "run_fills m a qs = Inr a'"
  shows "wf_account a'"
  using assms by (rule account.run_inv)

definition buy_q :: "int \<Rightarrow> int \<Rightarrow> quote" where
  "buy_q s t = \<lparr>qside = Buy, solAmount = s, tokenAmount = t, feeLamports = 1, priceImpactBps = 0,
     partial = False, engineVersion = 1\<rparr>"

definition sell_q :: "int \<Rightarrow> int \<Rightarrow> quote" where
  "sell_q s t = \<lparr>qside = Sell, solAmount = s, tokenAmount = t, feeLamports = 1, priceImpactBps = 0,
     partial = False, engineVersion = 1\<rparr>"

definition closed_run :: account_state where
  "closed_run = \<lparr>solBalance = 107, pos = Some \<lparr>pmint = ''m'', ptokens = 0, costBasis = 0, realizedPnl = 7\<rparr>\<rparr>"

lemma closed_run: "run_fills ''m'' (fresh_account 100) [buy_q 10 7, sell_q 12 3, sell_q 5 4] = Inr closed_run"
  by (simp add: fill_step_def apply_defs fresh_account_def buy_q_def sell_q_def emptyPosition_def
      closed_run_def Let_def)

theorem fills_keep_account_sound_witness: "wf_account closed_run"
  by (rule fills_keep_account_sound [OF wf_fresh _ closed_run])
    (simp_all add: wf_quote_def buy_q_def sell_q_def)

text \<open>
  profit is neither invented nor lost by booking it in parts. Cash plus cost basis less
  realized profit is the same before and after any sequence of fills, so a position that was
  closed out, in however many sells, has booked exactly the change of the balance.
\<close>

theorem closed_position_books_the_balance:
  assumes r: "run_fills m (fresh_account b) qs = Inr a'" and b: "0 \<le> b"
    and qs: "list_all wf_quote qs" and p: "pos a' = Some p" and z: "ptokens p = 0"
  shows "stake_total a' = b \<and> realizedPnl p = solBalance a' - b"
proof -
  have "stake_total a' = b" using basis.run_conserves [OF r] by (simp add: stake_fresh)
  moreover have "wf_account a'" using wf_fresh [OF b] qs r by (rule account.run_inv)
  ultimately show ?thesis
    using p z by (simp add: wf_account_def wf_position_def stake_total_def basis_of_def booked_def)
qed

theorem closed_position_books_the_balance_witness:
  "stake_total closed_run = 100 \<and> (7::int) = solBalance closed_run - 100"
  using closed_position_books_the_balance [OF closed_run,
      of "\<lparr>pmint = ''m'', ptokens = 0, costBasis = 0, realizedPnl = 7\<rparr>"]
  by (simp add: closed_run_def wf_quote_def buy_q_def sell_q_def)

text \<open>
  the figure a season is ranked on is the sum of what was booked and what is still
  riding. For an account that only ever traded one token, total profit against the starting
  balance is exactly realized plus unrealized, at any price the position is marked to.
\<close>

theorem equity_is_realized_plus_unrealized:
  assumes r: "run_fills m (fresh_account b) qs = Inr a'" and p: "pos a' = Some p"
    and v: "valuePosition p price scale = Inr vp"
    and e: "accountEquity (solBalance a') [vp] (realizedPnl p) b = Inr eq"
  shows "totalPnl eq = erealized eq + unrealized eq \<and> equity eq = solBalance a' + vvalue vp"
proof -
  have "stake_total a' = b" using basis.run_conserves [OF r] by (simp add: stake_fresh)
  then have "solBalance a' + costBasis p - realizedPnl p = b"
    using p by (simp add: stake_total_def basis_of_def booked_def)
  moreover have "vcost vp = costBasis p" using v by (auto simp: valuePosition_def)
  ultimately show ?thesis using e by (auto simp: accountEquity_def Let_def)
qed

lemma open_run: "run_fills ''m'' (fresh_account 100) [buy_q 10 7, sell_q 12 3] = Inr
    \<lparr>solBalance = 102, pos = Some \<lparr>pmint = ''m'', ptokens = 4, costBasis = 6, realizedPnl = 8\<rparr>\<rparr>"
  by (simp add: fill_step_def apply_defs fresh_account_def buy_q_def sell_q_def emptyPosition_def Let_def)

theorem equity_is_realized_plus_unrealized_witness:
  "\<exists>eq. accountEquity 102 [\<lparr>vmint = ''m'', vtokens = 4, vcost = 6, vrealized = 8, vvalue = 20\<rparr>] 8 100
      = Inr eq \<and> totalPnl eq = erealized eq + unrealized eq"
proof -
  have v: "valuePosition \<lparr>pmint = ''m'', ptokens = 4, costBasis = 6, realizedPnl = 8\<rparr> 5 1
      = Inr \<lparr>vmint = ''m'', vtokens = 4, vcost = 6, vrealized = 8, vvalue = 20\<rparr>"
    by (simp add: valuePosition_def)
  obtain eq where e: "accountEquity 102 [\<lparr>vmint = ''m'', vtokens = 4, vcost = 6, vrealized = 8,
      vvalue = 20\<rparr>] 8 100 = Inr eq"
    by (simp add: accountEquity_def)
  show ?thesis
    using equity_is_realized_plus_unrealized [OF open_run _ v, of eq] e by auto
qed

text \<open>
  a fill is refused for three reasons and no other. On a sound account, a buy fails only
  when it costs more than the balance or the position is another token's; a sell only when
  there is no position in the token or it asks for more tokens than are held.
\<close>

theorem fill_refusals:
  assumes "wf_account a" "wf_quote q"
  shows "applyFill a q m = Inl e \<longleftrightarrow>
      (qside q = Buy \<and> solBalance a < solAmount q \<and> e = Trading_error Insufficient_sol)
    \<or> (qside q = Buy \<and> solAmount q \<le> solBalance a \<and> (\<exists>p. pos a = Some p \<and> pmint p \<noteq> m)
        \<and> e = Trading_error Invalid_state)
    \<or> (qside q = Sell \<and> sellableTokens (pos a) m < tokenAmount q
        \<and> e = Trading_error Insufficient_tokens)"
proof (cases "qside q")
  case Buy
  then show ?thesis
    by (cases "pos a") (auto simp: applyFill_def applyBuy_def emptyPosition_def rbind_eq_Inl)
next
  case Sell
  show ?thesis
  proof (cases "pos a")
    case None
    with Sell assms show ?thesis
      by (auto simp: applyFill_def applySell_def sellableTokens_def wf_quote_def)
  next
    case (Some p)
    then have "wf_position p" using assms by (simp add: wf_account_def)
    with Sell Some assms show ?thesis
      by (auto simp: applyFill_def applySell_def sellableTokens_def wf_quote_def wf_position_def Let_def
          rbind_eq_Inl mulDivFloor_eq split: if_splits)
  qed
qed

theorem fill_refusals_witness:
  "applyFill (fresh_account 5) (buy_q 10 7) ''m'' = Inl (Trading_error Insufficient_sol)"
  using fill_refusals [of "fresh_account 5" "buy_q 10 7" "''m''" "Trading_error Insufficient_sol"]
  by (simp add: fresh_account_def wf_account_def wf_quote_def buy_q_def)

text \<open>
  a return is truncated toward zero. It never shows a gain that was not quite made nor a
  loss deeper than it was, and it is less than one basis point away from the exact figure.
\<close>

theorem equity_return_truncates:
  assumes e: "accountEquity c vs rz b = Inr eq" and b: "0 < b"
    and small: "\<bar>totalPnl eq\<bar> * 10000 div b \<le> 2 ^ 53"
  shows "\<bar>returnBps eq\<bar> * b \<le> \<bar>totalPnl eq\<bar> * 10000
    \<and> \<bar>totalPnl eq\<bar> * 10000 < (\<bar>returnBps eq\<bar> + 1) * b
    \<and> (0 \<le> totalPnl eq \<longrightarrow> 0 \<le> returnBps eq) \<and> (totalPnl eq \<le> 0 \<longrightarrow> returnBps eq \<le> 0)"
proof -
  let ?m = "\<bar>totalPnl eq\<bar>" and ?q = "\<bar>totalPnl eq\<bar> * 10000 div b"
  have q: "0 \<le> ?q" using b by (simp add: pos_imp_zdiv_nonneg_iff)
  have r: "returnBps eq = (if totalPnl eq < 0 then - to_num ?q else to_num ?q)"
    using e b by (auto simp: accountEquity_def Let_def abs_if)
  have "to_num ?q = ?q" using small q by (intro to_num_exact) simp
  with r q have a: "\<bar>returnBps eq\<bar> = ?q" by (simp split: if_splits)
  have "?q * b \<le> ?m * 10000" using b by (rule floor_mult_le)
  moreover have "?m * 10000 < (?q + 1) * b" using floor_lt_iff [OF b, of "?m * 10000" "?q + 1"] by simp
  ultimately show ?thesis using a r q \<open>to_num ?q = ?q\<close> by (auto split: if_splits)
qed

theorem equity_return_truncates_witness:
  "\<exists>eq. accountEquity 90 [] 0 110 = Inr eq \<and> \<bar>returnBps eq\<bar> * 110 \<le> \<bar>totalPnl eq\<bar> * 10000"
proof -
  obtain eq where e: "accountEquity 90 [] 0 110 = Inr eq" and p: "totalPnl eq = - 20"
    by (simp add: accountEquity_def)
  have s: "\<bar>totalPnl eq\<bar> * 10000 div 110 \<le> 2 ^ 53" unfolding p by simp
  have "\<bar>returnBps eq\<bar> * 110 \<le> \<bar>totalPnl eq\<bar> * 10000"
    by (rule equity_return_truncates [OF e _ s, THEN conjunct1]) simp
  with e show ?thesis by blast
qed

end
