(* ===== verification/Strategy.thy ===== *)
theory Strategy
  imports Json
begin

text \<open>
  The rules of a strategy (packages/sim/src/strategy.ts): reading them from untrusted
  input, storing them, the entry conditions, the size of a position, and the one exit
  decision that the back test and the live runner share. A refusal of an entry keeps its
  reason as a constructor; the sentence shown to the owner is not modelled.
\<close>

definition RULES_VERSION :: int where "RULES_VERSION = 1"
definition DAILY_TRADE_CAP :: int where "DAILY_TRADE_CAP = 200"
definition MIN_STAKE_LAMPORTS :: int where "MIN_STAKE_LAMPORTS = 10000000"
definition MAX_STAKE_LAMPORTS :: int where "MAX_STAKE_LAMPORTS = 10000000000"
definition MAX_OPEN_POSITIONS :: int where "MAX_OPEN_POSITIONS = 10"
definition DEPTH_CAP_BPS :: int where "DEPTH_CAP_BPS = 200"
definition MAX_AGE_SECONDS :: int where "MAX_AGE_SECONDS = 7 * 24 * 60 * 60"
definition MIN_TIMEOUT_SECONDS :: int where "MIN_TIMEOUT_SECONDS = 30"
definition MAX_TIMEOUT_SECONDS :: int where "MAX_TIMEOUT_SECONDS = 24 * 60 * 60"
definition MIN_WINDOW_SECONDS :: int where "MIN_WINDOW_SECONDS = 60"
definition MAX_WINDOW_SECONDS :: int where "MAX_WINDOW_SECONDS = 60 * 60"
definition MAX_TAKE_PROFIT_BPS :: int where "MAX_TAKE_PROFIT_BPS = 100000"

named_theorems strategy_consts \<open>the limits of the validator\<close>

lemmas [strategy_consts] = RULES_VERSION_def MIN_STAKE_LAMPORTS_def MAX_STAKE_LAMPORTS_def
  MAX_OPEN_POSITIONS_def DEPTH_CAP_BPS_def MAX_AGE_SECONDS_def MIN_TIMEOUT_SECONDS_def
  MAX_TIMEOUT_SECONDS_def MIN_WINDOW_SECONDS_def MAX_WINDOW_SECONDS_def MAX_TAKE_PROFIT_BPS_def

section \<open>The rules\<close>

datatype venue = Any | Curve | Graduated

record entry_rules =
  minAgeSeconds :: "int option"
  maxAgeSeconds :: "int option"
  minLiquidityLamports :: "int option"
  minMarketCapLamports :: "int option"
  maxMarketCapLamports :: "int option"
  minChangeBps :: "int option"
  maxChangeBps :: "int option"
  changeWindowSeconds :: "int option"
  venue_rule :: "venue option"
  requireTwitter :: "bool option"
  requireWebsite :: "bool option"
  maxCreatorLaunches :: "int option"
  maxCreatorHoldingBps :: "int option"
  maxBundleBps :: "int option"
  minHolders :: "int option"
  maxSocialReuse :: "int option"

record size_rules =
  stakeLamports :: int
  minStakeLamports :: "int option"
  maxOpenPositions :: int

record exit_rules =
  takeProfitBps :: "int option"
  stopLossBps :: "int option"
  timeoutSeconds :: "int option"

record strategy_rules =
  entry :: entry_rules
  size_of_rules :: size_rules
  exit_of_rules :: exit_rules

text \<open>
  A candidate token. A number of a candidate is a double, so the rational it denotes; \<open>None\<close>
  is the source's \<open>null\<close>, a fact that is not known.
\<close>

record candidate =
  c_mint :: string
  ageSeconds :: rat
  liquidityLamports :: "int option"
  marketCapLamports :: "int option"
  changeBps :: "rat option"
  graduated :: bool
  hasTwitter :: "bool option"
  hasWebsite :: "bool option"
  creatorLaunches :: "rat option"
  creatorHoldingBps :: "rat option"
  bundledBps :: "rat option"
  holders :: "rat option"
  socialReuse :: "rat option"

section \<open>The exit decision\<close>

datatype exit_trigger = Take_profit | Stop_loss | Timeout

definition exitDecision :: "exit_rules \<Rightarrow> int \<Rightarrow> rat \<Rightarrow> exit_trigger option" where
  "exitDecision ex movedBps heldSeconds =
     (if (case stopLossBps ex of Some s \<Rightarrow> movedBps \<le> - s | None \<Rightarrow> False) then Some Stop_loss
      else if (case takeProfitBps ex of Some p \<Rightarrow> movedBps \<ge> p | None \<Rightarrow> False) then Some Take_profit
      else if (case timeoutSeconds ex of Some t \<Rightarrow> heldSeconds \<ge> of_int t | None \<Rightarrow> False) then Some Timeout
      else None)"

section \<open>Entry conditions\<close>

datatype refusal =
    Has_graduated | Still_on_curve
  | Too_young rat int | Too_old rat int
  | Depth_unknown | Depth_low int int
  | Cap_unknown | Cap_low int int | Cap_high int int
  | No_history | Moved_low rat int | Moved_high rat int
  | Metadata_unread | No_twitter | No_website
  | Launches_unknown | Launches_high rat int
  | Holding_unread | Holding_high rat int
  | Bundle_unread | Bundle_high rat int
  | No_account | Reuse_high rat int
  | Holders_unread | Holders_low rat int

datatype verdict = Ok | Refused refusal

text \<open>
  One condition of \<open>matchesEntry\<close> after the other: the first that refuses decides. \<open>vthen\<close>
  is the early return.
\<close>

definition vthen :: "verdict \<Rightarrow> verdict \<Rightarrow> verdict" where
  "vthen v w = (case v of Ok \<Rightarrow> w | Refused r \<Rightarrow> Refused r)"

definition venue_check :: "entry_rules \<Rightarrow> candidate \<Rightarrow> verdict" where
  "venue_check e c =
     (if venue_rule e = Some Curve \<and> graduated c then Refused Has_graduated
      else if venue_rule e = Some Graduated \<and> \<not> graduated c then Refused Still_on_curve
      else Ok)"

definition age_check :: "entry_rules \<Rightarrow> candidate \<Rightarrow> verdict" where
  "age_check e c = vthen
     (case minAgeSeconds e of None \<Rightarrow> Ok
        | Some m \<Rightarrow> if ageSeconds c < of_int m then Refused (Too_young (ageSeconds c) m) else Ok)
     (case maxAgeSeconds e of None \<Rightarrow> Ok
        | Some m \<Rightarrow> if ageSeconds c > of_int m then Refused (Too_old (ageSeconds c) m) else Ok)"

definition liquidity_check :: "entry_rules \<Rightarrow> candidate \<Rightarrow> verdict" where
  "liquidity_check e c = (case minLiquidityLamports e of None \<Rightarrow> Ok
     | Some m \<Rightarrow> (case liquidityLamports c of None \<Rightarrow> Refused Depth_unknown
         | Some l \<Rightarrow> if l < m then Refused (Depth_low l m) else Ok))"

definition cap_check :: "entry_rules \<Rightarrow> candidate \<Rightarrow> verdict" where
  "cap_check e c =
     (if minMarketCapLamports e \<noteq> None \<or> maxMarketCapLamports e \<noteq> None then
        (case marketCapLamports c of None \<Rightarrow> Refused Cap_unknown
         | Some k \<Rightarrow> vthen
             (case minMarketCapLamports e of None \<Rightarrow> Ok
                | Some m \<Rightarrow> if k < m then Refused (Cap_low k m) else Ok)
             (case maxMarketCapLamports e of None \<Rightarrow> Ok
                | Some m \<Rightarrow> if k > m then Refused (Cap_high k m) else Ok))
      else Ok)"

definition change_check :: "entry_rules \<Rightarrow> candidate \<Rightarrow> verdict" where
  "change_check e c =
     (let wantsChange = minChangeBps e \<noteq> None \<or> maxChangeBps e \<noteq> None in
      if wantsChange then
        (case changeBps c of None \<Rightarrow> Refused No_history
         | Some b \<Rightarrow> vthen
             (case minChangeBps e of None \<Rightarrow> Ok
                | Some m \<Rightarrow> if b < of_int m then Refused (Moved_low b m) else Ok)
             (case maxChangeBps e of None \<Rightarrow> Ok
                | Some m \<Rightarrow> if b > of_int m then Refused (Moved_high b m) else Ok))
      else Ok)"

definition named_check :: "bool option \<Rightarrow> bool option \<Rightarrow> refusal \<Rightarrow> verdict" where
  "named_check required has missing =
     (if required = Some True then
        (case has of None \<Rightarrow> Refused Metadata_unread
         | Some h \<Rightarrow> if \<not> h then Refused missing else Ok)
      else Ok)"

text \<open>A ceiling or a floor on a number that may not have been read.\<close>

definition most_check ::
  "int option \<Rightarrow> rat option \<Rightarrow> refusal \<Rightarrow> (rat \<Rightarrow> int \<Rightarrow> refusal) \<Rightarrow> verdict" where
  "most_check limit known unread over = (case limit of None \<Rightarrow> Ok
     | Some m \<Rightarrow> (case known of None \<Rightarrow> Refused unread
         | Some k \<Rightarrow> if k > of_int m then Refused (over k m) else Ok))"

definition least_check ::
  "int option \<Rightarrow> rat option \<Rightarrow> refusal \<Rightarrow> (rat \<Rightarrow> int \<Rightarrow> refusal) \<Rightarrow> verdict" where
  "least_check limit known unread short = (case limit of None \<Rightarrow> Ok
     | Some m \<Rightarrow> (case known of None \<Rightarrow> Refused unread
         | Some k \<Rightarrow> if k < of_int m then Refused (short k m) else Ok))"

definition matchesEntry :: "entry_rules \<Rightarrow> candidate \<Rightarrow> verdict" where
  "matchesEntry e c =
     vthen (venue_check e c)
     (vthen (age_check e c)
     (vthen (liquidity_check e c)
     (vthen (cap_check e c)
     (vthen (change_check e c)
     (vthen (named_check (requireTwitter e) (hasTwitter c) No_twitter)
     (vthen (named_check (requireWebsite e) (hasWebsite c) No_website)
     (vthen (most_check (maxCreatorLaunches e) (creatorLaunches c) Launches_unknown Launches_high)
     (vthen (most_check (maxCreatorHoldingBps e) (creatorHoldingBps c) Holding_unread Holding_high)
     (vthen (most_check (maxBundleBps e) (bundledBps c) Bundle_unread Bundle_high)
     (vthen (most_check (maxSocialReuse e) (socialReuse c) No_account Reuse_high)
     (least_check (minHolders e) (holders c) Holders_unread Holders_low)))))))))))"

definition needsCreatorHolding :: "entry_rules \<Rightarrow> bool" where
  "needsCreatorHolding e = (maxCreatorHoldingBps e \<noteq> None)"

definition needsBundle :: "entry_rules \<Rightarrow> bool" where
  "needsBundle e = (maxBundleBps e \<noteq> None)"

definition needsHolders :: "entry_rules \<Rightarrow> bool" where
  "needsHolders e = (minHolders e \<noteq> None)"

section \<open>Sizing by conviction\<close>

datatype limit_kind = Floor | Ceiling

definition ceilingMargin :: "rat \<Rightarrow> rat \<Rightarrow> rat option" where
  "ceilingMargin v limit = (if limit = 0 then None
     else Some (max 0 (min 1 (fl (fl (limit - v) / \<bar>limit\<bar>)))))"

definition floorMargin :: "rat \<Rightarrow> rat \<Rightarrow> rat option" where
  "floorMargin v limit = (if limit = 0 then None
     else Some (max 0 (min 1 (fl (fl (v - limit) / \<bar>limit\<bar>)))))"

text \<open>What one \<open>push\<close> adds to the list of margins.\<close>

definition pushed :: "rat option \<Rightarrow> rat option \<Rightarrow> limit_kind \<Rightarrow> rat list" where
  "pushed v limit kind = (case (v, limit) of
       (Some x, Some l) \<Rightarrow>
         (case (if kind = Ceiling then ceilingMargin x l else floorMargin x l) of
            Some m \<Rightarrow> [m] | None \<Rightarrow> [])
     | _ \<Rightarrow> [])"

definition num_opt :: "int option \<Rightarrow> rat option" where
  "num_opt = map_option (\<lambda>n. of_int (to_num n))"

definition margins :: "entry_rules \<Rightarrow> candidate \<Rightarrow> rat list" where
  "margins e c =
     pushed (Some (ageSeconds c)) (map_option of_int (maxAgeSeconds e)) Ceiling
   @ pushed (Some (ageSeconds c)) (map_option of_int (minAgeSeconds e)) Floor
   @ pushed (num_opt (liquidityLamports c)) (num_opt (minLiquidityLamports e)) Floor
   @ pushed (num_opt (marketCapLamports c)) (num_opt (maxMarketCapLamports e)) Ceiling
   @ pushed (num_opt (marketCapLamports c)) (num_opt (minMarketCapLamports e)) Floor
   @ pushed (changeBps c) (map_option of_int (maxChangeBps e)) Ceiling
   @ pushed (changeBps c) (map_option of_int (minChangeBps e)) Floor
   @ pushed (creatorLaunches c) (map_option of_int (maxCreatorLaunches e)) Ceiling
   @ pushed (creatorHoldingBps c) (map_option of_int (maxCreatorHoldingBps e)) Ceiling
   @ pushed (bundledBps c) (map_option of_int (maxBundleBps e)) Ceiling
   @ pushed (holders c) (map_option of_int (minHolders e)) Floor
   @ pushed (socialReuse c) (map_option of_int (maxSocialReuse e)) Ceiling"

datatype sizing_why = Same_size | No_margin | Floor_as_depth_unknown | Held_by_depth | Cleared

record sizing =
  lamports_of :: int
  confidence :: "rat option"
  why :: sizing_why

definition confidence_of :: "rat list \<Rightarrow> rat" where
  "confidence_of ms = fl (foldl (\<lambda>a b. fl (a + b)) 0 ms / of_nat (length ms))"

definition sizeFor :: "size_rules \<Rightarrow> entry_rules \<Rightarrow> candidate \<Rightarrow> sizing" where
  "sizeFor sz e c =
     (let full = stakeLamports sz in
      case minStakeLamports sz of
        None \<Rightarrow> \<lparr>lamports_of = full, confidence = None, why = Same_size\<rparr>
      | Some least \<Rightarrow>
        if least \<ge> full then \<lparr>lamports_of = full, confidence = None, why = Same_size\<rparr>
        else let ms = margins e c in
          if ms = [] then \<lparr>lamports_of = full, confidence = None, why = No_margin\<rparr>
          else
            let conf = confidence_of ms;
                scaled = least + math_round (fl (of_int (to_num (full - least)) * conf))
            in case liquidityLamports c of
                 None \<Rightarrow> \<lparr>lamports_of = least, confidence = Some conf, why = Floor_as_depth_unknown\<rparr>
               | Some depth \<Rightarrow>
                   let cap = (depth * DEPTH_CAP_BPS) sdiv 10000;
                       ceiling = (if cap > least then cap else least);
                       amount = (if scaled < ceiling then scaled else ceiling)
                   in \<lparr>lamports_of = amount, confidence = Some conf,
                       why = if amount < scaled then Held_by_depth else Cleared\<rparr>)"

section \<open>Reading rules\<close>

definition integer :: "json \<Rightarrow> int \<Rightarrow> int \<Rightarrow> int res" where
  "integer v low high = (case to_number v of
       None \<Rightarrow> Inl Strategy_error
     | Some x \<Rightarrow>
         rbind (ensure (of_int \<lfloor>x\<rfloor> = x) Strategy_error) (\<lambda>_.
         rbind (ensure (\<not> (\<lfloor>x\<rfloor> < low \<or> \<lfloor>x\<rfloor> > high)) Strategy_error) (\<lambda>_. Inr \<lfloor>x\<rfloor>)))"

definition lamports :: "json \<Rightarrow> int \<Rightarrow> int \<Rightarrow> int res" where
  "lamports v low high = (case to_bigint v of
       None \<Rightarrow> Inl Strategy_error
     | Some n \<Rightarrow> rbind (ensure (\<not> (n < low \<or> n > high)) Strategy_error) (\<lambda>_. Inr n))"

definition record_of :: "json \<Rightarrow> (string \<times> json) list res" where
  "record_of v = (case v of JObj ob \<Rightarrow> Inr ob | _ \<Rightarrow> Inl Strategy_error)"

definition present :: "(string \<times> json) list \<Rightarrow> string \<Rightarrow> bool" where
  "present ob k = (field ob k \<noteq> JUndefined \<and> field ob k \<noteq> JNull \<and> field ob k \<noteq> JStr [])"

text \<open>\<open>if (present(source, key)) result.key = read(source[key])\<close>.\<close>

definition optional :: "(json \<Rightarrow> 'a res) \<Rightarrow> (string \<times> json) list \<Rightarrow> string \<Rightarrow> 'a option res" where
  "optional rd ob k =
     (if present ob k then rbind (rd (field ob k)) (\<lambda>x. Inr (Some x)) else Inr None)"

text \<open>A floor and a ceiling that leave nothing between them.\<close>

definition crossed :: "int option \<Rightarrow> int option \<Rightarrow> bool" where
  "crossed lo hi = (case (lo, hi) of (Some a, Some b) \<Rightarrow> a > b | _ \<Rightarrow> False)"

definition read_venue :: "json \<Rightarrow> venue res" where
  "read_venue v = (case js_string v of
       None \<Rightarrow> Inl Strategy_error
     | Some s \<Rightarrow> if s = ''any'' then Inr Any else if s = ''curve'' then Inr Curve
         else if s = ''graduated'' then Inr Graduated else Inl Strategy_error)"

definition required :: "(string \<times> json) list \<Rightarrow> string \<Rightarrow> bool option" where
  "required ob k = (if field ob k = JBool True then Some True else None)"

definition parseEntry :: "(string \<times> json) list \<Rightarrow> entry_rules res" where
  "parseEntry ob =
     rbind (optional (\<lambda>v. integer v 0 MAX_AGE_SECONDS) ob ''minAgeSeconds'') (\<lambda>minAge.
     rbind (optional (\<lambda>v. integer v 0 MAX_AGE_SECONDS) ob ''maxAgeSeconds'') (\<lambda>maxAge.
     rbind (ensure (\<not> crossed minAge maxAge) Strategy_error) (\<lambda>_.
     rbind (optional (\<lambda>v. lamports v 0 100000000000000) ob ''minLiquidityLamports'') (\<lambda>minLiq.
     rbind (optional (\<lambda>v. lamports v 0 100000000000000) ob ''minMarketCapLamports'') (\<lambda>minCap.
     rbind (optional (\<lambda>v. lamports v 0 100000000000000) ob ''maxMarketCapLamports'') (\<lambda>maxCap.
     rbind (ensure (\<not> crossed minCap maxCap) Strategy_error) (\<lambda>_.
     rbind (optional (\<lambda>v. integer v (-10000) 1000000) ob ''minChangeBps'') (\<lambda>minChange.
     rbind (optional (\<lambda>v. integer v (-10000) 1000000) ob ''maxChangeBps'') (\<lambda>maxChange.
     rbind (ensure (\<not> crossed minChange maxChange) Strategy_error) (\<lambda>_.
     rbind (optional (\<lambda>v. integer v MIN_WINDOW_SECONDS MAX_WINDOW_SECONDS) ob ''changeWindowSeconds'') (\<lambda>window.
     rbind (ensure (\<not> ((minChange \<noteq> None \<or> maxChange \<noteq> None) \<and> window = None)) Strategy_error) (\<lambda>_.
     rbind (optional (\<lambda>v. integer v 1 1000) ob ''maxCreatorLaunches'') (\<lambda>launches.
     rbind (optional (\<lambda>v. integer v 0 10000) ob ''maxCreatorHoldingBps'') (\<lambda>holding.
     rbind (optional (\<lambda>v. integer v 0 10000) ob ''maxBundleBps'') (\<lambda>bundle.
     rbind (optional (\<lambda>v. integer v 1 10000) ob ''maxSocialReuse'') (\<lambda>reuse.
     rbind (optional (\<lambda>v. integer v 1 1000000) ob ''minHolders'') (\<lambda>least_holders.
     rbind (optional read_venue ob ''venue'') (\<lambda>ven.
     Inr \<lparr>minAgeSeconds = minAge, maxAgeSeconds = maxAge, minLiquidityLamports = minLiq,
          minMarketCapLamports = minCap, maxMarketCapLamports = maxCap,
          minChangeBps = minChange, maxChangeBps = maxChange, changeWindowSeconds = window,
          venue_rule = ven, requireTwitter = required ob ''requireTwitter'',
          requireWebsite = required ob ''requireWebsite'', maxCreatorLaunches = launches,
          maxCreatorHoldingBps = holding, maxBundleBps = bundle, minHolders = least_holders,
          maxSocialReuse = reuse\<rparr>))))))))))))))))))"

definition parseSize :: "(string \<times> json) list \<Rightarrow> size_rules res" where
  "parseSize ob =
     rbind (lamports (field ob ''stakeLamports'') MIN_STAKE_LAMPORTS MAX_STAKE_LAMPORTS) (\<lambda>stake.
     rbind (optional (\<lambda>v. lamports v MIN_STAKE_LAMPORTS MAX_STAKE_LAMPORTS) ob ''minStakeLamports'') (\<lambda>least.
     rbind (integer (field ob ''maxOpenPositions'') 1 MAX_OPEN_POSITIONS) (\<lambda>positions.
     rbind (ensure (\<not> (case least of Some m \<Rightarrow> m \<ge> stake | None \<Rightarrow> False)) Strategy_error) (\<lambda>_.
     Inr \<lparr>stakeLamports = stake, minStakeLamports = least, maxOpenPositions = positions\<rparr>))))"

definition parseExit :: "(string \<times> json) list \<Rightarrow> exit_rules res" where
  "parseExit ob =
     rbind (optional (\<lambda>v. integer v 1 MAX_TAKE_PROFIT_BPS) ob ''takeProfitBps'') (\<lambda>profit.
     rbind (optional (\<lambda>v. integer v 1 10000) ob ''stopLossBps'') (\<lambda>loss.
     rbind (optional (\<lambda>v. integer v MIN_TIMEOUT_SECONDS MAX_TIMEOUT_SECONDS) ob ''timeoutSeconds'') (\<lambda>timeout.
     rbind (ensure (\<not> (profit = None \<and> loss = None \<and> timeout = None)) Strategy_error) (\<lambda>_.
     Inr \<lparr>takeProfitBps = profit, stopLossBps = loss, timeoutSeconds = timeout\<rparr>))))"

definition parseStrategyRules :: "json \<Rightarrow> strategy_rules res" where
  "parseStrategyRules input =
     rbind (record_of input) (\<lambda>source.
     rbind (record_of (field source ''entry'')) (\<lambda>entrySource.
     rbind (record_of (field source ''size'')) (\<lambda>sizeSource.
     rbind (record_of (field source ''exit'')) (\<lambda>exitSource.
     rbind (parseEntry entrySource) (\<lambda>e.
     rbind (parseSize sizeSource) (\<lambda>s.
     rbind (parseExit exitSource) (\<lambda>x.
     Inr \<lparr>entry = e, size_of_rules = s, exit_of_rules = x\<rparr>)))))))"

section \<open>Storing rules\<close>

definition num_field :: "int option \<Rightarrow> json option" where
  "num_field = map_option (\<lambda>n. JNum (of_int n))"

definition big_field :: "int option \<Rightarrow> json option" where
  "big_field = map_option (\<lambda>n. JStr (show_int n))"

definition venue_name :: "venue \<Rightarrow> string" where
  "venue_name v = (case v of Any \<Rightarrow> ''any'' | Curve \<Rightarrow> ''curve'' | Graduated \<Rightarrow> ''graduated'')"

definition entry_fields :: "entry_rules \<Rightarrow> (string \<times> json option) list" where
  "entry_fields e =
     [(''minAgeSeconds'', num_field (minAgeSeconds e)),
      (''maxAgeSeconds'', num_field (maxAgeSeconds e)),
      (''minLiquidityLamports'', big_field (minLiquidityLamports e)),
      (''minMarketCapLamports'', big_field (minMarketCapLamports e)),
      (''maxMarketCapLamports'', big_field (maxMarketCapLamports e)),
      (''minChangeBps'', num_field (minChangeBps e)),
      (''maxChangeBps'', num_field (maxChangeBps e)),
      (''changeWindowSeconds'', num_field (changeWindowSeconds e)),
      (''requireTwitter'', map_option JBool (requireTwitter e)),
      (''requireWebsite'', map_option JBool (requireWebsite e)),
      (''maxCreatorLaunches'', num_field (maxCreatorLaunches e)),
      (''maxCreatorHoldingBps'', num_field (maxCreatorHoldingBps e)),
      (''maxBundleBps'', num_field (maxBundleBps e)),
      (''maxSocialReuse'', num_field (maxSocialReuse e)),
      (''minHolders'', num_field (minHolders e)),
      (''venue'', map_option (\<lambda>v. JStr (venue_name v)) (venue_rule e))]"

definition size_fields :: "size_rules \<Rightarrow> (string \<times> json option) list" where
  "size_fields s =
     [(''stakeLamports'', Some (JStr (show_int (stakeLamports s)))),
      (''minStakeLamports'', big_field (minStakeLamports s)),
      (''maxOpenPositions'', Some (JNum (of_int (maxOpenPositions s))))]"

definition exit_fields :: "exit_rules \<Rightarrow> (string \<times> json option) list" where
  "exit_fields x =
     [(''takeProfitBps'', num_field (takeProfitBps x)),
      (''stopLossBps'', num_field (stopLossBps x)),
      (''timeoutSeconds'', num_field (timeoutSeconds x))]"

definition serializeStrategyRules :: "strategy_rules \<Rightarrow> json" where
  "serializeStrategyRules r = JObj
     [(''entry'', JObj (present_fields (entry_fields (entry r)))),
      (''size'', JObj (present_fields (size_fields (size_of_rules r)))),
      (''exit'', JObj (present_fields (exit_fields (exit_of_rules r))))]"

text \<open>A stored text: \<open>None\<close> when \<open>JSON.parse\<close> throws on it, else the value it reads.\<close>

definition readStoredRules :: "json option \<Rightarrow> int \<Rightarrow> strategy_rules res" where
  "readStoredRules stored version =
     rbind (ensure (version = RULES_VERSION) Strategy_error) (\<lambda>_.
     case stored of None \<Rightarrow> Inl Strategy_error | Some v \<Rightarrow> parseStrategyRules v)"

section \<open>What the conditions say\<close>

definition at_least :: "'a::order option \<Rightarrow> 'a option \<Rightarrow> bool" where
  "at_least limit known = (\<forall>m. limit = Some m \<longrightarrow> (\<exists>k. known = Some k \<and> m \<le> k))"

definition at_most :: "'a::order option \<Rightarrow> 'a option \<Rightarrow> bool" where
  "at_most limit known = (\<forall>m. limit = Some m \<longrightarrow> (\<exists>k. known = Some k \<and> k \<le> m))"

lemma at_least_simps [simp]:
  "at_least None kn" "at_least (Some m) None \<longleftrightarrow> False" "at_least (Some m) (Some k) \<longleftrightarrow> m \<le> k"
  by (auto simp: at_least_def)

lemma at_most_simps [simp]:
  "at_most None kn" "at_most (Some m) None \<longleftrightarrow> False" "at_most (Some m) (Some k) \<longleftrightarrow> k \<le> m"
  by (auto simp: at_most_def)

abbreviation rats :: "int option \<Rightarrow> rat option" where
  "rats \<equiv> map_option of_int"

text \<open>Every condition that is set is known to hold of the candidate.\<close>

definition meets :: "entry_rules \<Rightarrow> candidate \<Rightarrow> bool" where
  "meets e c \<longleftrightarrow>
     (venue_rule e = Some Curve \<longrightarrow> \<not> graduated c) \<and> (venue_rule e = Some Graduated \<longrightarrow> graduated c)
   \<and> at_least (rats (minAgeSeconds e)) (Some (ageSeconds c)) \<and> at_most (rats (maxAgeSeconds e)) (Some (ageSeconds c))
   \<and> at_least (minLiquidityLamports e) (liquidityLamports c)
   \<and> at_least (minMarketCapLamports e) (marketCapLamports c) \<and> at_most (maxMarketCapLamports e) (marketCapLamports c)
   \<and> at_least (rats (minChangeBps e)) (changeBps c) \<and> at_most (rats (maxChangeBps e)) (changeBps c)
   \<and> (requireTwitter e = Some True \<longrightarrow> hasTwitter c = Some True)
   \<and> (requireWebsite e = Some True \<longrightarrow> hasWebsite c = Some True)
   \<and> at_most (rats (maxCreatorLaunches e)) (creatorLaunches c)
   \<and> at_most (rats (maxCreatorHoldingBps e)) (creatorHoldingBps c)
   \<and> at_most (rats (maxBundleBps e)) (bundledBps c)
   \<and> at_most (rats (maxSocialReuse e)) (socialReuse c)
   \<and> at_least (rats (minHolders e)) (holders c)"

lemma vthen_Ok [simp]: "vthen v w = Ok \<longleftrightarrow> v = Ok \<and> w = Ok"
  by (cases v) (simp_all add: vthen_def)

lemma vthen_Refused [simp]: "vthen v w = Refused r \<longleftrightarrow> v = Refused r \<or> (v = Ok \<and> w = Refused r)"
  by (cases v) (auto simp: vthen_def)

lemma most_check_Ok [simp]: "most_check limit known u ov = Ok \<longleftrightarrow> at_most (rats limit) known"
  by (cases limit; cases known) (simp_all add: most_check_def not_less)

lemma least_check_Ok [simp]: "least_check limit known u sh = Ok \<longleftrightarrow> at_least (rats limit) known"
  by (cases limit; cases known) (simp_all add: least_check_def not_less)

lemma named_check_Ok [simp]:
  "named_check rq has m = Ok \<longleftrightarrow> (rq = Some True \<longrightarrow> has = Some True)"
  by (cases has) (auto simp: named_check_def)

lemma venue_check_Ok [simp]:
  "venue_check e c = Ok \<longleftrightarrow> (venue_rule e = Some Curve \<longrightarrow> \<not> graduated c)
     \<and> (venue_rule e = Some Graduated \<longrightarrow> graduated c)"
  by (auto simp: venue_check_def)

lemma age_check_Ok [simp]:
  "age_check e c = Ok \<longleftrightarrow> at_least (rats (minAgeSeconds e)) (Some (ageSeconds c))
     \<and> at_most (rats (maxAgeSeconds e)) (Some (ageSeconds c))"
  by (cases "minAgeSeconds e"; cases "maxAgeSeconds e") (simp_all add: age_check_def not_less)

lemma liquidity_check_Ok [simp]:
  "liquidity_check e c = Ok \<longleftrightarrow> at_least (minLiquidityLamports e) (liquidityLamports c)"
  by (cases "minLiquidityLamports e"; cases "liquidityLamports c") (simp_all add: liquidity_check_def)

lemma cap_check_Ok [simp]:
  "cap_check e c = Ok \<longleftrightarrow> at_least (minMarketCapLamports e) (marketCapLamports c)
     \<and> at_most (maxMarketCapLamports e) (marketCapLamports c)"
  by (cases "minMarketCapLamports e"; cases "maxMarketCapLamports e"; cases "marketCapLamports c")
    (simp_all add: cap_check_def not_less)

lemma change_check_Ok [simp]:
  "change_check e c = Ok \<longleftrightarrow> at_least (rats (minChangeBps e)) (changeBps c)
     \<and> at_most (rats (maxChangeBps e)) (changeBps c)"
  by (cases "minChangeBps e"; cases "maxChangeBps e"; cases "changeBps c")
    (simp_all add: change_check_def not_less)

text \<open>A reason is true: the fact it names is the candidate's, and it breaks the rule's limit.\<close>

fun true_reason :: "entry_rules \<Rightarrow> candidate \<Rightarrow> refusal \<Rightarrow> bool" where
  "true_reason e c Has_graduated = (venue_rule e = Some Curve \<and> graduated c)"
| "true_reason e c Still_on_curve = (venue_rule e = Some Graduated \<and> \<not> graduated c)"
| "true_reason e c (Too_young a m) = (minAgeSeconds e = Some m \<and> ageSeconds c = a \<and> a < of_int m)"
| "true_reason e c (Too_old a m) = (maxAgeSeconds e = Some m \<and> ageSeconds c = a \<and> of_int m < a)"
| "true_reason e c Depth_unknown = (minLiquidityLamports e \<noteq> None \<and> liquidityLamports c = None)"
| "true_reason e c (Depth_low l m) = (minLiquidityLamports e = Some m \<and> liquidityLamports c = Some l \<and> l < m)"
| "true_reason e c Cap_unknown = ((minMarketCapLamports e \<noteq> None \<or> maxMarketCapLamports e \<noteq> None)
     \<and> marketCapLamports c = None)"
| "true_reason e c (Cap_low k m) = (minMarketCapLamports e = Some m \<and> marketCapLamports c = Some k \<and> k < m)"
| "true_reason e c (Cap_high k m) = (maxMarketCapLamports e = Some m \<and> marketCapLamports c = Some k \<and> m < k)"
| "true_reason e c No_history = ((minChangeBps e \<noteq> None \<or> maxChangeBps e \<noteq> None) \<and> changeBps c = None)"
| "true_reason e c (Moved_low b m) = (minChangeBps e = Some m \<and> changeBps c = Some b \<and> b < of_int m)"
| "true_reason e c (Moved_high b m) = (maxChangeBps e = Some m \<and> changeBps c = Some b \<and> of_int m < b)"
| "true_reason e c Metadata_unread = ((requireTwitter e = Some True \<and> hasTwitter c = None)
     \<or> (requireWebsite e = Some True \<and> hasWebsite c = None))"
| "true_reason e c No_twitter = (requireTwitter e = Some True \<and> hasTwitter c = Some False)"
| "true_reason e c No_website = (requireWebsite e = Some True \<and> hasWebsite c = Some False)"
| "true_reason e c Launches_unknown = (maxCreatorLaunches e \<noteq> None \<and> creatorLaunches c = None)"
| "true_reason e c (Launches_high k m) = (maxCreatorLaunches e = Some m \<and> creatorLaunches c = Some k \<and> of_int m < k)"
| "true_reason e c Holding_unread = (maxCreatorHoldingBps e \<noteq> None \<and> creatorHoldingBps c = None)"
| "true_reason e c (Holding_high k m) = (maxCreatorHoldingBps e = Some m \<and> creatorHoldingBps c = Some k \<and> of_int m < k)"
| "true_reason e c Bundle_unread = (maxBundleBps e \<noteq> None \<and> bundledBps c = None)"
| "true_reason e c (Bundle_high k m) = (maxBundleBps e = Some m \<and> bundledBps c = Some k \<and> of_int m < k)"
| "true_reason e c No_account = (maxSocialReuse e \<noteq> None \<and> socialReuse c = None)"
| "true_reason e c (Reuse_high k m) = (maxSocialReuse e = Some m \<and> socialReuse c = Some k \<and> of_int m < k)"
| "true_reason e c Holders_unread = (minHolders e \<noteq> None \<and> holders c = None)"
| "true_reason e c (Holders_low k m) = (minHolders e = Some m \<and> holders c = Some k \<and> k < of_int m)"

lemma most_check_Refused:
  "most_check limit known u ov = Refused r \<longleftrightarrow>
     (limit \<noteq> None \<and> known = None \<and> r = u) \<or> (\<exists>m k. limit = Some m \<and> known = Some k \<and> of_int m < k \<and> r = ov k m)"
  by (cases limit; cases known) (auto simp: most_check_def)

lemma least_check_Refused:
  "least_check limit known u sh = Refused r \<longleftrightarrow>
     (limit \<noteq> None \<and> known = None \<and> r = u) \<or> (\<exists>m k. limit = Some m \<and> known = Some k \<and> k < of_int m \<and> r = sh k m)"
  by (cases limit; cases known) (auto simp: least_check_def)

lemma named_check_Refused:
  "named_check rq has u = Refused r \<longleftrightarrow> rq = Some True
     \<and> ((has = None \<and> r = Metadata_unread) \<or> (has = Some False \<and> r = u))"
  by (cases has) (auto simp: named_check_def)

lemma venue_check_reason: "venue_check e c = Refused r \<Longrightarrow> true_reason e c r"
  by (auto simp: venue_check_def split: if_splits)

lemma age_check_reason: "age_check e c = Refused r \<Longrightarrow> true_reason e c r"
  by (auto simp: age_check_def split: if_splits option.splits)

lemma liquidity_check_reason: "liquidity_check e c = Refused r \<Longrightarrow> true_reason e c r"
  by (auto simp: liquidity_check_def split: if_splits option.splits)

lemma cap_check_reason: "cap_check e c = Refused r \<Longrightarrow> true_reason e c r"
  by (auto simp: cap_check_def split: if_splits option.splits)

lemma change_check_reason: "change_check e c = Refused r \<Longrightarrow> true_reason e c r"
  by (auto simp: change_check_def Let_def split: if_splits option.splits)

lemma matchesEntry_Ok: "matchesEntry e c = Ok \<longleftrightarrow> meets e c"
  unfolding matchesEntry_def meets_def by (simp only: vthen_Ok most_check_Ok least_check_Ok
    named_check_Ok venue_check_Ok age_check_Ok liquidity_check_Ok cap_check_Ok change_check_Ok conj_assoc)

lemma matchesEntry_reason:
  assumes "matchesEntry e c = Refused r"
  shows "true_reason e c r"
proof -
  consider "venue_check e c = Refused r" | "age_check e c = Refused r" | "liquidity_check e c = Refused r"
    | "cap_check e c = Refused r" | "change_check e c = Refused r"
    | "named_check (requireTwitter e) (hasTwitter c) No_twitter = Refused r"
    | "named_check (requireWebsite e) (hasWebsite c) No_website = Refused r"
    | "most_check (maxCreatorLaunches e) (creatorLaunches c) Launches_unknown Launches_high = Refused r"
    | "most_check (maxCreatorHoldingBps e) (creatorHoldingBps c) Holding_unread Holding_high = Refused r"
    | "most_check (maxBundleBps e) (bundledBps c) Bundle_unread Bundle_high = Refused r"
    | "most_check (maxSocialReuse e) (socialReuse c) No_account Reuse_high = Refused r"
    | "least_check (minHolders e) (holders c) Holders_unread Holders_low = Refused r"
    using assms unfolding matchesEntry_def vthen_Refused by blast
  then show ?thesis
    by cases (auto simp: named_check_Refused most_check_Refused least_check_Refused
      dest: venue_check_reason age_check_reason liquidity_check_reason cap_check_reason change_check_reason)
qed

section \<open>What the validator guarantees\<close>

definition in_range :: "int \<Rightarrow> int \<Rightarrow> int option \<Rightarrow> bool" where
  "in_range lo hi v \<longleftrightarrow> (case v of None \<Rightarrow> True | Some n \<Rightarrow> lo \<le> n \<and> n \<le> hi)"

definition valid_entry :: "entry_rules \<Rightarrow> bool" where
  "valid_entry e \<longleftrightarrow>
     in_range 0 MAX_AGE_SECONDS (minAgeSeconds e) \<and> in_range 0 MAX_AGE_SECONDS (maxAgeSeconds e)
   \<and> \<not> crossed (minAgeSeconds e) (maxAgeSeconds e)
   \<and> in_range 0 100000000000000 (minLiquidityLamports e)
   \<and> in_range 0 100000000000000 (minMarketCapLamports e) \<and> in_range 0 100000000000000 (maxMarketCapLamports e)
   \<and> \<not> crossed (minMarketCapLamports e) (maxMarketCapLamports e)
   \<and> in_range (-10000) 1000000 (minChangeBps e) \<and> in_range (-10000) 1000000 (maxChangeBps e)
   \<and> \<not> crossed (minChangeBps e) (maxChangeBps e)
   \<and> in_range MIN_WINDOW_SECONDS MAX_WINDOW_SECONDS (changeWindowSeconds e)
   \<and> \<not> ((minChangeBps e \<noteq> None \<or> maxChangeBps e \<noteq> None) \<and> changeWindowSeconds e = None)
   \<and> requireTwitter e \<noteq> Some False \<and> requireWebsite e \<noteq> Some False
   \<and> in_range 1 1000 (maxCreatorLaunches e) \<and> in_range 0 10000 (maxCreatorHoldingBps e)
   \<and> in_range 0 10000 (maxBundleBps e) \<and> in_range 1 10000 (maxSocialReuse e)
   \<and> in_range 1 1000000 (minHolders e)"

definition valid_size :: "size_rules \<Rightarrow> bool" where
  "valid_size s \<longleftrightarrow> MIN_STAKE_LAMPORTS \<le> stakeLamports s \<and> stakeLamports s \<le> MAX_STAKE_LAMPORTS
   \<and> in_range MIN_STAKE_LAMPORTS (stakeLamports s - 1) (minStakeLamports s)
   \<and> 1 \<le> maxOpenPositions s \<and> maxOpenPositions s \<le> MAX_OPEN_POSITIONS"

definition valid_exit :: "exit_rules \<Rightarrow> bool" where
  "valid_exit x \<longleftrightarrow> in_range 1 MAX_TAKE_PROFIT_BPS (takeProfitBps x) \<and> in_range 1 10000 (stopLossBps x)
   \<and> in_range MIN_TIMEOUT_SECONDS MAX_TIMEOUT_SECONDS (timeoutSeconds x)
   \<and> \<not> (takeProfitBps x = None \<and> stopLossBps x = None \<and> timeoutSeconds x = None)"

definition valid_rules :: "strategy_rules \<Rightarrow> bool" where
  "valid_rules r \<longleftrightarrow> valid_entry (entry r) \<and> valid_size (size_of_rules r) \<and> valid_exit (exit_of_rules r)"

lemma in_range_simps [simp]: "in_range lo hi None" "in_range lo hi (Some n) \<longleftrightarrow> lo \<le> n \<and> n \<le> hi"
  by (simp_all add: in_range_def)

lemma integer_Inr: "integer v lo hi = Inr n \<Longrightarrow> lo \<le> n \<and> n \<le> hi"
  by (auto simp: integer_def split: option.splits)

lemma lamports_Inr: "lamports v lo hi = Inr n \<Longrightarrow> lo \<le> n \<and> n \<le> hi"
  by (auto simp: lamports_def split: option.splits)

lemma optional_integer: "optional (\<lambda>v. integer v lo hi) ob k = Inr x \<Longrightarrow> in_range lo hi x"
  by (auto simp: optional_def split: if_splits dest: integer_Inr)

lemma optional_lamports: "optional (\<lambda>v. lamports v lo hi) ob k = Inr x \<Longrightarrow> in_range lo hi x"
  by (auto simp: optional_def split: if_splits dest: lamports_Inr)

lemma required_not_False: "required ob k \<noteq> Some False"
  by (simp add: required_def)

lemma parseEntry_valid: "parseEntry ob = Inr e \<Longrightarrow> valid_entry e"
  unfolding parseEntry_def rbind_eq_Inr ensure_eq_Inr valid_entry_def
  apply (elim exE conjE)
  apply (drule sum.inject(2) [THEN iffD1, THEN sym])
  apply hypsubst
  apply (simp (no_asm) only: entry_rules.simps)
  apply (intro conjI)
  apply (erule optional_integer optional_lamports required_not_False | assumption | rule required_not_False)+
  done

lemma parseSize_valid: "parseSize ob = Inr s \<Longrightarrow> valid_size s"
  unfolding parseSize_def rbind_eq_Inr ensure_eq_Inr valid_size_def
  by (elim exE conjE) (auto simp: in_range_def dest!: optional_lamports integer_Inr lamports_Inr split: option.splits)

lemma parseExit_valid: "parseExit ob = Inr x \<Longrightarrow> valid_exit x"
  unfolding parseExit_def rbind_eq_Inr ensure_eq_Inr valid_exit_def
  by (elim exE conjE) (auto dest!: optional_integer)

lemma parse_valid: "parseStrategyRules v = Inr r \<Longrightarrow> valid_rules r"
  unfolding parseStrategyRules_def rbind_eq_Inr valid_rules_def
  by (elim exE conjE) (auto dest: parseEntry_valid parseSize_valid parseExit_valid)

section \<open>Storing and reading back\<close>

lemma integer_of_int: "lo \<le> n \<Longrightarrow> n \<le> hi \<Longrightarrow> integer (JNum (of_int n)) lo hi = Inr n"
  by (simp add: integer_def)

lemma lamports_show: "0 \<le> n \<Longrightarrow> lo \<le> n \<Longrightarrow> n \<le> hi \<Longrightarrow> lamports (JStr (show_int n)) lo hi = Inr n"
  by (simp add: lamports_def)

text \<open>Reading an optional field of an object that was written from optional values.\<close>

definition stored :: "(string \<times> json option) list \<Rightarrow> string \<Rightarrow> json option" where
  "stored kvs k = (case map_of kvs k of Some w \<Rightarrow> w | None \<Rightarrow> None)"

lemma field_stored:
  "distinct (map fst kvs) \<Longrightarrow>
     field (present_fields kvs) k = (case stored kvs k of Some v \<Rightarrow> v | None \<Rightarrow> JUndefined)"
  by (simp add: field_present stored_def split: option.split)

lemma show_int_not_Nil [simp]: "show_int n \<noteq> []"
  by (simp add: show_int_def)

lemma optional_stored_num:
  assumes "distinct (map fst kvs)" "stored kvs k = num_field x" "in_range lo hi x"
  shows "optional (\<lambda>v. integer v lo hi) (present_fields kvs) k = Inr x"
  using assms by (cases x) (simp_all add: optional_def present_def field_stored num_field_def integer_of_int)

lemma optional_stored_big:
  assumes "distinct (map fst kvs)" "stored kvs k = big_field x" "in_range lo hi x" "0 \<le> lo"
  shows "optional (\<lambda>v. lamports v lo hi) (present_fields kvs) k = Inr x"
  using assms by (cases x) (simp_all add: optional_def present_def field_stored big_field_def lamports_show)

lemma optional_stored_venue:
  assumes "distinct (map fst kvs)" "stored kvs k = map_option (\<lambda>v. JStr (venue_name v)) x"
  shows "optional read_venue (present_fields kvs) k = Inr x"
proof (cases x)
  case (Some v)
  then show ?thesis using assms
    by (cases v) (simp_all add: optional_def present_def field_stored read_venue_def venue_name_def)
qed (use assms in \<open>simp add: optional_def present_def field_stored\<close>)

lemma required_stored:
  assumes "distinct (map fst kvs)" "stored kvs k = map_option JBool x" "x \<noteq> Some False"
  shows "required (present_fields kvs) k = x"
  using assms by (cases x) (simp_all add: required_def field_stored)

lemma entry_fields_distinct: "distinct (map fst (entry_fields e))"
  by (simp add: entry_fields_def)

lemma entry_stored:
  "stored (entry_fields e) ''minAgeSeconds'' = num_field (minAgeSeconds e)"
  "stored (entry_fields e) ''maxAgeSeconds'' = num_field (maxAgeSeconds e)"
  "stored (entry_fields e) ''minLiquidityLamports'' = big_field (minLiquidityLamports e)"
  "stored (entry_fields e) ''minMarketCapLamports'' = big_field (minMarketCapLamports e)"
  "stored (entry_fields e) ''maxMarketCapLamports'' = big_field (maxMarketCapLamports e)"
  "stored (entry_fields e) ''minChangeBps'' = num_field (minChangeBps e)"
  "stored (entry_fields e) ''maxChangeBps'' = num_field (maxChangeBps e)"
  "stored (entry_fields e) ''changeWindowSeconds'' = num_field (changeWindowSeconds e)"
  "stored (entry_fields e) ''requireTwitter'' = map_option JBool (requireTwitter e)"
  "stored (entry_fields e) ''requireWebsite'' = map_option JBool (requireWebsite e)"
  "stored (entry_fields e) ''maxCreatorLaunches'' = num_field (maxCreatorLaunches e)"
  "stored (entry_fields e) ''maxCreatorHoldingBps'' = num_field (maxCreatorHoldingBps e)"
  "stored (entry_fields e) ''maxBundleBps'' = num_field (maxBundleBps e)"
  "stored (entry_fields e) ''maxSocialReuse'' = num_field (maxSocialReuse e)"
  "stored (entry_fields e) ''minHolders'' = num_field (minHolders e)"
  "stored (entry_fields e) ''venue'' = map_option (\<lambda>v. JStr (venue_name v)) (venue_rule e)"
  by (simp_all add: stored_def entry_fields_def)

lemma parseEntry_stored:
  assumes "valid_entry e"
  shows "parseEntry (present_fields (entry_fields e)) = Inr e"
proof -
  note d = entry_fields_distinct [of e]
  note v = assms [unfolded valid_entry_def]
  note num = optional_stored_num [OF d] and big = optional_stored_big [OF d]
  note reads = num [OF entry_stored(1)] num [OF entry_stored(2)] big [OF entry_stored(3)]
    big [OF entry_stored(4)] big [OF entry_stored(5)] num [OF entry_stored(6)] num [OF entry_stored(7)]
    num [OF entry_stored(8)] num [OF entry_stored(11)] num [OF entry_stored(12)]
    num [OF entry_stored(13)] num [OF entry_stored(14)] num [OF entry_stored(15)]
  show ?thesis
    unfolding parseEntry_def
    using v by (simp add: reads optional_stored_venue [OF d entry_stored(16)]
      required_stored [OF d entry_stored(9)] required_stored [OF d entry_stored(10)])
qed

lemma parseSize_stored:
  assumes "valid_size s"
  shows "parseSize (present_fields (size_fields s)) = Inr s"
proof -
  have d: "distinct (map fst (size_fields s))" by (simp add: size_fields_def)
  have st: "stored (size_fields s) ''stakeLamports'' = Some (JStr (show_int (stakeLamports s)))"
    "stored (size_fields s) ''minStakeLamports'' = big_field (minStakeLamports s)"
    "stored (size_fields s) ''maxOpenPositions'' = Some (JNum (of_int (maxOpenPositions s)))"
    by (simp_all add: stored_def size_fields_def)
  note v = assms [unfolded valid_size_def]
  have w: "in_range MIN_STAKE_LAMPORTS MAX_STAKE_LAMPORTS (minStakeLamports s)"
    using v by (cases "minStakeLamports s") auto
  have n: "\<not> (case minStakeLamports s of None \<Rightarrow> False | Some m \<Rightarrow> stakeLamports s \<le> m)"
    using v by (cases "minStakeLamports s") auto
  have pos: "0 \<le> stakeLamports s" using v by (simp add: MIN_STAKE_LAMPORTS_def)
  have big: "optional (\<lambda>v. lamports v MIN_STAKE_LAMPORTS MAX_STAKE_LAMPORTS)
      (present_fields (size_fields s)) ''minStakeLamports'' = Inr (minStakeLamports s)"
    by (rule optional_stored_big [OF d st(2) w]) (simp add: MIN_STAKE_LAMPORTS_def)
  show ?thesis
    unfolding parseSize_def using v n
    by (simp add: field_stored [OF d] st big lamports_show integer_of_int pos)
qed

lemma parseExit_stored:
  assumes "valid_exit x"
  shows "parseExit (present_fields (exit_fields x)) = Inr x"
proof -
  have d: "distinct (map fst (exit_fields x))" by (simp add: exit_fields_def)
  have st: "stored (exit_fields x) ''takeProfitBps'' = num_field (takeProfitBps x)"
    "stored (exit_fields x) ''stopLossBps'' = num_field (stopLossBps x)"
    "stored (exit_fields x) ''timeoutSeconds'' = num_field (timeoutSeconds x)"
    by (simp_all add: stored_def exit_fields_def)
  note v = assms [unfolded valid_exit_def]
  show ?thesis unfolding parseExit_def
    using v by (simp add: st [THEN optional_stored_num [OF d]])
qed

section \<open>Bounds of a size\<close>

definition unit_interval :: "rat \<Rightarrow> bool" where
  "unit_interval m \<longleftrightarrow> 0 \<le> m \<and> m \<le> 1"

lemma pushed_unit: "list_all unit_interval (pushed v l k)"
  by (auto simp: pushed_def ceilingMargin_def floorMargin_def unit_interval_def split: option.splits if_splits)

lemma length_pushed: "length (pushed v l k) \<le> 1"
  by (auto simp: pushed_def split: option.splits)

lemma margins_unit: "list_all unit_interval (margins e c)"
  unfolding margins_def by (simp add: pushed_unit)

lemma length_margins: "length (margins e c) \<le> 12"
proof -
  have app: "length xs \<le> n \<Longrightarrow> length (pushed v l k @ xs) \<le> 1 + n" for v l k xs n
    using length_pushed [of v l k] by simp
  have "length (margins e c) \<le> 1 + (1 + (1 + (1 + (1 + (1 + (1 + (1 + (1 + (1 + (1 + 1))))))))))"
    unfolding margins_def by (intro app length_pushed)
  then show ?thesis by simp
qed

lemma sum_unit_upper:
  assumes "list_all unit_interval ms" "a \<le> of_int k" "0 \<le> k" "k + int (length ms) \<le> 2 ^ 53"
  shows "foldl (\<lambda>a b. fl (a + b)) a ms \<le> of_int (k + int (length ms))"
  using assms
proof (induction ms arbitrary: a k)
  case (Cons m ms)
  have "a + m \<le> of_int (k + 1)" using Cons.prems by (simp add: unit_interval_def)
  then have "fl (a + m) \<le> of_int (k + 1)" using Cons.prems by (intro fl_le_int) simp_all
  then have "foldl (\<lambda>a b. fl (a + b)) (fl (a + m)) ms \<le> of_int (k + 1 + int (length ms))"
    using Cons.prems by (intro Cons.IH) simp_all
  then show ?case by (simp add: algebra_simps)
qed simp

lemma sum_unit_lower:
  "list_all unit_interval ms \<Longrightarrow> 0 \<le> a \<Longrightarrow> 0 \<le> foldl (\<lambda>a b. fl (a + b)) a ms"
  by (induction ms arbitrary: a) (simp_all add: unit_interval_def fl_nonneg)

lemma confidence_unit:
  assumes "list_all unit_interval ms" "ms \<noteq> []" "int (length ms) \<le> 2 ^ 53"
  shows "unit_interval (confidence_of ms)"
proof -
  let ?s = "foldl (\<lambda>a b. fl (a + b)) 0 ms"
  have "?s \<le> of_int (int (length ms))" using sum_unit_upper [of ms 0 0] assms by simp
  then have "?s / of_nat (length ms) \<le> 1" using assms by (simp add: divide_le_eq_1)
  moreover have "0 \<le> ?s / of_nat (length ms)" using sum_unit_lower [of ms 0] assms by simp
  ultimately show ?thesis by (simp add: confidence_of_def unit_interval_def fl_le_1 fl_nonneg)
qed

lemma margins_confidence: "margins e c \<noteq> [] \<Longrightarrow> unit_interval (confidence_of (margins e c))"
  using length_margins [of e c] by (intro confidence_unit margins_unit) simp_all

lemma scaled_bounds:
  assumes "0 \<le> n" "n \<le> 2 ^ 53" "unit_interval k"
  shows "0 \<le> math_round (fl (of_int (to_num n) * k)) \<and> math_round (fl (of_int (to_num n) * k)) \<le> n"
proof -
  have n: "to_num n = n" using assms by (intro to_num_exact) simp
  have "of_int n * k \<le> of_int n" "0 \<le> of_int n * k"
    using assms by (simp_all add: unit_interval_def mult_left_le)
  then have "fl (of_int n * k) \<le> of_int n" "of_int 0 \<le> fl (of_int n * k)"
    using assms by (simp_all add: fl_le_int fl_nonneg)
  then show ?thesis unfolding n by (intro conjI math_round_le_int math_round_ge_int)
qed

definition sized_within :: "size_rules \<Rightarrow> candidate \<Rightarrow> sizing \<Rightarrow> bool" where
  "sized_within sz c s \<longleftrightarrow>
     lamports_of s \<le> stakeLamports sz
   \<and> (\<forall>k. confidence s = Some k \<longrightarrow> unit_interval k)
   \<and> (confidence s = None \<longrightarrow> lamports_of s = stakeLamports sz)
   \<and> (\<forall>least. minStakeLamports sz = Some least \<longrightarrow> least \<le> lamports_of s)
   \<and> (\<forall>least. minStakeLamports sz = Some least \<and> confidence s \<noteq> None \<longrightarrow>
        (case liquidityLamports c of None \<Rightarrow> lamports_of s = least
         | Some depth \<Rightarrow> lamports_of s \<le> max least (depth * 200 sdiv 10000)))"

lemma sizeFor_within:
  assumes v: "valid_size sz"
  shows "sized_within sz c (sizeFor sz e c)"
proof (cases "minStakeLamports sz")
  case None
  then show ?thesis by (simp add: sizeFor_def sized_within_def)
next
  case (Some least)
  let ?n = "stakeLamports sz - least" and ?k = "confidence_of (margins e c)"
  have b: "0 \<le> ?n" "least < stakeLamports sz" "?n \<le> 2 ^ 53"
    using v Some by (simp_all add: valid_size_def strategy_consts)
  show ?thesis
  proof (cases "margins e c = []")
    case True
    then show ?thesis using Some b by (simp add: sizeFor_def sized_within_def)
  next
    case False
    note u = margins_confidence [OF False]
    note s = scaled_bounds [OF b(1,3) u]
    show ?thesis
    proof (cases "liquidityLamports c")
      case None
      then show ?thesis using Some b u False by (simp add: sizeFor_def sized_within_def)
    next
      case (Some depth)
      then show ?thesis using \<open>minStakeLamports sz = Some least\<close> b u False s
        by (simp add: sizeFor_def sized_within_def Let_def DEPTH_CAP_BPS_def)
    qed
  qed
qed

section \<open>Properties\<close>

text \<open>
  a strategy enters a token exactly when every condition that is set is known to hold of
  it. A fact that is not known meets no condition, whatever the limit.
\<close>

theorem entry_needs_every_condition:
  "matchesEntry e c = Ok \<longleftrightarrow> meets e c"
  by (rule matchesEntry_Ok)

text \<open>
  a refusal tells the truth. The reason given names a condition that is set, quotes the
  candidate's own figure and the rule's own limit, and the figure breaks the limit (or is
  not known); so the token does not meet the rules.
\<close>

theorem refusal_is_true:
  assumes "matchesEntry e c = Refused r"
  shows "true_reason e c r \<and> \<not> meets e c"
  using matchesEntry_reason [OF assms] assms matchesEntry_Ok [of e c] by simp

definition no_entry :: entry_rules where
  "no_entry = \<lparr>minAgeSeconds = None, maxAgeSeconds = None, minLiquidityLamports = None,
     minMarketCapLamports = None, maxMarketCapLamports = None, minChangeBps = None,
     maxChangeBps = None, changeWindowSeconds = None, venue_rule = None, requireTwitter = None,
     requireWebsite = None, maxCreatorLaunches = None, maxCreatorHoldingBps = None,
     maxBundleBps = None, minHolders = None, maxSocialReuse = None\<rparr>"

definition unknown_token :: candidate where
  "unknown_token = \<lparr>c_mint = ''mint'', ageSeconds = 60, liquidityLamports = None,
     marketCapLamports = None, changeBps = None, graduated = False, hasTwitter = None,
     hasWebsite = None, creatorLaunches = Some 3, creatorHoldingBps = None, bundledBps = None,
     holders = None, socialReuse = None\<rparr>"

theorem refusal_is_true_witness:
  "true_reason (no_entry\<lparr>maxCreatorLaunches := Some 2\<rparr>) unknown_token (Launches_high 3 2)"
  using refusal_is_true [of "no_entry\<lparr>maxCreatorLaunches := Some 2\<rparr>" unknown_token "Launches_high 3 2"]
  by (simp add: matchesEntry_def no_entry_def unknown_token_def venue_check_def age_check_def
      liquidity_check_def cap_check_def change_check_def named_check_def most_check_def vthen_def)

text \<open>
  C39: no input gets past the validator with a rule outside its limits. Whatever value is
  read, the rules that come out are in range, have floors below their ceilings, a window for
  every move condition, a smallest stake below the largest, and at least one way out.
\<close>

theorem parsed_rules_are_valid:
  assumes "parseStrategyRules v = Inr r"
  shows "valid_rules r"
  using assms by (rule parse_valid)

definition sample_rules :: strategy_rules where
  "sample_rules = \<lparr>entry = no_entry\<lparr>minHolders := Some 25, venue_rule := Some Curve\<rparr>,
     size_of_rules = \<lparr>stakeLamports = 500000000, minStakeLamports = Some 100000000, maxOpenPositions = 3\<rparr>,
     exit_of_rules = \<lparr>takeProfitBps = Some 5000, stopLossBps = Some 2000, timeoutSeconds = None\<rparr>\<rparr>"

lemma valid_sample: "valid_rules sample_rules"
  by (simp add: valid_rules_def sample_rules_def valid_entry_def valid_size_def valid_exit_def
      no_entry_def strategy_consts crossed_def)

lemma parse_stored:
  assumes "valid_rules r"
  shows "parseStrategyRules (serializeStrategyRules r) = Inr r"
  using assms unfolding valid_rules_def
  by (simp add: parseStrategyRules_def serializeStrategyRules_def record_of_def field_def
      parseEntry_stored parseSize_stored parseExit_stored)

theorem parsed_rules_are_valid_witness:
  "\<exists>v. parseStrategyRules v = Inr sample_rules \<and> valid_rules sample_rules"
  using parsed_rules_are_valid [OF parse_stored [OF valid_sample]] parse_stored [OF valid_sample] by blast

text \<open>
  C40: rules survive storage. Valid rules written to the database and read back are the same
  rules, and rules stored under any other version are refused.
\<close>

theorem stored_rules_read_back:
  assumes "valid_rules r"
  shows "readStoredRules (Some (serializeStrategyRules r)) version
    = (if version = RULES_VERSION then Inr r else Inl Strategy_error)"
  using parse_stored [OF assms] by (simp add: readStoredRules_def ensure_def)

theorem stored_rules_read_back_witness:
  "readStoredRules (Some (serializeStrategyRules sample_rules)) 1 = Inr sample_rules
    \<and> readStoredRules (Some (serializeStrategyRules sample_rules)) 2 = Inl Strategy_error"
  using stored_rules_read_back [OF valid_sample] by (simp add: RULES_VERSION_def)

text \<open>
  sizing by conviction never stakes more than the trader's ceiling, never less than their
  floor, keeps its confidence between nought and one, and once a score moved the size at all,
  never stakes more than 2% of the pool's depth (or the floor, whichever is larger); where the
  depth is not known it stakes the floor. All of it in double arithmetic, rounding included.
\<close>

theorem size_stays_in_bounds:
  assumes "valid_rules r"
  shows "sized_within (size_of_rules r) c (sizeFor (size_of_rules r) (entry r) c)"
  using assms by (intro sizeFor_within) (simp add: valid_rules_def)

theorem size_stays_in_bounds_witness:
  "lamports_of (sizeFor (size_of_rules sample_rules) (entry sample_rules) unknown_token) \<le> 500000000"
  using size_stays_in_bounds [OF valid_sample, of unknown_token]
  by (simp add: sized_within_def sample_rules_def)

end
