(* ===== verification/Backtest.thy ===== *)
theory Backtest
  imports Strategy Execution Contracts
begin

text \<open>
  The back test of an exit rule over the recorded swaps of a token
  (packages/sim/src/backtest.ts). Times are whole seconds; every exit is a sell the engine
  would quote out of the pool as a real swap left it.
\<close>

record replay_point =
  point_mint :: string
  point_at :: int
  solAfter :: int
  tokenAfter :: int

record rule =
  stake :: int
  rule_takeProfitBps :: "int option"
  rule_stopLossBps :: "int option"
  rule_timeoutSeconds :: "int option"
  entryDelaySeconds :: "int option"

record backtest_options =
  option_fees :: fee_schedule
  option_decimals :: "int option"
  option_maxImpactBps :: "int option"

datatype exit_reason = Fired exit_trigger | Still_open | Illiquid | No_entry

record backtest_leg =
  leg_at :: int
  isBuy :: bool
  leg_sol :: int
  leg_tokens :: int
  leg_fee :: int
  leg_impactBps :: int
  leg_partial :: bool

record backtest_result =
  entered :: bool
  reason :: exit_reason
  entry_leg :: "backtest_leg option"
  exit_leg :: "backtest_leg option"
  result_stake :: int
  proceeds :: "int option"
  result_returnBps :: "int option"
  result_heldSeconds :: int
  feesPaid :: int
  worstBps :: "int option"
  bestBps :: "int option"
  onChartBps :: "int option"
  steps :: nat

definition poolAt :: "replay_point \<Rightarrow> backtest_options \<Rightarrow> pool_state" where
  "poolAt point op =
     \<lparr>mint = point_mint point, solReserve = solAfter point, tokenReserve = tokenAfter point,
      deliverableTokens = tokenAfter point,
      tokenDecimals = (case option_decimals op of Some d \<Rightarrow> d | None \<Rightarrow> 6),
      fees = option_fees op, source = Pumpswap, slot = 0\<rparr>"

text \<open>A \<open>catch\<close> that turns a refusal of the engine into \<open>null\<close> and throws the rest again.\<close>

definition caught :: "'a res \<Rightarrow> 'a option res" where
  "caught m = (case m of Inr x \<Rightarrow> Inr (Some x) | Inl (Quote_error _) \<Rightarrow> Inr None | Inl e \<Rightarrow> Inl e)"

record exit_quote =
  xq_sol :: int
  xq_fee :: int
  xq_impactBps :: int
  xq_partial :: bool

definition exitQuote :: "pool_state \<Rightarrow> int \<Rightarrow> int \<Rightarrow> exit_quote option res" where
  "exitQuote pool tokens maxImpactBps =
     (if tokens \<le> 0 then Inr None
      else rbind (caught (quoteSell pool tokens)) (\<lambda>r. case r of
          None \<Rightarrow> Inr None
        | Some q \<Rightarrow>
            if priceImpactBps q > maxImpactBps then Inr None
            else Inr (Some \<lparr>xq_sol = solAmount q, xq_fee = feeLamports q,
                            xq_impactBps = priceImpactBps q, xq_partial = partial q\<rparr>)))"

definition bpsAgainst :: "int \<Rightarrow> int \<Rightarrow> int" where
  "bpsAgainst v cost = (if cost \<le> 0 then 0 else to_num (((v - cost) * 10000) sdiv cost))"

definition mid :: "pool_state \<Rightarrow> int" where
  "mid pool = (if tokenReserve pool = 0 then 0
     else (solReserve pool * 1000000000) sdiv tokenReserve pool)"

section \<open>The run\<close>

definition leg_of :: "int \<Rightarrow> quote \<Rightarrow> backtest_leg" where
  "leg_of t q = \<lparr>leg_at = t, isBuy = True, leg_sol = solAmount q, leg_tokens = tokenAmount q,
     leg_fee = feeLamports q, leg_impactBps = priceImpactBps q, leg_partial = partial q\<rparr>"

definition exit_of :: "int \<Rightarrow> int \<Rightarrow> exit_quote \<Rightarrow> backtest_leg" where
  "exit_of t held v = \<lparr>leg_at = t, isBuy = False, leg_sol = xq_sol v, leg_tokens = held,
     leg_fee = xq_fee v, leg_impactBps = xq_impactBps v, leg_partial = xq_partial v\<rparr>"

text \<open>The first point at or after the delay at which the stake can really be placed.\<close>

fun find_entry :: "rule \<Rightarrow> backtest_options \<Rightarrow> int \<Rightarrow> int \<Rightarrow> replay_point list
    \<Rightarrow> (backtest_leg \<times> pool_state \<times> replay_point list) option res" where
  "find_entry rl op maxI opensAt [] = Inr None"
| "find_entry rl op maxI opensAt (p # ps) =
     (if point_at p < opensAt then find_entry rl op maxI opensAt ps
      else let pool = poolAt p op in
        rbind (caught (quoteBuy pool (stake rl))) (\<lambda>r. case r of
            None \<Rightarrow> find_entry rl op maxI opensAt ps
          | Some q \<Rightarrow>
              if tokenAmount q \<le> 0 then find_entry rl op maxI opensAt ps
              else if priceImpactBps q > maxI then find_entry rl op maxI opensAt ps
              else Inr (Some (leg_of (point_at p) q, pool, ps))))"

record walk_state =
  w_worst :: "int option"
  w_best :: "int option"
  w_pool :: pool_state
  w_exit :: "(exit_trigger \<times> backtest_leg) option"

text \<open>The rule as it is handed to the shared decision: the deadline minus the entry.\<close>

definition rule_exit :: "rule \<Rightarrow> backtest_leg \<Rightarrow> exit_rules" where
  "rule_exit rl en =
     (let deadline = map_option (\<lambda>t. leg_at en + t) (rule_timeoutSeconds rl) in
      \<lparr>takeProfitBps = rule_takeProfitBps rl, stopLossBps = rule_stopLossBps rl,
       timeoutSeconds = map_option (\<lambda>d. d - leg_at en) deadline\<rparr>)"

definition lower :: "int option \<Rightarrow> int \<Rightarrow> int option" where
  "lower o1 m = (case o1 of None \<Rightarrow> Some m | Some w \<Rightarrow> if m < w then Some m else Some w)"

definition higher :: "int option \<Rightarrow> int \<Rightarrow> int option" where
  "higher o1 m = (case o1 of None \<Rightarrow> Some m | Some b \<Rightarrow> if m > b then Some m else Some b)"

fun walk :: "rule \<Rightarrow> backtest_options \<Rightarrow> int \<Rightarrow> backtest_leg \<Rightarrow> walk_state \<Rightarrow> replay_point list
    \<Rightarrow> walk_state res" where
  "walk rl op maxI en st [] = Inr st"
| "walk rl op maxI en st (p # ps) =
     (let pool = poolAt p op; st1 = st\<lparr>w_pool := pool\<rparr> in
      rbind (exitQuote pool (leg_tokens en) maxI) (\<lambda>available. case available of
          None \<Rightarrow> walk rl op maxI en st1 ps
        | Some v \<Rightarrow>
            let moved = bpsAgainst (xq_sol v) (leg_sol en);
                st2 = st1\<lparr>w_worst := lower (w_worst st1) moved, w_best := higher (w_best st1) moved\<rparr>
            in case exitDecision (rule_exit rl en) moved (of_int (point_at p - leg_at en)) of
                 None \<Rightarrow> walk rl op maxI en st2 ps
               | Some t \<Rightarrow> Inr (st2\<lparr>w_exit := Some (t, exit_of (point_at p) (leg_tokens en) v)\<rparr>)))"

definition empty_result :: "rule \<Rightarrow> nat \<Rightarrow> backtest_result" where
  "empty_result rl n = \<lparr>entered = False, reason = No_entry, entry_leg = None, exit_leg = None,
     result_stake = stake rl, proceeds = None, result_returnBps = None, result_heldSeconds = 0,
     feesPaid = 0, worstBps = None, bestBps = None, onChartBps = None, steps = n\<rparr>"

definition closing_result ::
  "rule \<Rightarrow> replay_point list \<Rightarrow> backtest_leg \<Rightarrow> pool_state \<Rightarrow> walk_state \<Rightarrow> exit_quote option \<Rightarrow> backtest_result" where
  "closing_result rl points en entryPool st stuck =
     (let ex = map_option snd (w_exit st);
          got = (case ex of Some x \<Rightarrow> Some (leg_sol x) | None \<Rightarrow> map_option xq_sol stuck);
          endAt = (case ex of Some x \<Rightarrow> leg_at x | None \<Rightarrow> point_at (last points));
          entryMid = mid entryPool; endMid = mid (w_pool st)
      in \<lparr>entered = True,
          reason = (if got = None then Illiquid
                    else case w_exit st of Some (t, _) \<Rightarrow> Fired t | None \<Rightarrow> Still_open),
          entry_leg = Some en, exit_leg = ex, result_stake = stake rl, proceeds = got,
          result_returnBps = map_option (\<lambda>g. bpsAgainst g (leg_sol en)) got,
          result_heldSeconds = max 0 (endAt - leg_at en),
          feesPaid = leg_fee en + (case ex of Some x \<Rightarrow> leg_fee x
                       | None \<Rightarrow> (case stuck of Some v \<Rightarrow> xq_fee v | None \<Rightarrow> 0)),
          worstBps = w_worst st, bestBps = w_best st,
          onChartBps = (if entryMid = 0 \<or> endMid = 0 then None
                        else Some (to_num (((endMid - entryMid) * 10000) sdiv entryMid))),
          steps = length points\<rparr>)"

definition backtestRule :: "replay_point list \<Rightarrow> rule \<Rightarrow> backtest_options \<Rightarrow> backtest_result res" where
  "backtestRule unordered rl op =
     (let maxI = (case option_maxImpactBps op of Some m \<Rightarrow> m | None \<Rightarrow> maxPriceImpactBps DEFAULT_RULES);
          points = js_sort (\<lambda>l r. point_at l - point_at r) unordered in
      if points = [] \<or> stake rl \<le> 0 then Inr (empty_result rl (length points))
      else
        let opensAt = point_at (hd points) + (case entryDelaySeconds rl of Some d \<Rightarrow> d | None \<Rightarrow> 0) in
        rbind (find_entry rl op maxI opensAt points) (\<lambda>found. case found of
            None \<Rightarrow> Inr (empty_result rl (length points))
          | Some (en, entryPool, rest) \<Rightarrow>
              rbind (exitQuote entryPool (leg_tokens en) maxI) (\<lambda>openedAt.
              let opening = map_option (\<lambda>v. bpsAgainst (xq_sol v) (leg_sol en)) openedAt in
              rbind (walk rl op maxI en
                      \<lparr>w_worst = opening, w_best = opening, w_pool = entryPool, w_exit = None\<rparr> rest) (\<lambda>st.
              rbind (if w_exit st \<noteq> None then Inr None
                     else exitQuote (w_pool st) (leg_tokens en) maxI) (\<lambda>stuck.
              Inr (closing_result rl points en entryPool st stuck))))))"

section \<open>The points in time order\<close>

interpretation by_time: linear_comparator "\<lambda>l r. point_at l - point_at r" point_at
  by unfold_locales auto

lemma closing_simps [simp]:
  "entry_leg (closing_result rl ps en pool st stuck) = Some en"
  "exit_leg (closing_result rl ps en pool st stuck) = map_option snd (w_exit st)"
  "worstBps (closing_result rl ps en pool st stuck) = w_worst st"
  "bestBps (closing_result rl ps en pool st stuck) = w_best st"
  by (simp_all add: closing_result_def Let_def)

lemma closing_fired:
  assumes "w_exit st = Some (t, leg)"
  shows "reason (closing_result rl ps en pool st stuck) = Fired t"
    "result_returnBps (closing_result rl ps en pool st stuck) = Some (bpsAgainst (leg_sol leg) (leg_sol en))"
  using assms by (simp_all add: closing_result_def Let_def)

lemma closing_held:
  assumes "w_exit st = None"
  shows "reason (closing_result rl ps en pool st stuck) \<noteq> Fired t"
    "result_returnBps (closing_result rl ps en pool st stuck)
      = map_option (\<lambda>v. bpsAgainst (xq_sol v) (leg_sol en)) stuck"
  using assms by (cases stuck, simp_all add: closing_result_def Let_def)+

section \<open>Nothing throws\<close>

definition ok_point :: "replay_point \<Rightarrow> bool" where
  "ok_point p \<longleftrightarrow> 0 \<le> solAfter p \<and> 0 \<le> tokenAfter p"

definition ok_options :: "backtest_options \<Rightarrow> bool" where
  "ok_options op \<longleftrightarrow> wf_fees (option_fees op)"

lemma wf_poolAt [simp]: "ok_options op \<Longrightarrow> ok_point p \<Longrightarrow> wf_pool (poolAt p op)"
  by (simp add: ok_options_def ok_point_def poolAt_def wf_pool_def)

lemma caught_total:
  "(\<And>e. m = Inl e \<Longrightarrow> \<exists>c. e = Quote_error c) \<Longrightarrow> \<exists>r. caught m = Inr r"
  by (cases m) (auto simp: caught_def)

lemma caught_Some [simp]: "caught m = Inr (Some x) \<longleftrightarrow> m = Inr x"
  by (cases m) (auto simp: caught_def split: error.splits)

lemma quoteBuy_caught: "wf_pool p \<Longrightarrow> \<exists>r. caught (quoteBuy p n) = Inr r"
  using engine.only_quote_errors [of p Buy n] by (intro caught_total) (simp add: quote_side_def)

lemma quoteSell_caught: "wf_pool p \<Longrightarrow> \<exists>r. caught (quoteSell p n) = Inr r"
  using engine.only_quote_errors [of p Sell n] by (intro caught_total) (simp add: quote_side_def)

lemma exitQuote_total: "wf_pool p \<Longrightarrow> \<exists>r. exitQuote p t m = Inr r"
proof -
  assume "wf_pool p"
  then obtain r where r: "caught (quoteSell p t) = Inr r" using quoteSell_caught by blast
  show ?thesis by (cases r) (simp_all add: exitQuote_def r)
qed

lemma exitQuote_SomeD:
  assumes "exitQuote p t m = Inr (Some v)"
  shows "\<exists>q. quoteSell p t = Inr q \<and> priceImpactBps q \<le> m \<and> xq_sol v = solAmount q
    \<and> xq_fee v = feeLamports q \<and> xq_impactBps v = priceImpactBps q"
  using assms by (auto simp: exitQuote_def split: option.splits if_splits)

lemma find_entry_total:
  assumes "ok_options op" "list_all ok_point ps"
  shows "\<exists>r. find_entry rl op m o1 ps = Inr r"
  using assms(2)
proof (induction ps)
  case (Cons p ps)
  then have "wf_pool (poolAt p op)" using assms(1) by simp
  then obtain r where "caught (quoteBuy (poolAt p op) (stake rl)) = Inr r"
    using quoteBuy_caught by blast
  with Cons show ?case by (auto simp: Let_def split: option.split)
qed simp

lemma walk_total:
  assumes "ok_options op" "list_all ok_point ps"
  shows "\<exists>r. walk rl op m en st ps = Inr r"
  using assms(2)
proof (induction ps arbitrary: st)
  case (Cons p ps)
  then have "wf_pool (poolAt p op)" using assms(1) by simp
  then obtain r where "exitQuote (poolAt p op) (leg_tokens en) m = Inr r"
    using exitQuote_total by blast
  with Cons show ?case by (auto simp: Let_def split: option.split)
qed simp

lemma walk_pool:
  assumes "walk rl op m en st ps = Inr st'"
  shows "w_pool st' = w_pool st \<or> (\<exists>p \<in> set ps. w_pool st' = poolAt p op)"
  using assms
proof (induction ps arbitrary: st)
  case (Cons p ps)
  then show ?case by (fastforce simp: Let_def split: option.splits)
qed simp

section \<open>The walk\<close>

text \<open>What the rule does at a point: which trigger fires, and on which quoted exit.\<close>

definition fires_at :: "rule \<Rightarrow> backtest_options \<Rightarrow> int \<Rightarrow> backtest_leg \<Rightarrow> replay_point
    \<Rightarrow> (exit_trigger \<times> exit_quote) option" where
  "fires_at rl op m en p = (case exitQuote (poolAt p op) (leg_tokens en) m of
       Inr (Some v) \<Rightarrow> map_option (\<lambda>t. (t, v))
         (exitDecision (rule_exit rl en) (bpsAgainst (xq_sol v) (leg_sol en)) (of_int (point_at p - leg_at en)))
     | _ \<Rightarrow> None)"

lemma walk_fired:
  assumes "walk rl op m en st ps = Inr st'" "w_exit st = None"
  shows "case w_exit st' of
      None \<Rightarrow> list_all (\<lambda>p. fires_at rl op m en p = None) ps
    | Some (t, leg) \<Rightarrow> \<exists>pre p post v. ps = pre @ p # post \<and> list_all (\<lambda>p. fires_at rl op m en p = None) pre
        \<and> fires_at rl op m en p = Some (t, v) \<and> leg = exit_of (point_at p) (leg_tokens en) v"
  using assms
proof (induction ps arbitrary: st)
  case Nil
  then show ?case by simp
next
  case (Cons p ps)
  show ?case
  proof (cases "fires_at rl op m en p")
    case None
    obtain st1 where s: "walk rl op m en st1 ps = Inr st'" and x: "w_exit st1 = None"
      using Cons.prems None by (auto simp: Let_def fires_at_def split: option.splits)
    show ?thesis
    proof (cases "w_exit st'")
      case (Some tl)
      then obtain t leg where tl: "w_exit st' = Some (t, leg)" by (cases tl) auto
      obtain pre q post v where "ps = pre @ q # post" "list_all (\<lambda>p. fires_at rl op m en p = None) pre"
        "fires_at rl op m en q = Some (t, v)" "leg = exit_of (point_at q) (leg_tokens en) v"
        using Cons.IH [OF s x] tl by auto
      then show ?thesis using None tl by (auto intro!: exI [of _ "p # pre"])
    qed (use Cons.IH [OF s x] None in simp)
  next
    case (Some tv)
    then obtain v t where v: "exitQuote (poolAt p op) (leg_tokens en) m = Inr (Some v)" "tv = (t, v)"
      and d: "exitDecision (rule_exit rl en) (bpsAgainst (xq_sol v) (leg_sol en))
        (of_int (point_at p - leg_at en)) = Some t"
      by (auto simp: fires_at_def split: sum.splits option.splits)
    have "w_exit st' = Some (t, exit_of (point_at p) (leg_tokens en) v)"
      using Cons.prems v d by (auto simp: Let_def)
    then show ?thesis using Some v by (auto intro!: exI [of _ "[]"])
  qed
qed

text \<open>
  What the walk keeps: the quote the pool at hand gives, if it gives one, lies between the
  worst and the best seen.
\<close>

definition spanned :: "int \<Rightarrow> int option \<Rightarrow> int option \<Rightarrow> bool" where
  "spanned x lo hi \<longleftrightarrow> (\<exists>w b. lo = Some w \<and> hi = Some b \<and> w \<le> x \<and> x \<le> b)"

definition seen :: "int \<Rightarrow> backtest_leg \<Rightarrow> walk_state \<Rightarrow> bool" where
  "seen m en st \<longleftrightarrow> (w_worst st = None \<longleftrightarrow> w_best st = None)
     \<and> (\<forall>v. exitQuote (w_pool st) (leg_tokens en) m = Inr (Some v) \<longrightarrow>
          spanned (bpsAgainst (xq_sol v) (leg_sol en)) (w_worst st) (w_best st))
     \<and> (\<forall>t leg. w_exit st = Some (t, leg) \<longrightarrow>
          spanned (bpsAgainst (leg_sol leg) (leg_sol en)) (w_worst st) (w_best st))"

lemma spanned_step: "(lo = None \<longleftrightarrow> hi = None) \<Longrightarrow> spanned x (lower lo x) (higher hi x)"
  by (cases lo; cases hi) (auto simp: spanned_def lower_def higher_def)

lemma lower_higher_None: "lower lo x = None \<longleftrightarrow> False" "higher hi x = None \<longleftrightarrow> False"
  by (auto simp: lower_def higher_def split: option.splits)

lemma lower_le: "lo = Some w \<Longrightarrow> \<exists>w'. lower lo x = Some w' \<and> w' \<le> w"
  by (auto simp: lower_def)

lemma walk_seen:
  assumes "walk rl op m en st ps = Inr st'" "seen m en st" "w_exit st = None"
  shows "seen m en st' \<and> (\<forall>w. w_worst st = Some w \<longrightarrow> (\<exists>w'. w_worst st' = Some w' \<and> w' \<le> w))"
  using assms
proof (induction ps arbitrary: st)
  case Nil
  then show ?case by simp
next
  case (Cons p ps)
  let ?st1 = "st\<lparr>w_pool := poolAt p op\<rparr>"
  obtain r where r: "exitQuote (poolAt p op) (leg_tokens en) m = Inr r"
    using Cons.prems(1) by (auto simp: Let_def)
  show ?case
  proof (cases r)
    case None
    then have "walk rl op m en ?st1 ps = Inr st'" using Cons.prems(1) r by (simp add: Let_def)
    moreover have "seen m en ?st1" using Cons.prems r None by (auto simp: seen_def)
    ultimately show ?thesis using Cons.IH [of ?st1] Cons.prems by simp
  next
    case (Some v)
    let ?x = "bpsAgainst (xq_sol v) (leg_sol en)"
    let ?st2 = "?st1\<lparr>w_worst := lower (w_worst st) ?x, w_best := higher (w_best st) ?x\<rparr>"
    have sp: "spanned ?x (lower (w_worst st) ?x) (higher (w_best st) ?x)"
      using Cons.prems(2) by (intro spanned_step) (simp add: seen_def)
    have s2: "seen m en ?st2" using sp r Some Cons.prems(3) by (simp add: seen_def lower_higher_None)
    have low: "w_worst st = Some w \<Longrightarrow> \<exists>w'. w_worst ?st2 = Some w' \<and> w' \<le> w" for w
      using lower_le [of "w_worst st" w ?x] by simp
    show ?thesis
    proof (cases "exitDecision (rule_exit rl en) ?x (of_int (point_at p - leg_at en))")
      case None
      then have "walk rl op m en ?st2 ps = Inr st'" using Cons.prems(1) r Some by (simp add: Let_def)
      from Cons.IH [OF this s2] Cons.prems(3) low show ?thesis by (fastforce intro: order_trans)
    next
      case (Some t)
      then have "st' = ?st2\<lparr>w_exit := Some (t, exit_of (point_at p) (leg_tokens en) v)\<rparr>"
        using Cons.prems(1) r \<open>r = Some v\<close> by (simp add: Let_def)
      then show ?thesis using s2 sp low by (auto simp: seen_def exit_of_def)
    qed
  qed
qed

section \<open>The whole run, taken apart\<close>

lemma find_entry_SomeD:
  assumes "find_entry rl op m o1 ps = Inr (Some (en, pool, rest))"
  shows "\<exists>pre p q. ps = pre @ p # rest \<and> pool = poolAt p op \<and> quoteBuy pool (stake rl) = Inr q
    \<and> en = leg_of (point_at p) q \<and> priceImpactBps q \<le> m \<and> o1 \<le> point_at p"
  using assms
proof (induction ps)
  case (Cons p ps)
  show ?case
  proof (cases "find_entry rl op m o1 ps = Inr (Some (en, pool, rest))")
    case True
    with Cons.IH obtain pre p' q where "ps = pre @ p' # rest" "pool = poolAt p' op"
      "quoteBuy pool (stake rl) = Inr q" "en = leg_of (point_at p') q" "priceImpactBps q \<le> m"
      "o1 \<le> point_at p'" by blast
    then show ?thesis by (intro exI [of _ "p # pre"]) auto
  next
    case False
    with Cons.prems obtain q where "\<not> point_at p < o1" "caught (quoteBuy (poolAt p op) (stake rl)) = Inr (Some q)"
      "\<not> priceImpactBps q > m" "en = leg_of (point_at p) q" "pool = poolAt p op" "rest = ps"
      by (auto simp: Let_def split: if_splits option.splits)
    then show ?thesis by (intro exI [of _ "[]"]) auto
  qed
qed simp

definition cap_of :: "backtest_options \<Rightarrow> int" where
  "cap_of op = (case option_maxImpactBps op of Some m \<Rightarrow> m | None \<Rightarrow> maxPriceImpactBps DEFAULT_RULES)"

definition in_time :: "replay_point list \<Rightarrow> replay_point list" where
  "in_time ps = js_sort (\<lambda>l r. point_at l - point_at r) ps"

lemma backtestRule_InrE:
  assumes "backtestRule ps rl op = Inr res"
  obtains (never) "res = empty_result rl (length ps)"
  | (run) pre p q en rest opened st stuck where
      "in_time ps = pre @ p # rest" "quoteBuy (poolAt p op) (stake rl) = Inr q" "en = leg_of (point_at p) q"
      "exitQuote (poolAt p op) (leg_tokens en) (cap_of op) = Inr opened"
      "walk rl op (cap_of op) en
        \<lparr>w_worst = map_option (\<lambda>v. bpsAgainst (xq_sol v) (leg_sol en)) opened,
         w_best = map_option (\<lambda>v. bpsAgainst (xq_sol v) (leg_sol en)) opened,
         w_pool = poolAt p op, w_exit = None\<rparr> rest = Inr st"
      "w_exit st = None \<Longrightarrow> exitQuote (w_pool st) (leg_tokens en) (cap_of op) = Inr stuck"
      "w_exit st \<noteq> None \<Longrightarrow> stuck = None"
      "res = closing_result rl (in_time ps) en (poolAt p op) st stuck"
proof -
  let ?o = "point_at (hd (in_time ps)) + (case entryDelaySeconds rl of Some d \<Rightarrow> d | None \<Rightarrow> 0)"
  note eq = assms [unfolded backtestRule_def Let_def, folded cap_of_def in_time_def]
  show thesis
  proof (cases "in_time ps = [] \<or> stake rl \<le> 0")
    case True
    with eq show thesis by (intro never) (simp add: in_time_def)
  next
    case False
    with eq obtain found where f: "find_entry rl op (cap_of op) ?o (in_time ps) = Inr found" by auto
    show thesis
    proof (cases found)
      case None
      with eq False f show thesis by (intro never) (simp add: in_time_def)
    next
      case (Some x)
      obtain en pool rest where x: "x = (en, pool, rest)" by (cases x) auto
      obtain pre p q where "in_time ps = pre @ p # rest" and pool: "pool = poolAt p op"
        and "quoteBuy pool (stake rl) = Inr q" "en = leg_of (point_at p) q"
        using find_entry_SomeD f Some x by metis
      moreover obtain opened st stuck where "exitQuote pool (leg_tokens en) (cap_of op) = Inr opened"
        "walk rl op (cap_of op) en
          \<lparr>w_worst = map_option (\<lambda>v. bpsAgainst (xq_sol v) (leg_sol en)) opened,
           w_best = map_option (\<lambda>v. bpsAgainst (xq_sol v) (leg_sol en)) opened,
           w_pool = pool, w_exit = None\<rparr> rest = Inr st"
        and s: "(if w_exit st \<noteq> None then Inr None else exitQuote (w_pool st) (leg_tokens en) (cap_of op)) = Inr stuck"
        and "res = closing_result rl (in_time ps) en pool st stuck"
        using eq False f Some x by (simp only: if_False rbind_Inr option.case prod.case rbind_eq_Inr sum.inject) metis
      moreover have "w_exit st = None \<Longrightarrow> exitQuote (w_pool st) (leg_tokens en) (cap_of op) = Inr stuck"
        "w_exit st \<noteq> None \<Longrightarrow> stuck = None" using s by simp_all
      ultimately show thesis by (intro run) simp_all
    qed
  qed
qed

lemma bpsAgainst_nonpos: "v \<le> cost \<Longrightarrow> bpsAgainst v cost \<le> 0"
  by (simp add: bpsAgainst_def to_num_le_iff sdiv_nonpos_le)

lemma opening_start: "seen m en \<lparr>w_worst = map_option (\<lambda>v. bpsAgainst (xq_sol v) (leg_sol en)) opened,
    w_best = map_option (\<lambda>v. bpsAgainst (xq_sol v) (leg_sol en)) opened, w_pool = pool, w_exit = None\<rparr>"
  if "exitQuote pool (leg_tokens en) m = Inr opened"
  using that by (auto simp: seen_def spanned_def)

text \<open>The tokens of a buy, sold into the pool as it stood before the buy.\<close>

lemma sold_back_less:
  assumes b: "quoteBuy p x = Inr q" and wf: "wf_pool p" and s: "quoteSell p (tokenAmount q) = Inr q'"
  shows "solAmount q' < solAmount q"
proof -
  let ?a = "solAmount q - feeLamports q" and ?t = "tokenAmount q"
  note c = quoteBuy_contract [OF b wf, unfolded buy_contract_def]
  note c' = quoteSell_contract [OF s wf, unfolded sell_contract_def]
  have "?t * solReserve p \<le> ?a * (tokenReserve p - ?t)"
    using buy_product [OF b wf] by (simp add: algebra_simps)
  also have "\<dots> \<le> ?a * (tokenReserve p + ?t)" using c by (intro mult_left_mono) simp_all
  finally have "?t * solReserve p div (tokenReserve p + ?t) \<le> ?a * (tokenReserve p + ?t) div (tokenReserve p + ?t)"
    using c by (intro zdiv_mono1) simp_all
  then have "sell_gross p ?t \<le> ?a" using c by (simp add: sell_gross_def)
  then show ?thesis using c c' by linarith
qed

lemma opened_nonpos:
  assumes "quoteBuy pool x = Inr q" "wf_pool pool" "exitQuote pool (tokenAmount q) m = Inr (Some v)"
  shows "bpsAgainst (xq_sol v) (solAmount q) \<le> 0"
proof -
  obtain q' where "quoteSell pool (tokenAmount q) = Inr q'" "xq_sol v = solAmount q'"
    using exitQuote_SomeD [OF assms(3)] by blast
  with sold_back_less [OF assms(1,2)] show ?thesis by (simp add: bpsAgainst_nonpos less_imp_le)
qed

section \<open>Properties\<close>

text \<open>A run over three swaps, for the witnesses: the price doubles and the profit is taken.\<close>

definition sample_point :: "int \<Rightarrow> int \<Rightarrow> int \<Rightarrow> replay_point" where
  "sample_point t s k = \<lparr>point_mint = ''mint'', point_at = t, solAfter = s, tokenAfter = k\<rparr>"

definition sample_points :: "replay_point list" where
  "sample_points = [sample_point 200 60000000000 536500000000000,
     sample_point 0 30000000000 1073000000000000, sample_point 90 31000000000 1038387096774193]"

definition sample_rule :: rule where
  "sample_rule = \<lparr>stake = 1000000000, rule_takeProfitBps = Some 5000, rule_stopLossBps = Some 2000,
     rule_timeoutSeconds = None, entryDelaySeconds = None\<rparr>"

definition sample_options :: backtest_options where
  "sample_options = \<lparr>option_fees = \<lparr>protocolBps = 95, creatorBps = 30, lpBps = 0\<rparr>,
     option_decimals = None, option_maxImpactBps = Some 2000\<rparr>"

definition sample_run :: "backtest_result option" where
  "sample_run = (case backtestRule sample_points sample_rule sample_options of
     Inl _ \<Rightarrow> None | Inr r \<Rightarrow> Some r)"

lemma sample_run_fires:
  "map_option (\<lambda>r. (reason r, entry_leg r = None)) sample_run = Some (Fired Take_profit, False)"
  by code_simp

lemma sample_run_Inr: obtains res en where
  "backtestRule sample_points sample_rule sample_options = Inr res" "reason res = Fired Take_profit"
  "entry_leg res = Some en"
  using sample_run_fires that
  by (cases "backtestRule sample_points sample_rule sample_options") (auto simp: sample_run_def)

lemma sample_ok: "ok_options sample_options" "list_all ok_point sample_points"
  by (simp_all add: ok_options_def sample_options_def wf_fees_def sample_points_def sample_point_def ok_point_def)

lemma in_time_ok: "list_all ok_point ps \<Longrightarrow> list_all ok_point (in_time ps)"
  by (simp add: in_time_def list_all_iff)

text \<open>
  a back test always answers. On pools whose reserves are not negative it never throws:
  every refusal of the engine is a moment the rule could not act on.
\<close>

theorem backtest_total:
  assumes "ok_options op" "list_all ok_point ps"
  shows "\<exists>res. backtestRule ps rl op = Inr res"
proof -
  let ?ps = "in_time ps"
  let ?o = "point_at (hd ?ps) + (case entryDelaySeconds rl of Some d \<Rightarrow> d | None \<Rightarrow> 0)"
  note ok = in_time_ok [OF assms(2)]
  obtain found where f: "find_entry rl op (cap_of op) ?o ?ps = Inr found"
    using find_entry_total [OF assms(1) ok] by blast
  show ?thesis
  proof (cases found)
    case None
    then show ?thesis using f
      by (simp add: backtestRule_def Let_def ensure_def flip: cap_of_def in_time_def)
  next
    case (Some x)
    obtain en pool rest where x: "x = (en, pool, rest)" by (cases x) auto
    obtain pre p where s: "?ps = pre @ p # rest" "pool = poolAt p op"
      using find_entry_SomeD f Some x by metis
    then have okr: "list_all ok_point rest" and wf: "wf_pool pool" using ok assms(1) by simp_all
    obtain opened where o: "exitQuote pool (leg_tokens en) (cap_of op) = Inr opened"
      using exitQuote_total [OF wf] by blast
    let ?w = "map_option (\<lambda>v. bpsAgainst (xq_sol v) (leg_sol en)) opened"
    let ?st = "\<lparr>w_worst = ?w, w_best = ?w, w_pool = pool, w_exit = None\<rparr>"
    obtain st where w: "walk rl op (cap_of op) en ?st rest = Inr st"
      using walk_total [OF assms(1) okr] by blast
    have "wf_pool (w_pool st)" using walk_pool [OF w] wf okr assms(1) by (auto simp: list_all_iff)
    then obtain stuck where "exitQuote (w_pool st) (leg_tokens en) (cap_of op) = Inr stuck"
      using exitQuote_total by blast
    with f o w Some x show ?thesis
      by (simp add: backtestRule_def Let_def ensure_def flip: cap_of_def in_time_def)
  qed
qed

theorem backtest_total_witness:
  "\<exists>res. backtestRule sample_points sample_rule sample_options = Inr res"
  by (rule backtest_total [OF sample_ok])

text \<open>
  the order in which the swaps arrive does not change the result, as long as no two of
  them share a second.
\<close>

theorem backtest_ignores_arrival_order:
  assumes "mset ps = mset qs" "inj_on point_at (set ps)"
  shows "backtestRule ps rl op = backtestRule qs rl op"
  unfolding backtestRule_def by_time.sort_perm [OF assms] ..

theorem backtest_ignores_arrival_order_witness:
  "backtestRule (rev sample_points) sample_rule sample_options = backtestRule sample_points sample_rule sample_options"
  by (rule backtest_ignores_arrival_order)
    (auto simp: sample_points_def sample_point_def inj_on_def)

text \<open>
  the return a back test reports lies between the worst and the best the position was
  ever worth, whether the rule fired or the position is still held at the end.
\<close>

theorem backtest_return_between_worst_and_best:
  assumes "backtestRule ps rl op = Inr res" "result_returnBps res = Some r"
  shows "spanned r (worstBps res) (bestBps res)"
  using assms(1)
proof (cases rule: backtestRule_InrE)
  case never
  with assms(2) show ?thesis by (simp add: empty_result_def)
next
  case (run pre p q en rest opened st stuck)
  have s: "seen (cap_of op) en st"
    using walk_seen [OF run(5) opening_start [OF run(4)]] by simp
  show ?thesis
  proof (cases "w_exit st")
    case None
    with assms(2) run(8) obtain v where "stuck = Some v" "r = bpsAgainst (xq_sol v) (leg_sol en)"
      by (auto simp: closing_held)
    with run(6,8) None s show ?thesis by (simp add: seen_def)
  next
    case (Some x)
    then obtain t leg where "w_exit st = Some (t, leg)" by (cases x) auto
    with assms(2) run(8) s show ?thesis by (auto simp: seen_def closing_fired)
  qed
qed

theorem backtest_return_between_worst_and_best_witness:
  "\<exists>res r. backtestRule sample_points sample_rule sample_options = Inr res
    \<and> result_returnBps res = Some r \<and> spanned r (worstBps res) (bestBps res)"
proof -
  obtain res where b: "backtestRule sample_points sample_rule sample_options = Inr res"
    and f: "reason res = Fired Take_profit" by (rule sample_run_Inr)
  obtain r where "result_returnBps res = Some r"
    using b
  proof (cases rule: backtestRule_InrE)
    case never
    with f show ?thesis by (simp add: empty_result_def)
  next
    case (run pre p q en rest opened st stuck)
    with f closing_held(1) obtain x where "w_exit st = Some x" by fastforce
    with run(8) that closing_fired(2) show ?thesis by (cases x) auto
  qed
  with b backtest_return_between_worst_and_best [OF b] show ?thesis by blast
qed

text \<open>
  a position is under water the moment it opens. If the pool it was bought from can quote
  the exit at all, the worst a back test reports is never above break even.
\<close>

theorem backtest_opens_under_water:
  assumes "backtestRule ps rl op = Inr res" "entry_leg res = Some en"
    and ok: "ok_options op" "list_all ok_point ps"
  shows "\<exists>p \<in> set ps. leg_at en = point_at p \<and>
    (exitQuote (poolAt p op) (leg_tokens en) (cap_of op) = Inr None \<or> (\<exists>w \<le> 0. worstBps res = Some w))"
  using assms(1)
proof (cases rule: backtestRule_InrE)
  case never
  with assms(2) show ?thesis by (simp add: empty_result_def)
next
  case (run pre p q en' rest opened st stuck)
  have e: "en' = en" using run(8) assms(2) by simp
  have p: "p \<in> set ps" using run(1) unfolding in_time_def by (metis in_set_conv_decomp set_js_sort)
  then have wf: "wf_pool (poolAt p op)" using ok by (simp add: list_all_iff)
  have w: "worstBps res = w_worst st" using run(8) by simp
  have "opened = None \<or> (\<exists>w \<le> 0. worstBps res = Some w)"
  proof (cases opened)
    case (Some v)
    have "bpsAgainst (xq_sol v) (leg_sol en) \<le> 0"
      using opened_nonpos [OF run(2) wf] run(3,4) Some e by (simp add: leg_of_def)
    then show ?thesis
      using walk_seen [OF run(5) opening_start [OF run(4)]] Some e w by auto
  qed simp
  with p run(3,4) e show ?thesis by (auto simp: leg_of_def)
qed

theorem backtest_opens_under_water_witness:
  "\<exists>res en. backtestRule sample_points sample_rule sample_options = Inr res \<and> entry_leg res = Some en
    \<and> (\<exists>p \<in> set sample_points. leg_at en = point_at p)"
proof -
  obtain res en where b: "backtestRule sample_points sample_rule sample_options = Inr res"
    "entry_leg res = Some en" by (rule sample_run_Inr)
  with backtest_opens_under_water [OF b sample_ok] show ?thesis by blast
qed

text \<open>
  a rule leaves at the first moment it fires and at no other. If a back test reports a
  trigger, then of the points after the entry the exit is the first at which the decision
  the live runner makes fires on a quoted exit, with that trigger and at that price; and a
  position reported as held never met a point where the rule fired.
\<close>

theorem backtest_leaves_at_the_first_trigger:
  assumes "backtestRule ps rl op = Inr res" "entry_leg res = Some en"
  shows "\<exists>pre p rest. in_time ps = pre @ p # rest \<and> leg_at en = point_at p \<and>
    (case exit_leg res of
       None \<Rightarrow> list_all (\<lambda>s. fires_at rl op (cap_of op) en s = None) rest
     | Some x \<Rightarrow> \<exists>held s post t v. rest = held @ s # post
         \<and> list_all (\<lambda>s. fires_at rl op (cap_of op) en s = None) held
         \<and> fires_at rl op (cap_of op) en s = Some (t, v)
         \<and> reason res = Fired t \<and> x = exit_of (point_at s) (leg_tokens en) v)"
  using assms(1)
proof (cases rule: backtestRule_InrE)
  case never
  with assms(2) show ?thesis by (simp add: empty_result_def)
next
  case (run pre p q en' rest opened st stuck)
  have e: "en' = en" using run(8) assms(2) by simp
  have f: "case w_exit st of
      None \<Rightarrow> list_all (\<lambda>p. fires_at rl op (cap_of op) en p = None) rest
    | Some (t, leg) \<Rightarrow> \<exists>pre p post v. rest = pre @ p # post
        \<and> list_all (\<lambda>p. fires_at rl op (cap_of op) en p = None) pre
        \<and> fires_at rl op (cap_of op) en p = Some (t, v) \<and> leg = exit_of (point_at p) (leg_tokens en) v"
    using walk_fired [OF run(5)] unfolding e by simp
  have "leg_at en = point_at p" using run(3) e by (simp add: leg_of_def)
  moreover have "exit_leg res = map_option snd (w_exit st)" using run(8) by simp
  moreover have "w_exit st = Some (t, leg) \<Longrightarrow> reason res = Fired t" for t leg
    using run(8) by (simp add: closing_fired)
  ultimately show ?thesis using run(1) f by (cases "w_exit st") (auto, metis)
qed

theorem backtest_leaves_at_the_first_trigger_witness:
  "\<exists>res en. backtestRule sample_points sample_rule sample_options = Inr res \<and> entry_leg res = Some en
    \<and> (\<exists>pre p rest. in_time sample_points = pre @ p # rest \<and> leg_at en = point_at p)"
proof -
  obtain res en where b: "backtestRule sample_points sample_rule sample_options = Inr res"
    "entry_leg res = Some en" by (rule sample_run_Inr)
  with backtest_leaves_at_the_first_trigger [OF b] show ?thesis by blast
qed

end
