(* ===== verification/Copy.thy ===== *)
theory Copy
  imports Json Execution Contracts "HOL-Library.AList"
begin

text \<open>
  What copying a trader would have made (packages/sim/src/copy.ts). A \<open>Map\<close> of the source is
  an association list in insertion order, as the language keeps it. Amounts arrive as digit
  strings; a string \<open>BigInt\<close> refuses ends the run with an error.
\<close>

record copy_leg =
  cl_mint :: string
  cl_isBuy :: bool
  cl_at :: int
  cl_sol :: int
  cl_tokens :: int
  cl_leaderPrice :: int
  cl_copierPrice :: int

record copy_result =
  cr_startingBalance :: int
  cr_endingBalance :: int
  cr_endingEquity :: int
  cr_returnBps :: int
  cr_leaderReturnBps :: int
  cr_leaderRealized :: int
  cr_copierRealized :: int
  cr_legs :: "copy_leg list"
  cr_copied :: nat
  cr_skipped :: nat
  cr_latencyCost :: int

record copy_input =
  ci_trader :: string
  ci_mint :: string
  ci_isBuy :: bool
  ci_solAmount :: string
  ci_tokenAmount :: string
  ci_solAfter :: string
  ci_tokenAfter :: string
  ci_blockTime :: int

record copy_options =
  co_startingBalance :: int
  co_fees :: fee_schedule
  co_tokenDecimals :: "int option"
  co_maxPositionBps :: "int option"

definition PRICE_SANITY :: int where "PRICE_SANITY = 10"

text \<open>\<open>BigInt(s)\<close> of a string.\<close>

definition read_big :: "string \<Rightarrow> int res" where
  "read_big s = (case bigint_literal s of None \<Rightarrow> Inl Plain_error | Some n \<Rightarrow> Inr n)"

definition poolFrom :: "copy_input \<Rightarrow> copy_options \<Rightarrow> pool_state res" where
  "poolFrom i op =
     rbind (read_big (ci_solAfter i)) (\<lambda>solR.
     rbind (read_big (ci_tokenAfter i)) (\<lambda>tokenR.
     Inr \<lparr>mint = ci_mint i, solReserve = solR, tokenReserve = tokenR, deliverableTokens = tokenR,
          tokenDecimals = (case co_tokenDecimals op of Some d \<Rightarrow> d | None \<Rightarrow> 6),
          fees = co_fees op, source = Pumpswap, slot = 0\<rparr>))"

definition unitPrice :: "int \<Rightarrow> int \<Rightarrow> int" where
  "unitPrice sol tokens = (if tokens = 0 then 0 else (sol * 1000000000) sdiv tokens)"

text \<open>\<open>m.get(k) ?? 0n\<close> and \<open>m.set(k, v)\<close>.\<close>

type_synonym 'v table = "(string \<times> 'v) list"

definition get0 :: "int table \<Rightarrow> string \<Rightarrow> int" where
  "get0 m k = (case map_of m k of Some v \<Rightarrow> v | None \<Rightarrow> 0)"

record copy_state =
  balance :: int
  held :: "int table"
  legs :: "copy_leg list"
  copied :: nat
  skipped :: nat
  latencyCost :: int
  leaderIn :: int
  leaderOut :: int
  leaderHolding :: "int table"
  lastPool :: "(int \<times> int) table"
  leaderCost :: "int table"
  copierCost :: "int table"
  leaderRealized :: int
  leaderStaked :: int
  copierRealized :: int
  copierStaked :: int
  leaderBalance :: int

definition initial_state :: "copy_options \<Rightarrow> copy_state" where
  "initial_state op = \<lparr>balance = co_startingBalance op, held = [], legs = [], copied = 0, skipped = 0,
     latencyCost = 0, leaderIn = 0, leaderOut = 0, leaderHolding = [], lastPool = [], leaderCost = [],
     copierCost = [], leaderRealized = 0, leaderStaked = 0, copierRealized = 0, copierStaked = 0,
     leaderBalance = co_startingBalance op\<rparr>"

text \<open>\<open>realizeAt\<close> returns the table it leaves behind, the profit and the cost charged.\<close>

definition realizeAt :: "int table \<Rightarrow> string \<Rightarrow> int \<Rightarrow> int \<Rightarrow> int \<Rightarrow> int table \<times> int \<times> int" where
  "realizeAt costs m heldNow tokensSold got =
     (let cost = get0 costs m in
      if heldNow \<le> 0 \<or> tokensSold \<le> 0 then (costs, 0, 0)
      else let sold = (if tokensSold > heldNow then heldNow else tokensSold);
               spent = (if sold = heldNow then cost else (cost * sold) sdiv heldNow)
           in (AList.update m (cost - spent) costs, got - spent, spent))"

definition realize :: "int table \<Rightarrow> int table \<Rightarrow> string \<Rightarrow> int \<Rightarrow> int \<Rightarrow> int table \<times> int \<times> int" where
  "realize costs holdings m tokensSold got = realizeAt costs m (get0 holdings m) tokensSold got"

definition skip :: "copy_state \<Rightarrow> copy_state" where
  "skip st = st\<lparr>skipped := skipped st + 1\<rparr>"

definition entry_size :: "copy_options \<Rightarrow> int" where
  "entry_size op = (co_startingBalance op * (case co_maxPositionBps op of Some m \<Rightarrow> m | None \<Rightarrow> 3000)) sdiv 10000"

text \<open>The leader's price for the same tokens, bounded by the pool they left behind.\<close>

definition buy_unit :: "pool_state \<Rightarrow> int \<Rightarrow> int \<Rightarrow> int" where
  "buy_unit pool leaderSol leaderTokens =
     (let poolUnit = unitPrice (solReserve pool) (tokenReserve pool);
          recorded = unitPrice leaderSol leaderTokens
      in if recorded < poolUnit then recorded else poolUnit)"

definition sell_unit :: "pool_state \<Rightarrow> int \<Rightarrow> int \<Rightarrow> int" where
  "sell_unit pool leaderSol leaderTokens =
     (let poolUnit = unitPrice (solReserve pool) (tokenReserve pool);
          recorded = unitPrice leaderSol leaderTokens
      in if recorded > poolUnit then recorded else poolUnit)"

definition at_their_price :: "int \<Rightarrow> int \<Rightarrow> int" where
  "at_their_price tokens theirUnit = (tokens * theirUnit) sdiv 1000000000"

text \<open>Both sides take an entry.\<close>

definition fill_buy :: "copy_input \<Rightarrow> int \<Rightarrow> quote \<Rightarrow> int \<Rightarrow> copy_state \<Rightarrow> copy_state" where
  "fill_buy i sz q theirUnit st =
     (let m = ci_mint i; atTheirPrice = at_their_price (tokenAmount q) theirUnit;
          copierPrice = unitPrice sz (tokenAmount q) in
      st\<lparr>balance := balance st - sz,
         leaderBalance := leaderBalance st - atTheirPrice,
         held := AList.update m (get0 (held st) m + tokenAmount q) (held st),
         copierCost := AList.update m (get0 (copierCost st) m + sz) (copierCost st),
         leaderCost := AList.update m (get0 (leaderCost st) m + atTheirPrice) (leaderCost st),
         latencyCost := (if copierPrice > theirUnit
            then latencyCost st + ((copierPrice - theirUnit) * tokenAmount q) sdiv 1000000000
            else latencyCost st),
         legs := legs st @ [\<lparr>cl_mint = m, cl_isBuy = True, cl_at = ci_blockTime i, cl_sol = sz,
            cl_tokens = tokenAmount q, cl_leaderPrice = theirUnit, cl_copierPrice = copierPrice\<rparr>],
         copied := copied st + 1\<rparr>)"

text \<open>The same tokens leave both sides.\<close>

definition fill_sell :: "copy_input \<Rightarrow> int \<Rightarrow> int \<Rightarrow> quote \<Rightarrow> int \<Rightarrow> copy_state \<Rightarrow> copy_state" where
  "fill_sell i holding tokensOut q theirUnit st =
     (let m = ci_mint i;
          (copierCost', pnl, spent) = realize (copierCost st) (held st) m tokensOut (solAmount q);
          theirProceeds = at_their_price tokensOut theirUnit;
          (leaderCost', lpnl, lspent) = realizeAt (leaderCost st) m holding tokensOut theirProceeds;
          copierPrice = unitPrice (solAmount q) tokensOut in
      st\<lparr>copierCost := copierCost',
         copierRealized := copierRealized st + pnl,
         copierStaked := copierStaked st + spent,
         balance := balance st + solAmount q,
         held := AList.update m (holding - tokensOut) (held st),
         leaderCost := leaderCost',
         leaderRealized := leaderRealized st + lpnl,
         leaderStaked := leaderStaked st + lspent,
         leaderBalance := leaderBalance st + theirProceeds,
         latencyCost := (if theirUnit > copierPrice
            then latencyCost st + ((theirUnit - copierPrice) * tokensOut) sdiv 1000000000
            else latencyCost st),
         legs := legs st @ [\<lparr>cl_mint = m, cl_isBuy = False, cl_at = ci_blockTime i,
            cl_sol = solAmount q, cl_tokens = tokensOut, cl_leaderPrice = theirUnit,
            cl_copierPrice = copierPrice\<rparr>],
         copied := copied st + 1\<rparr>)"

definition copy_buy :: "copy_options \<Rightarrow> copy_input \<Rightarrow> pool_state \<Rightarrow> int \<Rightarrow> int \<Rightarrow> copy_state \<Rightarrow> copy_state" where
  "copy_buy op i pool leaderSol leaderTokens st0 =
     (let m = ci_mint i;
          st = st0\<lparr>leaderIn := leaderIn st0 + leaderSol,
                   leaderHolding := AList.update m (get0 (leaderHolding st0) m + leaderTokens) (leaderHolding st0)\<rparr>;
          sz = entry_size op in
      if sz \<le> 0 \<or> sz > balance st then skip st
      else case quoteBuy pool sz of
          Inl _ \<Rightarrow> skip st
        | Inr q \<Rightarrow>
            if tokenAmount q \<le> 0 then skip st
            else let theirUnit = buy_unit pool leaderSol leaderTokens in
              if at_their_price (tokenAmount q) theirUnit > leaderBalance st then skip st
              else fill_buy i sz q theirUnit st)"

definition sold_fraction :: "int \<Rightarrow> int \<Rightarrow> int" where
  "sold_fraction leaderPosition leaderTokens =
     (if leaderPosition \<le> 0 \<or> leaderTokens \<ge> leaderPosition then 10000
      else (leaderTokens * 10000) sdiv leaderPosition)"

definition tokens_out :: "int \<Rightarrow> int \<Rightarrow> int" where
  "tokens_out holding fraction =
     (let part = (holding * fraction) sdiv 10000 in if part > holding then holding else part)"

definition copy_sell :: "copy_options \<Rightarrow> copy_input \<Rightarrow> pool_state \<Rightarrow> int \<Rightarrow> int \<Rightarrow> copy_state \<Rightarrow> copy_state" where
  "copy_sell op i pool leaderSol leaderTokens st0 =
     (let m = ci_mint i;
          st1 = st0\<lparr>leaderOut := leaderOut st0 + leaderSol\<rparr>;
          holding = get0 (held st1) m in
      if holding \<le> 0 then skip st1
      else
        let leaderPosition = get0 (leaderHolding st1) m;
            fraction = sold_fraction leaderPosition leaderTokens;
            st = st1\<lparr>leaderHolding := AList.update m
                   (if leaderPosition > leaderTokens then leaderPosition - leaderTokens else 0) (leaderHolding st1)\<rparr>;
            tokensOut = tokens_out holding fraction in
        if tokensOut \<le> 0 then skip st
        else case quoteSell pool tokensOut of
            Inl _ \<Rightarrow> skip st
          | Inr q \<Rightarrow>
              if solAmount q \<le> 0 then skip st
              else fill_sell i holding tokensOut q (sell_unit pool leaderSol leaderTokens) st)"

text \<open>One swap: the guards, then the side.\<close>

definition copy_swap :: "copy_options \<Rightarrow> copy_input \<Rightarrow> pool_state \<Rightarrow> int \<Rightarrow> int \<Rightarrow> copy_state \<Rightarrow> copy_state" where
  "copy_swap op i pool leaderSol leaderTokens st =
     (if leaderSol \<le> 0 \<or> leaderTokens \<le> 0 then skip st
      else
        let poolPrice = unitPrice (solReserve pool) (tokenReserve pool);
            swapPrice = unitPrice leaderSol leaderTokens in
        if poolPrice \<le> 0 \<or> swapPrice \<le> 0 then skip st
        else
          let high = (if poolPrice > swapPrice then poolPrice else swapPrice);
              low = (if poolPrice > swapPrice then swapPrice else poolPrice) in
          if high > low * PRICE_SANITY then skip st
          else if ci_isBuy i then copy_buy op i pool leaderSol leaderTokens st
          else copy_sell op i pool leaderSol leaderTokens st)"

definition copy_step :: "copy_options \<Rightarrow> copy_state \<Rightarrow> copy_input \<Rightarrow> copy_state res" where
  "copy_step op st i =
     rbind (poolFrom i op) (\<lambda>pool.
     rbind (read_big (ci_solAmount i)) (\<lambda>leaderSol.
     rbind (read_big (ci_tokenAmount i)) (\<lambda>leaderTokens.
     Inr (copy_swap op i pool leaderSol leaderTokens
       (st\<lparr>lastPool := AList.update (ci_mint i) (solReserve pool, tokenReserve pool) (lastPool st)\<rparr>)))))"

text \<open>What is still held, marked at what selling it into the last pool seen would fetch.\<close>

definition open_value :: "copy_state \<Rightarrow> int res" where
  "open_value st = map_sum id sum_list (traverse (\<lambda>(m, tokens).
     if tokens \<le> 0 then Inr 0
     else case map_of (lastPool st) m of
        None \<Rightarrow> Inr 0
      | Some (sol, tok) \<Rightarrow> if tok = 0 then Inr 0 else big_div (tokens * sol) (tok + tokens)) (held st))"

definition ratio_bps :: "int \<Rightarrow> int \<Rightarrow> int" where
  "ratio_bps realized staked = (if staked = 0 then 0 else to_num ((realized * 10000) sdiv staked))"

definition backtestCopy :: "copy_input list \<Rightarrow> copy_options \<Rightarrow> copy_result res" where
  "backtestCopy swaps op =
     rbind (run_res (copy_step op) (initial_state op) swaps) (\<lambda>st.
     rbind (open_value st) (\<lambda>openValue.
     Inr \<lparr>cr_startingBalance = co_startingBalance op, cr_endingBalance = balance st,
          cr_endingEquity = balance st + openValue,
          cr_returnBps = ratio_bps (copierRealized st) (copierStaked st),
          cr_leaderReturnBps = ratio_bps (leaderRealized st) (leaderStaked st),
          cr_leaderRealized = leaderRealized st, cr_copierRealized = copierRealized st,
          cr_legs = legs st, cr_copied = copied st, cr_skipped = skipped st,
          cr_latencyCost = latencyCost st\<rparr>))"

section \<open>Tables\<close>

definition total :: "int table \<Rightarrow> int" where
  "total m = sum_list (map snd m)"

lemma get0_update [simp]: "get0 (AList.update k v m) k' = (if k' = k then v else get0 m k')"
  by (simp add: get0_def update_conv)

lemma total_update [simp]: "total (AList.update k v m) = total m - get0 m k + v"
  by (induction m) (auto simp: total_def get0_def)

section \<open>What one swap does\<close>

text \<open>A swap that is skipped: no money moves.\<close>

definition idle :: "copy_state \<Rightarrow> copy_state \<Rightarrow> bool" where
  "idle st st' \<longleftrightarrow> skipped st' = skipped st + 1 \<and> copied st' = copied st \<and> legs st' = legs st
     \<and> balance st' = balance st \<and> leaderBalance st' = leaderBalance st \<and> held st' = held st
     \<and> copierCost st' = copierCost st \<and> leaderCost st' = leaderCost st
     \<and> copierRealized st' = copierRealized st \<and> leaderRealized st' = leaderRealized st
     \<and> copierStaked st' = copierStaked st \<and> leaderStaked st' = leaderStaked st
     \<and> latencyCost st' = latencyCost st"

text \<open>A swap that is copied: what both sides pay, receive and realize.\<close>

definition copied_leg :: "copy_state \<Rightarrow> copy_state \<Rightarrow> bool" where
  "copied_leg st st' \<longleftrightarrow> copied st' = copied st + 1 \<and> skipped st' = skipped st
     \<and> length (legs st') = length (legs st) + 1 \<and> latencyCost st \<le> latencyCost st'"

definition bought :: "string \<Rightarrow> int \<Rightarrow> int \<Rightarrow> int \<Rightarrow> copy_state \<Rightarrow> copy_state \<Rightarrow> bool" where
  "bought m t sz theirs st st' \<longleftrightarrow> copied_leg st st'
     \<and> balance st' = balance st - sz \<and> leaderBalance st' = leaderBalance st - theirs
     \<and> held st' = AList.update m (get0 (held st) m + t) (held st)
     \<and> copierCost st' = AList.update m (get0 (copierCost st) m + sz) (copierCost st)
     \<and> leaderCost st' = AList.update m (get0 (leaderCost st) m + theirs) (leaderCost st)
     \<and> copierRealized st' = copierRealized st \<and> leaderRealized st' = leaderRealized st
     \<and> copierStaked st' = copierStaked st \<and> leaderStaked st' = leaderStaked st"

definition spent_of :: "int \<Rightarrow> int \<Rightarrow> int \<Rightarrow> int" where
  "spent_of cost t h = (if t = h then cost else (cost * t) sdiv h)"

definition sold :: "string \<Rightarrow> int \<Rightarrow> int \<Rightarrow> int \<Rightarrow> copy_state \<Rightarrow> copy_state \<Rightarrow> bool" where
  "sold m t got theirs st st' \<longleftrightarrow> copied_leg st st' \<and> (let h = get0 (held st) m;
       spent = spent_of (get0 (copierCost st) m) t h; lspent = spent_of (get0 (leaderCost st) m) t h in
       balance st' = balance st + got \<and> leaderBalance st' = leaderBalance st + theirs
     \<and> held st' = AList.update m (h - t) (held st)
     \<and> copierCost st' = AList.update m (get0 (copierCost st) m - spent) (copierCost st)
     \<and> leaderCost st' = AList.update m (get0 (leaderCost st) m - lspent) (leaderCost st)
     \<and> copierRealized st' = copierRealized st + (got - spent)
     \<and> leaderRealized st' = leaderRealized st + (theirs - lspent)
     \<and> copierStaked st' = copierStaked st + spent \<and> leaderStaked st' = leaderStaked st + lspent)"

lemma realizeAt_eq:
  "0 < h \<Longrightarrow> 0 < t \<Longrightarrow> t \<le> h \<Longrightarrow> realizeAt costs m h t got
     = (AList.update m (get0 costs m - spent_of (get0 costs m) t h) costs,
        got - spent_of (get0 costs m) t h, spent_of (get0 costs m) t h)"
  by (simp add: realizeAt_def spent_of_def Let_def)

lemma idle_skip [simp]: "idle st (skip st)"
  by (simp add: idle_def skip_def)

definition pool_unit :: "pool_state \<Rightarrow> int" where
  "pool_unit p = unitPrice (solReserve p) (tokenReserve p)"

lemma buy_unit_min: "buy_unit pool ls lt = min (unitPrice ls lt) (pool_unit pool)"
  by (simp add: buy_unit_def pool_unit_def Let_def)

lemma sell_unit_max: "sell_unit pool ls lt = max (unitPrice ls lt) (pool_unit pool)"
  by (simp add: sell_unit_def pool_unit_def Let_def)

lemma fill_buy_bought:
  assumes "0 < tokenAmount q"
  shows "bought (ci_mint i) (tokenAmount q) sz (at_their_price (tokenAmount q) u) st (fill_buy i sz q u st)"
proof -
  let ?c = "unitPrice sz (tokenAmount q)"
  have "?c > u \<Longrightarrow> 0 \<le> ((?c - u) * tokenAmount q) sdiv 1000000000"
    using assms by (intro sdiv_nonneg_ge) simp_all
  then show ?thesis by (simp add: fill_buy_def Let_def bought_def copied_leg_def)
qed

lemma fill_sell_sold:
  assumes h: "h = get0 (held st) (ci_mint i)" "0 < h" and t: "0 < t" "t \<le> h"
  shows "sold (ci_mint i) t (solAmount q) (at_their_price t u) st (fill_sell i h t q u st)"
proof -
  let ?c = "unitPrice (solAmount q) t"
  have "?c < u \<Longrightarrow> 0 \<le> ((u - ?c) * t) sdiv 1000000000"
    using t by (intro sdiv_nonneg_ge) simp_all
  then show ?thesis
    by (simp add: fill_sell_def Let_def sold_def copied_leg_def realize_def realizeAt_eq [OF h(2) t] flip: h(1))
qed

text \<open>The tables a skipped or copied swap leaves alone do not matter to the money.\<close>

lemma idle_skip_with [simp]:
  "idle st (skip (st\<lparr>leaderIn := a, leaderHolding := b\<rparr>))" "idle st (skip (st\<lparr>leaderOut := a\<rparr>))"
  "idle st (skip (st\<lparr>leaderOut := a, leaderHolding := b\<rparr>))" "idle st (skip (st\<lparr>lastPool := pl\<rparr>))"
  by (simp_all add: idle_def skip_def)

lemma copy_buy_cases:
  obtains (skip) "idle st (copy_buy op i pool ls lt st)"
  | (buy) q u where "quoteBuy pool (entry_size op) = Inr q" "entry_size op \<le> balance st"
      "u = min (unitPrice ls lt) (pool_unit pool)" "at_their_price (tokenAmount q) u \<le> leaderBalance st"
      "bought (ci_mint i) (tokenAmount q) (entry_size op) (at_their_price (tokenAmount q) u) st
        (copy_buy op i pool ls lt st)"
proof (cases "entry_size op \<le> 0 \<or> entry_size op > balance st")
  case True
  then show thesis by (intro skip) (auto simp: copy_buy_def Let_def)
next
  case sz: False
  show thesis
  proof (cases "quoteBuy pool (entry_size op)")
    case (Inl e)
    with sz show thesis by (intro skip) (simp add: copy_buy_def Let_def)
  next
    case (Inr q)
    let ?u = "buy_unit pool ls lt"
    show thesis
    proof (cases "tokenAmount q \<le> 0 \<or> at_their_price (tokenAmount q) ?u > leaderBalance st")
      case True
      with sz Inr show thesis by (intro skip) (auto simp: copy_buy_def Let_def)
    next
      case False
      let ?st = "st\<lparr>leaderIn := leaderIn st + ls, leaderHolding :=
        AList.update (ci_mint i) (get0 (leaderHolding st) (ci_mint i) + lt) (leaderHolding st)\<rparr>"
      have r: "copy_buy op i pool ls lt st = fill_buy i (entry_size op) q ?u ?st"
        using False sz Inr by (simp add: copy_buy_def Let_def)
      have "bought (ci_mint i) (tokenAmount q) (entry_size op) (at_their_price (tokenAmount q) ?u) ?st
          (fill_buy i (entry_size op) q ?u ?st)"
        using False by (intro fill_buy_bought) simp
      then have "bought (ci_mint i) (tokenAmount q) (entry_size op) (at_their_price (tokenAmount q) ?u) st
          (copy_buy op i pool ls lt st)"
        unfolding r by (simp add: bought_def copied_leg_def)
      with False sz Inr show thesis by (intro buy) (simp_all add: buy_unit_min)
    qed
  qed
qed

lemma copy_sell_cases:
  obtains (skip) "idle st (copy_sell op i pool ls lt st)"
  | (sell) t q u where "quoteSell pool t = Inr q" "0 < t" "t \<le> get0 (held st) (ci_mint i)" "0 < solAmount q"
      "u = max (unitPrice ls lt) (pool_unit pool)"
      "sold (ci_mint i) t (solAmount q) (at_their_price t u) st (copy_sell op i pool ls lt st)"
proof (cases "get0 (held st) (ci_mint i) \<le> 0")
  case True
  then show thesis by (intro skip) (simp add: copy_sell_def Let_def)
next
  case h: False
  let ?m = "ci_mint i"
  let ?h = "get0 (held st) ?m" and ?lp = "get0 (leaderHolding st) ?m"
  define t where "t = tokens_out ?h (sold_fraction ?lp lt)"
  let ?st = "st\<lparr>leaderOut := leaderOut st + ls,
    leaderHolding := AList.update ?m (if ?lp > lt then ?lp - lt else 0) (leaderHolding st)\<rparr>"
  have th: "t \<le> ?h" by (simp add: t_def tokens_out_def Let_def)
  have eq: "copy_sell op i pool ls lt st = (if t \<le> 0 then skip ?st else case quoteSell pool t of
      Inl _ \<Rightarrow> skip ?st
    | Inr q \<Rightarrow> if solAmount q \<le> 0 then skip ?st else fill_sell i ?h t q (sell_unit pool ls lt) ?st)"
    using h unfolding t_def by (simp add: copy_sell_def Let_def split: sum.split)
  show thesis
  proof (cases "t \<le> 0")
    case True
    then show thesis by (intro skip) (simp add: eq)
  next
    case t0: False
    show thesis
    proof (cases "quoteSell pool t")
      case (Inl e)
      with t0 show thesis by (intro skip) (simp add: eq)
    next
      case (Inr q)
      show thesis
      proof (cases "solAmount q \<le> 0")
        case True
        with t0 Inr show thesis by (intro skip) (simp add: eq)
      next
        case False
        have "sold ?m t (solAmount q) (at_their_price t (sell_unit pool ls lt)) ?st
            (fill_sell i ?h t q (sell_unit pool ls lt) ?st)"
          using t0 h th by (intro fill_sell_sold) simp_all
        then have "sold ?m t (solAmount q) (at_their_price t (sell_unit pool ls lt)) st
            (copy_sell op i pool ls lt st)"
          using t0 Inr False by (simp add: eq sold_def copied_leg_def)
        with t0 th Inr False show thesis by (intro sell) (simp_all add: sell_unit_max)
      qed
    qed
  qed
qed

lemma idle_lastPool [simp]: "idle (st\<lparr>lastPool := pl\<rparr>) st' \<longleftrightarrow> idle st st'"
  by (simp add: idle_def)

lemma bought_lastPool [simp]: "bought m t sz th (st\<lparr>lastPool := pl\<rparr>) st' \<longleftrightarrow> bought m t sz th st st'"
  by (simp add: bought_def copied_leg_def)

lemma sold_lastPool [simp]: "sold m t got th (st\<lparr>lastPool := pl\<rparr>) st' \<longleftrightarrow> sold m t got th st st'"
  by (simp add: sold_def copied_leg_def)

lemma copy_swap_disj:
  "copy_swap op i pool ls lt st = skip st
   \<or> 0 < pool_unit pool \<and> 0 < unitPrice ls lt \<and> copy_swap op i pool ls lt st = copy_buy op i pool ls lt st
   \<or> 0 < pool_unit pool \<and> copy_swap op i pool ls lt st = copy_sell op i pool ls lt st"
  unfolding copy_swap_def Let_def pool_unit_def by (simp split: if_split)

lemma copy_step_cases:
  assumes "copy_step op st i = Inr st'"
  obtains (skip) "idle st st'"
  | (buy) pool q u where "poolFrom i op = Inr pool" "quoteBuy pool (entry_size op) = Inr q"
      "entry_size op \<le> balance st" "0 < u" "u \<le> pool_unit pool"
      "at_their_price (tokenAmount q) u \<le> leaderBalance st"
      "bought (ci_mint i) (tokenAmount q) (entry_size op) (at_their_price (tokenAmount q) u) st st'"
  | (sell) pool t q u where "poolFrom i op = Inr pool" "quoteSell pool t = Inr q" "0 < t"
      "t \<le> get0 (held st) (ci_mint i)" "0 < solAmount q" "pool_unit pool \<le> u" "0 < pool_unit pool"
      "sold (ci_mint i) t (solAmount q) (at_their_price t u) st st'"
proof -
  obtain pool ls lt where p: "poolFrom i op = Inr pool"
    and s': "st' = copy_swap op i pool ls lt
      (st\<lparr>lastPool := AList.update (ci_mint i) (solReserve pool, tokenReserve pool) (lastPool st)\<rparr>)"
    using assms by (auto simp: copy_step_def)
  let ?st = "st\<lparr>lastPool := AList.update (ci_mint i) (solReserve pool, tokenReserve pool) (lastPool st)\<rparr>"
  consider "idle ?st st'"
    | "0 < pool_unit pool" "0 < unitPrice ls lt" "st' = copy_buy op i pool ls lt ?st"
    | "0 < pool_unit pool" "st' = copy_sell op i pool ls lt ?st"
    unfolding s' using copy_swap_disj [of op i pool ls lt ?st] idle_skip by metis
  then show thesis
  proof cases
    case 1
    then show thesis by (intro skip) simp
  next
    case 2
    show thesis
    proof (cases rule: copy_buy_cases [of ?st op i pool ls lt])
      case skip
      with 2 that(1) show thesis by simp
    next
      case (buy q u)
      with 2 p that(2) [of pool q u] show thesis by simp
    qed
  next
    case 3
    show thesis
    proof (cases rule: copy_sell_cases [of ?st op i pool ls lt])
      case skip
      with 3 that(1) show thesis by simp
    next
      case (sell t q u)
      with 3 p that(3) [of pool t q u] show thesis by simp
    qed
  qed
qed

section \<open>Money is neither made nor lost\<close>

definition money :: "copy_state \<Rightarrow> int \<times> int" where
  "money st = (balance st + total (copierCost st) - copierRealized st,
     leaderBalance st + total (leaderCost st) - leaderRealized st)"

definition tally :: "copy_state \<Rightarrow> int" where
  "tally st = int (length (legs st)) - int (copied st)"

lemma copy_step_money: "copy_step op st i = Inr st' \<Longrightarrow> money st' = money st"
  by (erule copy_step_cases) (auto simp: money_def idle_def bought_def sold_def Let_def)

lemma copy_step_tally: "copy_step op st i = Inr st' \<Longrightarrow> tally st' = tally st"
  by (erule copy_step_cases) (auto simp: tally_def idle_def bought_def sold_def copied_leg_def Let_def)

interpretation copy_money: conserved "copy_step op" money for op
  by unfold_locales (rule copy_step_money)

interpretation copy_tally: conserved "copy_step op" tally for op
  by unfold_locales (rule copy_step_tally)

section \<open>The leader is never behind\<close>

text \<open>The tokens of a buy at the pool's own price cost no more than went into the pool.\<close>

lemma quoteBuy_quotable: "quoteBuy p x = Inr q \<Longrightarrow> 0 < solReserve p \<and> 0 < tokenReserve p"
  by (auto simp: quoteBuy_def assertQuotable_def)

lemma quoteSell_quotable: "quoteSell p x = Inr q \<Longrightarrow> 0 < solReserve p \<and> 0 < tokenReserve p"
  by (auto simp: quoteSell_def assertQuotable_def)

lemma poolFrom_wf:
  assumes "poolFrom i op = Inr pool" "0 < solReserve pool" "0 < tokenReserve pool" "wf_fees (co_fees op)"
  shows "wf_pool pool"
  using assms by (auto simp: poolFrom_def wf_pool_def)

lemma poolFrom_fees: "poolFrom i op = Inr pool \<Longrightarrow> fees pool = co_fees op"
  by (auto simp: poolFrom_def)

lemma pool_unit_div:
  "0 < solReserve p \<Longrightarrow> 0 < tokenReserve p \<Longrightarrow> pool_unit p = solReserve p * 1000000000 div tokenReserve p"
  by (simp add: pool_unit_def unitPrice_def sdiv_nonneg)

lemma their_cost_le:
  assumes q: "quoteBuy p x = Inr q" and wf: "wf_pool p" and u: "0 < u" "u \<le> pool_unit p"
  shows "0 \<le> at_their_price (tokenAmount q) u \<and> at_their_price (tokenAmount q) u \<le> x"
proof -
  let ?a = "solAmount q - feeLamports q" and ?t = "tokenAmount q"
    and ?S = "solReserve p" and ?T = "tokenReserve p"
  note c = quoteBuy_contract [OF q wf, unfolded buy_contract_def]
  have ST: "0 < ?S" "0 < ?T" using quoteBuy_quotable [OF q] by simp_all
  have "?t * u * ?T \<le> ?t * pool_unit p * ?T" using c u ST by (intro mult_mono) auto
  also have "\<dots> = ?t * (pool_unit p * ?T)" by simp
  also have "\<dots> \<le> ?t * (?S * 1000000000)"
    unfolding pool_unit_div [OF ST] using c ST floor_mult_le by (intro mult_left_mono) auto
  also have "\<dots> \<le> ?a * (?T - ?t) * 1000000000"
    using buy_product [OF q wf] by (simp add: algebra_simps)
  also have "\<dots> \<le> ?a * 1000000000 * ?T" using c by (simp add: algebra_simps)
  finally have "?t * u \<le> ?a * 1000000000" using ST by (simp add: mult_le_cancel_right)
  then have "?t * u div 1000000000 \<le> ?a * 1000000000 div 1000000000" by (intro zdiv_mono1) simp_all
  then have "?t * u div 1000000000 \<le> ?a" by simp
  moreover have "0 \<le> ?t * u" using c u by simp
  ultimately show ?thesis using c by (simp add: at_their_price_def sdiv_nonneg pos_imp_zdiv_nonneg_iff)
qed

text \<open>
  The tokens of a sell at the pool's own price fetch at least what the copier received, as
  long as the fee is worth more than the fraction the unit price rounds away.
\<close>

lemma their_proceeds_ge:
  assumes q: "quoteSell p t = Inr q" and wf: "wf_pool p" and u: "pool_unit p \<le> u"
    and fair: "10000 \<le> pool_unit p * totalFeeBps (fees p)"
  shows "solAmount q \<le> at_their_price t u"
proof -
  let ?S = "solReserve p" and ?T = "tokenReserve p" and ?g = "sell_gross p t"
    and ?f = "totalFeeBps (fees p)" and ?P = "pool_unit p"
  obtain t: "0 < t" and ST: "0 < ?S" "0 < ?T" and g: "0 < ?g"
    "ceil_div (?g * ?f) 10000 < ?g" "q = full_sell p t"
    by (rule quoteSell_InrE [OF q wf])
  have net: "solAmount q * 10000 \<le> ?g * (10000 - ?f)"
    using g(3) le_ceil_div [of 10000 "?g * ?f"] by (simp add: algebra_simps)
  have "?g * ?f < ?g * 10000" using g(2) le_ceil_div [of 10000 "?g * ?f"] by linarith
  then have f: "0 \<le> 10000 - ?f" using g(1) by (simp add: mult_less_cancel_left)
  have "?g * ?T \<le> ?g * (?T + t)" using g t by simp
  also have "\<dots> \<le> t * ?S" unfolding sell_gross_def using ST t by (intro floor_mult_le) simp
  finally have gT: "?g * ?T \<le> t * ?S" .
  have "?S * 1000000000 < (?P + 1) * ?T"
    unfolding pool_unit_div [OF ST] 
    using floor_lt_iff [OF ST(2), of "?S * 1000000000" "?S * 1000000000 div ?T + 1"] by simp
  then have "t * ?S * 1000000000 \<le> t * ((?P + 1) * ?T)" using t by simp
  with gT have "?g * 1000000000 * ?T \<le> t * (?P + 1) * ?T" by (simp add: algebra_simps)
  then have gP: "?g * 1000000000 \<le> t * (?P + 1)" using ST by (simp add: mult_le_cancel_right)
  have "solAmount q * 1000000000 * 10000 \<le> ?g * (10000 - ?f) * 1000000000" using net by simp
  also have "\<dots> = (?g * 1000000000) * (10000 - ?f)" by simp
  also have "\<dots> \<le> (t * (?P + 1)) * (10000 - ?f)" using gP f by (intro mult_right_mono)
  also have "\<dots> = t * (?P * 10000 + (10000 - ?P * ?f - ?f))" by (simp add: algebra_simps)
  also have "\<dots> \<le> t * (?P * 10000)"
  proof -
    have "0 \<le> ?f" using wf by (simp add: wf_pool_def)
    then show ?thesis using t fair by (intro mult_left_mono) linarith+
  qed
  also have "\<dots> \<le> t * u * 10000" using t u by simp
  finally have "solAmount q * 1000000000 \<le> t * u" by simp
  then have "solAmount q * 1000000000 div 1000000000 \<le> t * u div 1000000000" by (intro zdiv_mono1) simp_all
  then have "solAmount q \<le> t * u div 1000000000" by simp
  moreover have "0 \<le> t * u" using \<open>solAmount q * 1000000000 \<le> t * u\<close> g by simp
  ultimately show ?thesis by (simp add: at_their_price_def sdiv_nonneg)
qed

text \<open>A larger cost is charged more and keeps more.\<close>

lemma spent_bounds:
  assumes "0 \<le> cost" "0 < t" "t \<le> h"
  shows "0 \<le> spent_of cost t h \<and> spent_of cost t h \<le> cost"
proof -
  have "cost * t \<le> cost * h" using assms by (intro mult_left_mono) auto
  then have "cost * t div h \<le> cost * h div h" using assms by (intro zdiv_mono1) auto
  then show ?thesis using assms by (simp add: spent_of_def sdiv_nonneg pos_imp_zdiv_nonneg_iff)
qed

lemma spent_mono:
  assumes "0 \<le> c" "c \<le> d" "0 < t" "t \<le> h"
  shows "spent_of c t h \<le> spent_of d t h \<and> c - spent_of c t h \<le> d - spent_of d t h"
proof (cases "t = h")
  case False
  have "(d - c) * t \<le> (d - c) * h" using assms by (intro mult_left_mono) auto
  then have "d * t \<le> c * t + (d - c) * h" by (simp add: algebra_simps)
  then have "d * t div h \<le> (c * t + (d - c) * h) div h" using assms by (intro zdiv_mono1) auto
  also have "\<dots> = c * t div h + (d - c)" using assms by simp
  finally have "d * t div h \<le> c * t div h + (d - c)" .
  moreover have "c * t div h \<le> d * t div h" using assms by (intro zdiv_mono1 mult_right_mono) auto
  ultimately show ?thesis using False assms by (simp add: spent_of_def sdiv_nonneg)
qed (use assms in \<open>simp add: spent_of_def\<close>)

definition solvent :: "copy_state \<Rightarrow> bool" where
  "solvent st \<longleftrightarrow> 0 \<le> balance st \<and> 0 \<le> leaderBalance st \<and> 0 \<le> latencyCost st
     \<and> (\<forall>m. 0 \<le> get0 (held st) m) \<and> (\<forall>m. get0 (held st) m = 0 \<longrightarrow> get0 (copierCost st) m = 0)
     \<and> (\<forall>m. 0 \<le> get0 (leaderCost st) m \<and> get0 (leaderCost st) m \<le> get0 (copierCost st) m)
     \<and> 0 \<le> leaderStaked st \<and> leaderStaked st \<le> copierStaked st \<and> 0 \<le> copierRealized st + copierStaked st"

lemma solvent_start: "0 \<le> co_startingBalance op \<Longrightarrow> solvent (initial_state op)"
  by (simp add: solvent_def initial_state_def get0_def)

text \<open>The price the leader is given for a sell is never negative.\<close>

lemma solvent_buy:
  assumes s: "solvent st" and b: "bought m t sz th st st'" and "0 < t" "0 \<le> th" "th \<le> sz"
    "sz \<le> balance st" "th \<le> leaderBalance st"
  shows "solvent st'"
proof -
  have "0 \<le> get0 (held st) m" "0 \<le> get0 (leaderCost st) m" "get0 (leaderCost st) m \<le> get0 (copierCost st) m"
    using s by (simp_all add: solvent_def)
  then show ?thesis using assms
    by (simp add: solvent_def bought_def copied_leg_def) (smt (verit) add_nonneg_nonneg)
qed

lemma solvent_sell:
  assumes s: "solvent st" and b: "sold m t got th st st'" and t: "0 < t" "t \<le> get0 (held st) m"
    "0 \<le> got" "0 \<le> th"
  shows "solvent st'"
proof -
  let ?h = "get0 (held st) m" and ?c = "get0 (copierCost st) m" and ?l = "get0 (leaderCost st) m"
  have cl: "0 \<le> ?l" "?l \<le> ?c" using s by (simp_all add: solvent_def)
  note m = spent_mono [OF cl t(1,2)] and sl = spent_bounds [OF cl(1) t(1,2)]
    and sc = spent_bounds [OF order_trans [OF cl] t(1,2)]
  have "?h - t = 0 \<Longrightarrow> ?c - spent_of ?c t ?h = 0" by (simp add: spent_of_def)
  then show ?thesis using s b t m sl sc
    by (simp add: solvent_def sold_def copied_leg_def Let_def)
qed

definition fair_swap :: "copy_options \<Rightarrow> copy_input \<Rightarrow> bool" where
  "fair_swap op i \<longleftrightarrow> (case poolFrom i op of Inl _ \<Rightarrow> True
     | Inr p \<Rightarrow> pool_unit p \<le> 0 \<or> 10000 \<le> pool_unit p * totalFeeBps (co_fees op))"

lemma pool_of_quote:
  assumes "poolFrom i op = Inr pool" "wf_fees (co_fees op)" "quoteBuy pool n = Inr q \<or> quoteSell pool n = Inr q"
  shows "wf_pool pool"
  using assms poolFrom_wf quoteBuy_quotable quoteSell_quotable by blast

lemma copy_step_solvent:
  assumes s: "solvent st" and st: "copy_step op st i = Inr st'" and f: "wf_fees (co_fees op)"
  shows "solvent st'"
  using st
proof (cases rule: copy_step_cases)
  case skip
  with s show ?thesis by (simp add: solvent_def idle_def)
next
  case (buy pool q u)
  have wf: "wf_pool pool" using pool_of_quote buy f by blast
  note c = quoteBuy_contract [OF buy(2) wf, unfolded buy_contract_def]
  show ?thesis using solvent_buy [OF s buy(7)] their_cost_le [OF buy(2) wf buy(4,5)] buy(3,6) c by simp
next
  case (sell pool t q u)
  have "0 \<le> at_their_price t u"
    using sell by (simp add: at_their_price_def sdiv_nonneg_ge)
  with solvent_sell [OF s sell(8,3,4)] sell(5) show ?thesis by simp
qed

interpretation copy_solvent:
  fallible_loop "copy_step op" "\<lambda>_. wf_fees (co_fees op)" solvent for op
  by unfold_locales (rule copy_step_solvent)

definition ahead :: "copy_state \<Rightarrow> bool" where
  "ahead st \<longleftrightarrow> copierRealized st + copierStaked st \<le> leaderRealized st + leaderStaked st"

lemma copy_step_ahead:
  assumes s: "ahead st" and st: "copy_step op st i = Inr st'" and f: "wf_fees (co_fees op)" "fair_swap op i"
  shows "ahead st'"
  using st
proof (cases rule: copy_step_cases)
  case skip
  with s show ?thesis by (simp add: ahead_def idle_def)
next
  case (buy pool q u)
  with s show ?thesis by (simp add: ahead_def bought_def)
next
  case (sell pool t q u)
  have wf: "wf_pool pool" using pool_of_quote sell f(1) by blast
  have "10000 \<le> pool_unit pool * totalFeeBps (fees pool)"
    using f(2) sell(1,7) poolFrom_fees [OF sell(1)] by (simp add: fair_swap_def)
  then have "solAmount q \<le> at_their_price t u" by (rule their_proceeds_ge [OF sell(2) wf sell(6)])
  with s sell(8) show ?thesis by (auto simp: ahead_def sold_def Let_def)
qed

interpretation copy_ahead:
  fallible_loop "copy_step op" "\<lambda>i. wf_fees (co_fees op) \<and> fair_swap op i" ahead for op
  by unfold_locales (auto intro: copy_step_ahead)

section \<open>Properties\<close>

lemma backtestCopy_InrE:
  assumes "backtestCopy swaps op = Inr r"
  obtains st where "run_res (copy_step op) (initial_state op) swaps = Inr st"
    "cr_endingBalance r = balance st" "cr_copierRealized r = copierRealized st"
    "cr_leaderRealized r = leaderRealized st" "cr_legs r = legs st" "cr_copied r = copied st"
    "cr_skipped r = skipped st" "cr_latencyCost r = latencyCost st"
    "cr_returnBps r = ratio_bps (copierRealized st) (copierStaked st)"
    "cr_leaderReturnBps r = ratio_bps (leaderRealized st) (leaderStaked st)"
  using assms that unfolding backtestCopy_def rbind_eq_Inr sum.inject
  by (elim exE conjE) auto

text \<open>A leader who buys, and sells half at a better price, for the witnesses.\<close>

definition sample_swap :: "string \<Rightarrow> bool \<Rightarrow> string \<Rightarrow> string \<Rightarrow> string \<Rightarrow> string \<Rightarrow> copy_input" where
  "sample_swap m buy sol tok solA tokA = \<lparr>ci_trader = ''leader'', ci_mint = m, ci_isBuy = buy,
     ci_solAmount = sol, ci_tokenAmount = tok, ci_solAfter = solA, ci_tokenAfter = tokA, ci_blockTime = 0\<rparr>"

definition sample_swaps :: "copy_input list" where
  "sample_swaps =
     [sample_swap ''A'' True ''1000000000'' ''34000000000000'' ''31000000000'' ''1038387096774193'',
      sample_swap ''A'' False ''600000000'' ''17000000000000'' ''36000000000'' ''894166666666667'']"

definition sample_copy :: copy_options where
  "sample_copy = \<lparr>co_startingBalance = 10000000000,
     co_fees = \<lparr>protocolBps = 95, creatorBps = 30, lpBps = 0\<rparr>, co_tokenDecimals = None,
     co_maxPositionBps = None\<rparr>"

definition copy_outcome :: "copy_input list \<Rightarrow> copy_options \<Rightarrow> copy_result option" where
  "copy_outcome swaps op = (case backtestCopy swaps op of Inl _ \<Rightarrow> None | Inr r \<Rightarrow> Some r)"

lemma sample_copied: "map_option cr_copied (copy_outcome sample_swaps sample_copy) = Some 2"
  by code_simp

lemma sample_copy_Inr: obtains r where "backtestCopy sample_swaps sample_copy = Inr r" "cr_copied r = 2"
  using sample_copied that by (cases "backtestCopy sample_swaps sample_copy") (auto simp: copy_outcome_def)

lemma sample_copy_ok: "wf_fees (co_fees sample_copy)" "list_all (fair_swap sample_copy) sample_swaps"
  by code_simp+

lemma run_ahead:
  assumes "run_res (copy_step op) (initial_state op) swaps = Inr st" "wf_fees (co_fees op)"
    "list_all (fair_swap op) swaps"
  shows "ahead st"
  by (rule copy_ahead.run_inv [OF _ _ assms(1)])
    (use assms in \<open>simp_all add: ahead_def initial_state_def list_all_iff\<close>)

lemma run_solvent:
  assumes "run_res (copy_step op) (initial_state op) swaps = Inr st" "wf_fees (co_fees op)"
    "0 \<le> co_startingBalance op"
  shows "solvent st"
  by (rule copy_solvent.run_inv [OF _ _ assms(1)])
    (use assms in \<open>simp_all add: solvent_start list_all_iff\<close>)

text \<open>
  money is neither made nor lost in a copied run. At any point, on either side, the
  balance plus what the open positions cost equals the starting balance plus the profit
  realized so far, whatever the swaps.
\<close>

theorem copy_books_balance:
  assumes "run_res (copy_step op) (initial_state op) swaps = Inr st"
  shows "balance st + total (copierCost st) = co_startingBalance op + copierRealized st
    \<and> leaderBalance st + total (leaderCost st) = co_startingBalance op + leaderRealized st"
  using copy_money.run_conserves [OF assms] by (auto simp: money_def initial_state_def total_def)

theorem copy_books_balance_witness:
  "\<exists>st. run_res (copy_step sample_copy) (initial_state sample_copy) sample_swaps = Inr st
    \<and> balance st + total (copierCost st) = 10000000000 + copierRealized st"
proof -
  obtain r where "backtestCopy sample_swaps sample_copy = Inr r" by (rule sample_copy_Inr)
  then obtain st where st: "run_res (copy_step sample_copy) (initial_state sample_copy) sample_swaps = Inr st"
    by (rule backtestCopy_InrE)
  from copy_books_balance [OF st] st show ?thesis by (auto simp: sample_copy_def)
qed

text \<open>
  neither side ever spends what it does not have. Balances, holdings and the latency
  cost never go negative, a closed position carries no cost, and position by position the
  leader's cost is at most the copier's, whatever the recorded swaps claim.
\<close>

theorem copy_stays_solvent:
  assumes "run_res (copy_step op) (initial_state op) swaps = Inr st" "wf_fees (co_fees op)"
    "0 \<le> co_startingBalance op"
  shows "solvent st"
  using assms by (rule run_solvent)

theorem copy_stays_solvent_witness:
  "\<exists>st. run_res (copy_step sample_copy) (initial_state sample_copy) sample_swaps = Inr st \<and> solvent st"
proof -
  obtain r where "backtestCopy sample_swaps sample_copy = Inr r" by (rule sample_copy_Inr)
  then obtain st where st: "run_res (copy_step sample_copy) (initial_state sample_copy) sample_swaps = Inr st"
    by (rule backtestCopy_InrE)
  from copy_stays_solvent [OF st sample_copy_ok(1)] st show ?thesis by (auto simp: sample_copy_def)
qed

text \<open>
  arriving second never pays. On pools whose unit price times the fee is at least one
  lamport (ten thousand basis points), the copier never realizes more than the leader, and
  the copier's return never exceeds the leader's when the leader staked anything.
\<close>

theorem copier_never_beats_the_leader:
  assumes "backtestCopy swaps op = Inr r" "wf_fees (co_fees op)" "0 \<le> co_startingBalance op"
    "list_all (fair_swap op) swaps"
  shows "cr_copierRealized r \<le> cr_leaderRealized r
    \<and> (cr_returnBps r \<le> cr_leaderReturnBps r \<or> cr_leaderReturnBps r = 0)"
  using assms(1)
proof (cases rule: backtestCopy_InrE)
  case (1 st)
  have a: "ahead st" using 1(1) assms by (intro run_ahead)
  have s: "solvent st" using 1(1) assms by (intro run_solvent)
  let ?L = "leaderRealized st" and ?C = "copierRealized st" and ?b = "leaderStaked st" and ?d = "copierStaked st"
  have "?C \<le> ?L" using a s by (simp add: ahead_def solvent_def)
  moreover have "ratio_bps ?C ?d \<le> ratio_bps ?L ?b" if b: "?b \<noteq> 0"
  proof -
    have pos: "0 < ?b" "?b \<le> ?d" using b s by (simp_all add: solvent_def)
    have "(?C + ?d) * ?b \<le> (?L + ?b) * ?d"
      using a s pos by (intro mult_mono) (simp_all add: ahead_def solvent_def)
    then have "?C * 10000 * ?b \<le> ?L * 10000 * ?d" by (simp add: algebra_simps)
    then have "?C * 10000 sdiv ?d \<le> ?L * 10000 sdiv ?b" using pos by (intro sdiv_ratio_mono) simp_all
    with pos show ?thesis by (simp add: ratio_bps_def to_num_mono)
  qed
  ultimately show ?thesis using 1 by (auto simp: ratio_bps_def)
qed

theorem copier_never_beats_the_leader_witness:
  "\<exists>r. backtestCopy sample_swaps sample_copy = Inr r \<and> cr_copierRealized r \<le> cr_leaderRealized r"
proof -
  obtain r where r: "backtestCopy sample_swaps sample_copy = Inr r" by (rule sample_copy_Inr)
  from copier_never_beats_the_leader [OF r sample_copy_ok(1) _ sample_copy_ok(2)] r
  show ?thesis by (auto simp: sample_copy_def)
qed

text \<open>A market at dust prices, without fees: the rounded unit price hides half the price.\<close>

definition dust_swaps :: "copy_input list" where
  "dust_swaps =
     [sample_swap ''A'' True ''30000000'' ''1000000000000'' ''3000000000000'' ''100000000000000000'',
      sample_swap ''A'' False ''19'' ''10000000000'' ''19000'' ''10000000000000'',
      sample_swap ''A'' False ''1900'' ''1000000000000'' ''19000'' ''10000000000000'']"

definition dust_copy :: copy_options where
  "dust_copy = \<lparr>co_startingBalance = 10000000,
     co_fees = \<lparr>protocolBps = 0, creatorBps = 0, lpBps = 0\<rparr>, co_tokenDecimals = None,
     co_maxPositionBps = Some 1000\<rparr>"

text \<open>
  without a fee the leader can come out behind. On a pool priced at less than two
  lamports for a billion base units, the floored unit price values the leader's tokens at
  barely half of what the copier's sell fetches, and the copier realizes strictly more.
\<close>

theorem copier_beats_the_leader_at_dust_prices:
  "map_option (\<lambda>r. cr_leaderRealized r < cr_copierRealized r) (copy_outcome dust_swaps dust_copy) = Some True"
  by code_simp

text \<open>
  A leader who trades in and out of \<open>X\<close> while the copier has nothing to buy it with, and
  again once the copier has.
\<close>

definition stale_swaps :: "copy_input list" where
  "stale_swaps =
     [sample_swap ''A'' True ''1000000000'' ''34000000000000'' ''31000000000'' ''1038387096774193'',
      sample_swap ''X'' True ''1000000000'' ''34000000000000'' ''31000000000'' ''1038387096774193'',
      sample_swap ''X'' False ''1000000000'' ''34000000000000'' ''30000000000'' ''1072387096774193'',
      sample_swap ''A'' False ''1000000000'' ''34000000000000'' ''60000000000'' ''530387096774193'',
      sample_swap ''X'' True ''1000000000'' ''34000000000000'' ''31000000000'' ''1038387096774193'',
      sample_swap ''X'' False ''1000000000'' ''34000000000000'' ''30000000000'' ''1072387096774193'']"

definition stale_copy :: copy_options where
  "stale_copy = sample_copy\<lparr>co_maxPositionBps := Some 6000\<rparr>"

definition after_run :: "copy_input list \<Rightarrow> copy_options \<Rightarrow> copy_state option" where
  "after_run swaps op = (case run_res (copy_step op) (initial_state op) swaps of Inl _ \<Rightarrow> None | Inr st \<Rightarrow> Some st)"

text \<open>
  a full exit of the leader is not always copied as one. A sell the copier has nothing
  to match does not reduce the leader's recorded holding, so after the leader has sold every
  \<open>X\<close> they ever bought, the copier is left holding half of its own.
\<close>

theorem copier_keeps_half_after_a_full_exit:
  "map_option (\<lambda>st. (0 < get0 (held st) ''X'', get0 (leaderHolding st) ''X'')) (after_run stale_swaps stale_copy)
    = Some (True, 34000000000000)"
  by code_simp

end
