(* ===== verification/Leaf.thy ===== *)
theory Leaf
  imports Engine "HOL-Library.Word"
begin

text \<open>
  The bytes a trade commits to (packages/commit/src/leaf.ts). The hash and the base58 decoder
  are third-party packages: every definition that needs one takes it as an argument, \<open>H\<close> for
  \<open>sha256\<close> and \<open>dec\<close> for \<open>bs58.decode\<close> with \<open>None\<close> where it throws. Counters, slots and times
  are whole numbers.
\<close>

type_synonym byte = "8 word"

text \<open>
  Big-endian bytes of a whole number, as \<open>DataView\<close> writes them: only the low bits are kept,
  and a negative number is its two's complement.
\<close>

fun be_bytes :: "nat \<Rightarrow> int \<Rightarrow> byte list" where
  "be_bytes 0 v = []"
| "be_bytes (Suc n) v = be_bytes n (v div 256) @ [word_of_int v]"

lemma length_be_bytes [simp]: "length (be_bytes n v) = n"
  by (induction n arbitrary: v) auto

text \<open>Equal bytes are equal numbers modulo the width of the field.\<close>

lemma byte_eq_iff: "(word_of_int v :: byte) = word_of_int w \<longleftrightarrow> v mod 256 = w mod 256"
  by (simp add: word_of_int_eq_iff take_bit_eq_mod)

lemma be_bytes_eq_iff: "be_bytes n v = be_bytes n w \<longleftrightarrow> v mod 256 ^ n = w mod 256 ^ n"
proof (induction n arbitrary: v w)
  case (Suc n)
  have m: "x mod (256 * 256 ^ n) = 256 * (x div 256 mod 256 ^ n) + x mod 256" for x :: int
    by (simp add: zmod_zmult2_eq)
  have split: "256 * p + x = 256 * q + y \<longleftrightarrow> p = q \<and> x = y"
    if "0 \<le> x" "x < 256" "0 \<le> y" "y < 256" for p q x y :: int
  proof
    assume e: "256 * p + x = 256 * q + y"
    have "(256 * p + x) mod 256 = x" "(256 * q + y) mod 256 = y" using that by simp_all
    with e show "p = q \<and> x = y" by simp
  qed simp
  have "v mod 256 ^ Suc n = w mod 256 ^ Suc n
      \<longleftrightarrow> v div 256 mod 256 ^ n = w div 256 mod 256 ^ n \<and> v mod 256 = w mod 256"
    unfolding power_Suc m by (rule split) simp_all
  then show ?case by (simp only: be_bytes.simps append1_eq_conv Suc.IH byte_eq_iff)
qed simp

lemma be_bytes_inj:
  "be_bytes n v = be_bytes n w \<Longrightarrow> 0 \<le> v \<Longrightarrow> v < 256 ^ n \<Longrightarrow> 0 \<le> w \<Longrightarrow> w < 256 ^ n \<Longrightarrow> v = w"
  by (simp add: be_bytes_eq_iff)

record trade_leaf =
  leaf_sequence :: int
  leaf_seasonOrdinal :: int
  leaf_trader :: string
  leaf_mint :: string
  leaf_side :: side
  leaf_solAmount :: int
  leaf_tokenAmount :: int
  leaf_feeLamports :: int
  leaf_solReserve :: int
  leaf_tokenReserve :: int
  leaf_deliverableTokens :: int
  leaf_feeBps :: int
  leaf_poolSource :: pool_source
  leaf_priceImpactBps :: int
  leaf_partial :: bool
  leaf_clickedAtSlot :: int
  leaf_filledAtSlot :: int
  leaf_latencyMs :: int
  leaf_engineVersion :: int
  leaf_createdAt :: int

definition SIDES :: "side \<Rightarrow> int" where
  "SIDES s = (case s of Buy \<Rightarrow> 0 | Sell \<Rightarrow> 1)"

definition SOURCES :: "pool_source \<Rightarrow> int" where
  "SOURCES s = (case s of Pumpfun_curve \<Rightarrow> 0 | Pumpswap \<Rightarrow> 1 | Raydium \<Rightarrow> 2)"

definition AMOUNT_BYTES :: nat where "AMOUNT_BYTES = 16"
definition PUBKEY_BYTES :: nat where "PUBKEY_BYTES = 32"

text \<open>
  An amount is refused when it does not fit. The packages repeat this function, each with an
  error class of its own.
\<close>

definition uint_bytes :: "error \<Rightarrow> int \<Rightarrow> nat \<Rightarrow> byte list res" where
  "uint_bytes e v n =
     rbind (ensure (\<not> v < 0) e) (\<lambda>_.
     rbind (ensure (\<not> v \<ge> 2 ^ (n * 8)) e) (\<lambda>_.
     Inr (be_bytes n v)))"

lemma uint_bytes_Inr [simp]:
  "uint_bytes e v n = Inr b \<longleftrightarrow> 0 \<le> v \<and> v < 256 ^ n \<and> b = be_bytes n v"
proof -
  have "(2::int) ^ (n * 8) = 256 ^ n" by (simp add: power_mult mult.commute [of n])
  then show ?thesis by (auto simp: uint_bytes_def)
qed

definition writeUint :: "int \<Rightarrow> nat \<Rightarrow> byte list res" where
  "writeUint v n = uint_bytes Leaf_error v n"

definition writeKey :: "(string \<Rightarrow> byte list option) \<Rightarrow> string \<Rightarrow> byte list res" where
  "writeKey dec address = (case dec address of
       None \<Rightarrow> Inl Leaf_error
     | Some k \<Rightarrow> rbind (ensure (length k = PUBKEY_BYTES) Leaf_error) (\<lambda>_. Inr k))"

definition LEAF_BYTES :: nat where
  "LEAF_BYTES = 4 + 2 + PUBKEY_BYTES + PUBKEY_BYTES + 1 + AMOUNT_BYTES * 3 + AMOUNT_BYTES * 3
     + 2 + 1 + 4 + 1 + 8 + 8 + 4 + 4 + 8"

definition amounts_of :: "int list \<Rightarrow> byte list res" where
  "amounts_of vs = rbind (traverse (\<lambda>v. writeUint v AMOUNT_BYTES) vs) (\<lambda>bs. Inr (concat bs))"

definition encodeLeaf :: "(string \<Rightarrow> byte list option) \<Rightarrow> trade_leaf \<Rightarrow> byte list res" where
  "encodeLeaf dec l =
     rbind (writeKey dec (leaf_trader l)) (\<lambda>trader.
     rbind (writeKey dec (leaf_mint l)) (\<lambda>mnt.
     rbind (amounts_of [leaf_solAmount l, leaf_tokenAmount l, leaf_feeLamports l]) (\<lambda>amounts.
     rbind (amounts_of [leaf_solReserve l, leaf_tokenReserve l, leaf_deliverableTokens l]) (\<lambda>reserves.
     let bytes = be_bytes 4 (leaf_sequence l) @ be_bytes 2 (leaf_seasonOrdinal l) @ trader @ mnt
           @ be_bytes 1 (SIDES (leaf_side l)) @ amounts @ reserves
           @ be_bytes 2 (leaf_feeBps l) @ be_bytes 1 (SOURCES (leaf_poolSource l))
           @ be_bytes 4 (leaf_priceImpactBps l) @ be_bytes 1 (if leaf_partial l then 1 else 0)
           @ be_bytes 8 (leaf_clickedAtSlot l) @ be_bytes 8 (leaf_filledAtSlot l)
           @ be_bytes 4 (leaf_latencyMs l) @ be_bytes 4 (leaf_engineVersion l) @ be_bytes 8 (leaf_createdAt l)
     in rbind (ensure (length bytes = LEAF_BYTES) Leaf_error) (\<lambda>_. Inr bytes)))))"

definition LEAF_PREFIX :: byte where "LEAF_PREFIX = 0"
definition NODE_PREFIX :: byte where "NODE_PREFIX = 1"

definition leaf_input :: "byte list \<Rightarrow> byte list" where
  "leaf_input encoded = LEAF_PREFIX # encoded"

definition hashLeaf :: "(byte list \<Rightarrow> byte list) \<Rightarrow> (string \<Rightarrow> byte list option) \<Rightarrow> trade_leaf \<Rightarrow> byte list res" where
  "hashLeaf H dec l = rbind (encodeLeaf dec l) (\<lambda>encoded. Inr (H (leaf_input encoded)))"

section \<open>The encoding is fixed and faithful\<close>

lemma writeUint_Inr [simp]:
  "writeUint v n = Inr b \<longleftrightarrow> 0 \<le> v \<and> v < 256 ^ n \<and> b = be_bytes n v"
  by (simp add: writeUint_def)

lemma writeKey_Inr [simp]:
  "writeKey dec a = Inr k \<longleftrightarrow> dec a = Some k \<and> length k = PUBKEY_BYTES"
  by (auto simp: writeKey_def split: option.splits)

lemma amounts_of_3 [simp]:
  "amounts_of [a, b, c] = Inr bs \<longleftrightarrow> (0 \<le> a \<and> a < 256 ^ AMOUNT_BYTES) \<and> (0 \<le> b \<and> b < 256 ^ AMOUNT_BYTES)
     \<and> (0 \<le> c \<and> c < 256 ^ AMOUNT_BYTES)
     \<and> bs = be_bytes AMOUNT_BYTES a @ be_bytes AMOUNT_BYTES b @ be_bytes AMOUNT_BYTES c"
  by (auto simp: amounts_of_def)

text \<open>The parts of a record, and the record as their concatenation.\<close>

definition amount_ok :: "int \<Rightarrow> bool" where
  "amount_ok v \<longleftrightarrow> 0 \<le> v \<and> v < 256 ^ AMOUNT_BYTES"

definition leaf_ok :: "(string \<Rightarrow> byte list option) \<Rightarrow> trade_leaf \<Rightarrow> bool" where
  "leaf_ok dec l \<longleftrightarrow> (\<exists>k. dec (leaf_trader l) = Some k \<and> length k = PUBKEY_BYTES)
     \<and> (\<exists>k. dec (leaf_mint l) = Some k \<and> length k = PUBKEY_BYTES)
     \<and> amount_ok (leaf_solAmount l) \<and> amount_ok (leaf_tokenAmount l) \<and> amount_ok (leaf_feeLamports l)
     \<and> amount_ok (leaf_solReserve l) \<and> amount_ok (leaf_tokenReserve l) \<and> amount_ok (leaf_deliverableTokens l)"

definition leaf_parts :: "(string \<Rightarrow> byte list option) \<Rightarrow> trade_leaf \<Rightarrow> byte list list" where
  "leaf_parts dec l =
     [be_bytes 4 (leaf_sequence l), be_bytes 2 (leaf_seasonOrdinal l), the (dec (leaf_trader l)),
      the (dec (leaf_mint l)), be_bytes 1 (SIDES (leaf_side l)),
      be_bytes AMOUNT_BYTES (leaf_solAmount l), be_bytes AMOUNT_BYTES (leaf_tokenAmount l),
      be_bytes AMOUNT_BYTES (leaf_feeLamports l), be_bytes AMOUNT_BYTES (leaf_solReserve l),
      be_bytes AMOUNT_BYTES (leaf_tokenReserve l), be_bytes AMOUNT_BYTES (leaf_deliverableTokens l),
      be_bytes 2 (leaf_feeBps l), be_bytes 1 (SOURCES (leaf_poolSource l)),
      be_bytes 4 (leaf_priceImpactBps l), be_bytes 1 (if leaf_partial l then 1 else 0),
      be_bytes 8 (leaf_clickedAtSlot l), be_bytes 8 (leaf_filledAtSlot l), be_bytes 4 (leaf_latencyMs l),
      be_bytes 4 (leaf_engineVersion l), be_bytes 8 (leaf_createdAt l)]"

definition part_widths :: "nat list" where
  "part_widths = [4, 2, 32, 32, 1, 16, 16, 16, 16, 16, 16, 2, 1, 4, 1, 8, 8, 4, 4, 8]"

lemma leaf_parts_widths: "leaf_ok dec l \<Longrightarrow> map length (leaf_parts dec l) = part_widths"
  by (auto simp: leaf_parts_def leaf_ok_def part_widths_def PUBKEY_BYTES_def AMOUNT_BYTES_def)

lemma encodeLeaf_Inr: "encodeLeaf dec l = Inr b \<longleftrightarrow> leaf_ok dec l \<and> b = concat (leaf_parts dec l)"
proof
  assume "encodeLeaf dec l = Inr b"
  then show "leaf_ok dec l \<and> b = concat (leaf_parts dec l)"
    by (auto simp: encodeLeaf_def leaf_ok_def leaf_parts_def amount_ok_def Let_def)
next
  assume r: "leaf_ok dec l \<and> b = concat (leaf_parts dec l)"
  have "length (concat (leaf_parts dec l)) = sum_list part_widths"
    using r leaf_parts_widths by (simp add: length_concat)
  then have "length (concat (leaf_parts dec l)) = LEAF_BYTES"
    by (simp add: part_widths_def LEAF_BYTES_def PUBKEY_BYTES_def AMOUNT_BYTES_def)
  then have len: "(length (concat (leaf_parts dec l)) = LEAF_BYTES) = True" by simp
  obtain k k' where k: "dec (leaf_trader l) = Some k" "length k = PUBKEY_BYTES"
    "dec (leaf_mint l) = Some k'" "length k' = PUBKEY_BYTES"
    using r by (auto simp: leaf_ok_def)
  then have w: "writeKey dec (leaf_trader l) = Inr k" "writeKey dec (leaf_mint l) = Inr k'" by simp_all
  have a: "amounts_of [leaf_solAmount l, leaf_tokenAmount l, leaf_feeLamports l]
      = Inr (be_bytes AMOUNT_BYTES (leaf_solAmount l) @ be_bytes AMOUNT_BYTES (leaf_tokenAmount l)
          @ be_bytes AMOUNT_BYTES (leaf_feeLamports l))"
    "amounts_of [leaf_solReserve l, leaf_tokenReserve l, leaf_deliverableTokens l]
      = Inr (be_bytes AMOUNT_BYTES (leaf_solReserve l) @ be_bytes AMOUNT_BYTES (leaf_tokenReserve l)
          @ be_bytes AMOUNT_BYTES (leaf_deliverableTokens l))"
    using r by (simp_all add: leaf_ok_def amount_ok_def)
  show "encodeLeaf dec l = Inr b"
    unfolding encodeLeaf_def w a rbind_Inr Let_def
    using r len k by (simp add: leaf_parts_def ensure_def)
qed

lemma encodeLeaf_length: "encodeLeaf dec l = Inr b \<Longrightarrow> length b = LEAF_BYTES"
  by (auto simp: encodeLeaf_def Let_def)

lemma concat_same_widths:
  "concat xs = concat ys \<Longrightarrow> map length xs = map length ys \<Longrightarrow> xs = ys"
proof (induction xs arbitrary: ys)
  case (Cons x xs)
  then show ?case by (cases ys) auto
qed simp

lemma encodeLeaf_parts:
  assumes "encodeLeaf dec l = Inr b" "encodeLeaf dec l' = Inr b"
  shows "leaf_parts dec l = leaf_parts dec l'"
  using assms leaf_parts_widths concat_same_widths by (metis encodeLeaf_Inr)

text \<open>A leaf whose counters fit the fields they are written to.\<close>

definition fits :: "nat \<Rightarrow> int \<Rightarrow> bool" where
  "fits n v \<longleftrightarrow> 0 \<le> v \<and> v < 256 ^ n"

definition leaf_fits :: "trade_leaf \<Rightarrow> bool" where
  "leaf_fits l \<longleftrightarrow> fits 4 (leaf_sequence l) \<and> - 32768 \<le> leaf_seasonOrdinal l \<and> leaf_seasonOrdinal l < 32768
     \<and> fits 2 (leaf_feeBps l) \<and> fits 4 (leaf_priceImpactBps l) \<and> fits 8 (leaf_clickedAtSlot l)
     \<and> fits 8 (leaf_filledAtSlot l) \<and> fits 4 (leaf_latencyMs l) \<and> fits 4 (leaf_engineVersion l)
     \<and> fits 8 (leaf_createdAt l)"

lemma fits_inj: "be_bytes n v = be_bytes n w \<Longrightarrow> fits n v \<Longrightarrow> fits n w \<Longrightarrow> v = w"
  by (simp add: fits_def be_bytes_inj)

lemma ordinal_inj:
  assumes "be_bytes 2 v = be_bytes 2 w" "- 32768 \<le> v" "v < 32768" "- 32768 \<le> w" "w < 32768"
  shows "v = w"
proof -
  have "v mod 65536 = w mod 65536" using assms(1) by (simp add: be_bytes_eq_iff)
  then have "(v + 32768) mod 65536 = (w + 32768) mod 65536" by (rule mod_add_cong) simp
  moreover have "(v + 32768) mod 65536 = v + 32768" "(w + 32768) mod 65536 = w + 32768"
    using assms by (simp_all add: mod_pos_pos_trivial)
  ultimately show ?thesis by simp
qed

lemma SIDES_inj: "be_bytes 1 (SIDES a) = be_bytes 1 (SIDES b) \<Longrightarrow> a = b"
  by (cases a; cases b) (simp_all add: SIDES_def be_bytes_eq_iff)

lemma SOURCES_inj: "be_bytes 1 (SOURCES a) = be_bytes 1 (SOURCES b) \<Longrightarrow> a = b"
  by (cases a; cases b) (simp_all add: SOURCES_def be_bytes_eq_iff)

lemma partial_inj: "be_bytes 1 (if a then 1 else 0) = be_bytes 1 (if b then 1 else (0::int)) \<Longrightarrow> a = b"
  by (simp add: be_bytes_eq_iff split: if_splits)

section \<open>Properties\<close>

definition same_but_addresses :: "(string \<Rightarrow> byte list option) \<Rightarrow> trade_leaf \<Rightarrow> trade_leaf \<Rightarrow> bool" where
  "same_but_addresses dec l l' \<longleftrightarrow> dec (leaf_trader l) = dec (leaf_trader l') \<and> dec (leaf_mint l) = dec (leaf_mint l')
     \<and> l'\<lparr>leaf_trader := leaf_trader l, leaf_mint := leaf_mint l\<rparr> = l"

text \<open>
  two trades never share their bytes. Every encoding is exactly \<open>LEAF_BYTES\<close> long, and
  two trades whose counters fit their fields and that encode to the same bytes agree in
  every field and name the same two keys.
\<close>

theorem encoding_is_injective:
  assumes e: "encodeLeaf dec l = Inr b" "encodeLeaf dec l' = Inr b" and f: "leaf_fits l" "leaf_fits l'"
  shows "length b = LEAF_BYTES \<and> same_but_addresses dec l l'"
proof -
  note p = encodeLeaf_parts [OF e, unfolded leaf_parts_def list.inject]
  have ok: "leaf_ok dec l" "leaf_ok dec l'" "length b = LEAF_BYTES"
    using e encodeLeaf_Inr encodeLeaf_length by blast+
  then have keys: "dec (leaf_trader l) = dec (leaf_trader l')" "dec (leaf_mint l) = dec (leaf_mint l')"
    using p by (auto simp: leaf_ok_def)
  have am: "be_bytes AMOUNT_BYTES v = be_bytes AMOUNT_BYTES w \<Longrightarrow> amount_ok v \<Longrightarrow> amount_ok w \<Longrightarrow> v = w" for v w
    by (simp add: amount_ok_def be_bytes_inj)
  note amt = ok(1,2) [unfolded leaf_ok_def]
  have "leaf_solAmount l = leaf_solAmount l'" "leaf_tokenAmount l = leaf_tokenAmount l'"
    "leaf_feeLamports l = leaf_feeLamports l'" "leaf_solReserve l = leaf_solReserve l'"
    "leaf_tokenReserve l = leaf_tokenReserve l'" "leaf_deliverableTokens l = leaf_deliverableTokens l'"
    using p amt by (simp_all add: am)
  moreover have "leaf_side l = leaf_side l'" "leaf_poolSource l = leaf_poolSource l'" "leaf_partial l = leaf_partial l'"
    using p SIDES_inj SOURCES_inj partial_inj by blast+
  moreover note fl = f [unfolded leaf_fits_def]
  have "leaf_sequence l = leaf_sequence l'" "leaf_seasonOrdinal l = leaf_seasonOrdinal l'"
    "leaf_feeBps l = leaf_feeBps l'" "leaf_priceImpactBps l = leaf_priceImpactBps l'"
    "leaf_clickedAtSlot l = leaf_clickedAtSlot l'" "leaf_filledAtSlot l = leaf_filledAtSlot l'"
    "leaf_latencyMs l = leaf_latencyMs l'" "leaf_engineVersion l = leaf_engineVersion l'"
    "leaf_createdAt l = leaf_createdAt l'"
    using p fl fits_inj ordinal_inj by blast+
  ultimately show ?thesis using keys ok(3) by (simp add: same_but_addresses_def)
qed

definition key_of :: "string \<Rightarrow> byte list option" where
  "key_of s = (if s = ''bad'' then None else Some (replicate 32 (of_nat (length s))))"

definition sample_leaf :: "int \<Rightarrow> trade_leaf" where
  "sample_leaf n = \<lparr>leaf_sequence = n, leaf_seasonOrdinal = 1, leaf_trader = ''trader'', leaf_mint = ''mint'',
     leaf_side = Buy, leaf_solAmount = 1000000000, leaf_tokenAmount = 34000000000000,
     leaf_feeLamports = 12500000, leaf_solReserve = 30000000000, leaf_tokenReserve = 1073000000000000,
     leaf_deliverableTokens = 793100000000000, leaf_feeBps = 125, leaf_poolSource = Pumpfun_curve,
     leaf_priceImpactBps = 329, leaf_partial = False, leaf_clickedAtSlot = 400000000,
     leaf_filledAtSlot = 400000004, leaf_latencyMs = 1500, leaf_engineVersion = 1, leaf_createdAt = 1760000000000\<rparr>"

lemma sample_leaf_ok: "leaf_ok key_of (sample_leaf n)"
  by (simp add: leaf_ok_def key_of_def sample_leaf_def amount_ok_def AMOUNT_BYTES_def PUBKEY_BYTES_def)

lemma sample_leaf_encodes: "encodeLeaf key_of (sample_leaf n) = Inr (concat (leaf_parts key_of (sample_leaf n)))"
  by (simp add: encodeLeaf_Inr sample_leaf_ok)

lemma sample_leaf_fits: "0 \<le> n \<Longrightarrow> n < 4294967296 \<Longrightarrow> leaf_fits (sample_leaf n)"
  by (simp add: leaf_fits_def fits_def sample_leaf_def)

theorem encoding_is_injective_witness:
  "length (concat (leaf_parts key_of (sample_leaf 7))) = LEAF_BYTES"
  using encoding_is_injective [OF sample_leaf_encodes sample_leaf_encodes sample_leaf_fits sample_leaf_fits]
  by simp

text \<open>
  a figure too wide for its field is not refused but cut. Two trades whose price impact
  differs by \<open>2 ^ 32\<close> basis points (or whose sequence does) have the same bytes, so no hash
  of them can tell them apart.
\<close>

theorem wide_figures_wrap:
  "encodeLeaf key_of (sample_leaf 1) = encodeLeaf key_of ((sample_leaf 1)\<lparr>leaf_priceImpactBps := 329 + 2 ^ 32\<rparr>)
    \<and> encodeLeaf key_of (sample_leaf 1) = encodeLeaf key_of (sample_leaf (1 + 2 ^ 32))"
proof -
  have w: "be_bytes 4 4294967625 = be_bytes 4 329" "be_bytes 4 4294967297 = be_bytes 4 1"
    by (simp_all only: be_bytes_eq_iff) simp_all
  then show ?thesis by (simp add: encodeLeaf_def sample_leaf_def)
qed

end
