(* ===== verification/Merkle.thy ===== *)
theory Merkle
  imports Leaf
begin

text \<open>
  Merkle trees over trade leaves (packages/commit/src/merkle.ts): building the levels, the
  path of a leaf, recomputing a root, and hex. The security statement names the byte strings
  that are hashed and asks that the hash does not collide on those, never that it is
  injective.
\<close>

definition node_input :: "byte list \<Rightarrow> byte list \<Rightarrow> byte list" where
  "node_input l r = NODE_PREFIX # l @ r"

definition hashNode :: "(byte list \<Rightarrow> byte list) \<Rightarrow> byte list \<Rightarrow> byte list \<Rightarrow> byte list" where
  "hashNode H l r = H (node_input l r)"

record proof_step =
  sibling :: "byte list"
  siblingOnLeft :: bool

record merkle_tree =
  tree_root :: "byte list"
  leafCount :: nat
  levels :: "byte list list list"

text \<open>One level above: pairs are hashed, an odd node at the end is promoted unchanged.\<close>

fun next_level :: "(byte list \<Rightarrow> byte list) \<Rightarrow> byte list list \<Rightarrow> byte list list" where
  "next_level H (l # r # rest) = hashNode H l r # next_level H rest"
| "next_level H [l] = [l]"
| "next_level H [] = []"

lemma length_next_level [simp]: "length (next_level H xs) = (length xs + 1) div 2"
  by (induction H xs rule: next_level.induct) auto

text \<open>The loop that adds levels until one has a single node; it ends since levels shrink.\<close>

function build_levels :: "(byte list \<Rightarrow> byte list) \<Rightarrow> byte list list \<Rightarrow> byte list list list" where
  "build_levels H current =
     (if length current > 1 then current # build_levels H (next_level H current) else [current])"
  by pat_completeness auto

termination
  by (relation "measure (\<lambda>(H, current). length current)") auto

declare build_levels.simps [simp del]

lemma build_levels_not_Nil [simp]: "build_levels H xs \<noteq> []"
  by (subst build_levels.simps) simp

definition buildTree :: "(byte list \<Rightarrow> byte list) \<Rightarrow> byte list list \<Rightarrow> merkle_tree res" where
  "buildTree H leafHashes =
     rbind (ensure (length leafHashes \<noteq> 0) Merkle_error) (\<lambda>_.
     let lv = build_levels H leafHashes in
     Inr \<lparr>tree_root = hd (last lv), leafCount = length leafHashes, levels = lv\<rparr>)"

definition merkleRoot :: "(byte list \<Rightarrow> byte list) \<Rightarrow> byte list list \<Rightarrow> byte list res" where
  "merkleRoot H leafHashes = rbind (buildTree H leafHashes) (\<lambda>t. Inr (tree_root t))"

fun proof_path :: "byte list list list \<Rightarrow> nat \<Rightarrow> proof_step list" where
  "proof_path (nodes # upper # rest) position =
     (let isRight = (position mod 2 = 1);
          siblingIndex = (if isRight then position - 1 else position + 1)
      in (if siblingIndex < length nodes
          then [\<lparr>sibling = nodes ! siblingIndex, siblingOnLeft = isRight\<rparr>] else [])
         @ proof_path (upper # rest) (position div 2))"
| "proof_path _ position = []"

definition buildProof :: "merkle_tree \<Rightarrow> int \<Rightarrow> proof_step list res" where
  "buildProof t index =
     rbind (ensure (\<not> (index < 0 \<or> index \<ge> int (leafCount t))) Merkle_error) (\<lambda>_.
     Inr (proof_path (levels t) (nat index)))"

definition step_input :: "proof_step \<Rightarrow> byte list \<Rightarrow> byte list" where
  "step_input s current =
     (if siblingOnLeft s then node_input (sibling s) current else node_input current (sibling s))"

definition computeRoot :: "(byte list \<Rightarrow> byte list) \<Rightarrow> byte list \<Rightarrow> proof_step list \<Rightarrow> byte list" where
  "computeRoot H leafHash steps = foldl (\<lambda>current s. H (step_input s current)) leafHash steps"

definition equalHashes :: "byte list \<Rightarrow> byte list \<Rightarrow> bool" where
  "equalHashes a b = (length a = length b \<and> list_all (\<lambda>i. a ! i = b ! i) [0..<length a])"

definition verifyProof :: "(byte list \<Rightarrow> byte list) \<Rightarrow> byte list \<Rightarrow> proof_step list \<Rightarrow> byte list \<Rightarrow> bool" where
  "verifyProof H leafHash steps rt = equalHashes (computeRoot H leafHash steps) rt"

section \<open>Hex\<close>

definition hex_char :: "nat \<Rightarrow> char" where
  "hex_char n = char_of (if n < 10 then 48 + n else 87 + n)"

definition byte_hex :: "byte \<Rightarrow> string" where
  "byte_hex b = [hex_char (unat b div 16), hex_char (unat b mod 16)]"

definition toHex :: "byte list \<Rightarrow> string" where
  "toHex bs = concat (map byte_hex bs)"

definition hex_digit :: "char \<Rightarrow> nat option" where
  "hex_digit c = (let k = (of_char c :: nat) in
     if 48 \<le> k \<and> k \<le> 57 then Some (k - 48)
     else if 97 \<le> k \<and> k \<le> 102 then Some (k - 87)
     else if 65 \<le> k \<and> k \<le> 70 then Some (k - 55) else None)"

fun hex_pairs :: "string \<Rightarrow> byte list" where
  "hex_pairs (a # b # cs) = of_nat (16 * the (hex_digit a) + the (hex_digit b)) # hex_pairs cs"
| "hex_pairs _ = []"

definition fromHex :: "string \<Rightarrow> byte list res" where
  "fromHex hex = rbind (ensure (\<not> (length hex mod 2 \<noteq> 0 \<or> \<not> list_all (\<lambda>c. hex_digit c \<noteq> None) hex)) Merkle_error)
     (\<lambda>_. Inr (hex_pairs hex))"

lemma hex_digit_char [simp]: "n < 16 \<Longrightarrow> hex_digit (hex_char n) = Some n"
  by (simp add: hex_digit_def hex_char_def)

lemma toHex_Cons: "toHex (b # bs) = byte_hex b @ toHex bs"
  by (simp add: toHex_def)

lemma byte_split: "word_of_nat (16 * (unat b div 16) + unat b mod 16) = (b :: byte)"
  by simp

lemma unat_byte: "unat (b :: byte) < 256"
  using unsigned_less [of b] by simp

lemma fromHex_toHex: "fromHex (toHex bs) = Inr bs"
proof -
  have "length (toHex bs) mod 2 = 0 \<and> list_all (\<lambda>c. hex_digit c \<noteq> None) (toHex bs) \<and> hex_pairs (toHex bs) = bs"
  proof (induction bs)
    case (Cons b bs)
    have "unat b div 16 < 16" "unat b mod 16 < 16" using unat_byte [of b] by simp_all
    with Cons show ?case by (simp add: toHex_Cons byte_hex_def)
  qed (simp add: toHex_def)
  then show ?thesis by (simp add: fromHex_def)
qed

lemma toHex_inj [simp]: "toHex a = toHex b \<longleftrightarrow> a = b"
  using fromHex_toHex by (metis sum.inject(2))

lemma equalHashes_iff [simp]: "equalHashes a b \<longleftrightarrow> a = b"
  by (auto simp: equalHashes_def list_all_iff list_eq_iff_nth_eq [of a b])

section \<open>Every leaf has a path\<close>

lemma next_level_nth:
  "i < length xs \<Longrightarrow> next_level H xs ! (i div 2) =
     (if odd i then hashNode H (xs ! (i - 1)) (xs ! i)
      else if i + 1 < length xs then hashNode H (xs ! i) (xs ! (i + 1)) else xs ! i)"
proof (induction H xs arbitrary: i rule: next_level.induct)
  case (1 H l r rest)
  show ?case
  proof (cases "i < 2")
    case True
    then consider "i = 0" | "i = 1" by linarith
    then show ?thesis by cases simp_all
  next
    case False
    then obtain j where j: "i = Suc (Suc j)" by (metis add_2_eq_Suc le_Suc_ex not_less)
    then have "j < length rest" using "1.prems" by simp
    note ih = "1.IH" [OF this]
    show ?thesis
    proof (cases j)
      case 0
      with ih j show ?thesis by simp
    next
      case (Suc k)
      with ih j show ?thesis by simp
    qed
  qed
qed simp_all

lemma proof_path_step:
  "1 < length xs \<Longrightarrow> i < length xs \<Longrightarrow>
     computeRoot H (xs ! i) (proof_path (build_levels H xs) i)
     = computeRoot H (next_level H xs ! (i div 2)) (proof_path (build_levels H (next_level H xs)) (i div 2))"
proof -
  assume l: "1 < length xs" and i: "i < length xs"
  obtain upper rest where b: "build_levels H (next_level H xs) = upper # rest"
    using build_levels.simps [of H "next_level H xs"] by (cases "length (next_level H xs) > 1") auto
  have "build_levels H xs = xs # upper # rest" using l b by (subst build_levels.simps) simp
  then show ?thesis
    using i by (auto simp: b next_level_nth computeRoot_def step_input_def hashNode_def odd_iff_mod_2_eq_one Let_def)
qed

lemma path_reaches_root:
  "i < length xs \<Longrightarrow> computeRoot H (xs ! i) (proof_path (build_levels H xs) i) = hd (last (build_levels H xs))"
proof (induction H xs arbitrary: i rule: build_levels.induct)
  case (1 H xs)
  show ?case
  proof (cases "length xs > 1")
    case True
    have "i div 2 < length (next_level H xs)" using "1.prems" by auto
    then have "computeRoot H (next_level H xs ! (i div 2))
        (proof_path (build_levels H (next_level H xs)) (i div 2))
        = hd (last (build_levels H (next_level H xs)))"
      using "1.IH" True by blast
    moreover have "last (build_levels H xs) = last (build_levels H (next_level H xs))"
      using True by (subst build_levels.simps) (simp add: build_levels.simps [of H "next_level H xs"])
    ultimately show ?thesis using proof_path_step [OF True "1.prems"] by simp
  next
    case False
    with "1.prems" have "i = 0" "length xs = 1" by auto
    moreover obtain x where "xs = [x]" using \<open>length xs = 1\<close> by (cases xs) auto
    moreover have "build_levels H [x] = [[x]]" by (simp add: build_levels.simps)
    ultimately show ?thesis by (simp add: computeRoot_def)
  qed
qed

section \<open>A path proves nothing else\<close>

text \<open>The byte strings that are hashed: while a tree is built, and while a path is checked.\<close>

fun pair_inputs :: "byte list list \<Rightarrow> byte list list" where
  "pair_inputs (l # r # rest) = node_input l r # pair_inputs rest"
| "pair_inputs _ = []"

definition node_inputs :: "(byte list \<Rightarrow> byte list) \<Rightarrow> byte list list \<Rightarrow> byte list list" where
  "node_inputs H xs = concat (map pair_inputs (build_levels H xs))"

fun path_inputs :: "(byte list \<Rightarrow> byte list) \<Rightarrow> byte list \<Rightarrow> proof_step list \<Rightarrow> byte list list" where
  "path_inputs H x [] = []"
| "path_inputs H x (s # ss) = step_input s x # path_inputs H (H (step_input s x)) ss"

definition nodes_of :: "(byte list \<Rightarrow> byte list) \<Rightarrow> byte list list \<Rightarrow> byte list set" where
  "nodes_of H xs = set (concat (build_levels H xs))"

text \<open>The hash is good for a set of inputs: digests of 32 bytes, and no two inputs share one.\<close>

definition sound_on :: "(byte list \<Rightarrow> byte list) \<Rightarrow> byte list set \<Rightarrow> bool" where
  "sound_on H S \<longleftrightarrow> inj_on H S \<and> (\<forall>b \<in> S. length (H b) = 32)"

lemma next_level_node:
  "y \<in> set (next_level H xs) \<Longrightarrow> y \<in> set xs
     \<or> (\<exists>l \<in> set xs. \<exists>r \<in> set xs. y = H (node_input l r) \<and> node_input l r \<in> set (pair_inputs xs))"
  by (induction H xs rule: next_level.induct) (auto simp: hashNode_def)

lemma nodes_cases:
  "y \<in> nodes_of H xs \<Longrightarrow> y \<in> set xs
     \<or> (\<exists>l \<in> nodes_of H xs. \<exists>r \<in> nodes_of H xs. y = H (node_input l r) \<and> node_input l r \<in> set (node_inputs H xs))"
proof (induction H xs rule: build_levels.induct)
  case (1 H xs)
  show ?case
  proof (cases "length xs > 1")
    case True
    let ?next = "next_level H xs"
    have b: "build_levels H xs = xs # build_levels H ?next" using True by (subst build_levels.simps) simp
    have n: "nodes_of H xs = set xs \<union> nodes_of H ?next" "set (node_inputs H xs) = set (pair_inputs xs) \<union> set (node_inputs H ?next)"
      by (simp_all add: nodes_of_def node_inputs_def b)
    consider "y \<in> set xs" | "y \<in> nodes_of H ?next" using "1.prems" n by blast
    then show ?thesis
    proof cases
      case 2
      from "1.IH" [OF True 2] show ?thesis
      proof
        assume "y \<in> set ?next"
        from next_level_node [OF this] show ?thesis using n by blast
      next
        assume "\<exists>l \<in> nodes_of H ?next. \<exists>r \<in> nodes_of H ?next. y = H (node_input l r)
          \<and> node_input l r \<in> set (node_inputs H ?next)"
        then show ?thesis using n by blast
      qed
    qed simp
  next
    case False
    then have "build_levels H xs = [xs]" by (subst build_levels.simps) simp
    with "1.prems" show ?thesis by (simp add: nodes_of_def)
  qed
qed

lemma root_in_nodes: "xs \<noteq> [] \<Longrightarrow> hd (last (build_levels H xs)) \<in> nodes_of H xs"
proof (induction H xs rule: build_levels.induct)
  case (1 H xs)
  show ?case
  proof (cases "length xs > 1")
    case True
    then have "0 < length (next_level H xs)" by simp
    then have "next_level H xs \<noteq> []" by blast
    then have "hd (last (build_levels H (next_level H xs))) \<in> nodes_of H (next_level H xs)"
      using "1.IH" True by blast
    moreover have "build_levels H xs = xs # build_levels H (next_level H xs)"
      using True by (subst build_levels.simps) simp
    ultimately show ?thesis by (simp add: nodes_of_def)
  next
    case False
    then have "build_levels H xs = [xs]" by (subst build_levels.simps) simp
    with "1.prems" show ?thesis by (simp add: nodes_of_def)
  qed
qed

lemma computeRoot_snoc: "computeRoot H x (ss @ [s]) = H (step_input s (computeRoot H x ss))"
  by (simp add: computeRoot_def)

lemma path_inputs_snoc: "path_inputs H x (ss @ [s]) = path_inputs H x ss @ [step_input s (computeRoot H x ss)]"
  by (induction ss arbitrary: x) (simp_all add: computeRoot_def)

lemma computeRoot_length:
  "length x = 32 \<Longrightarrow> sound_on H (set (path_inputs H x ss)) \<Longrightarrow> length (computeRoot H x ss) = 32"
proof (cases ss rule: rev_cases)
  case (snoc ys y)
  assume "sound_on H (set (path_inputs H x ss))"
  then show ?thesis by (simp add: snoc computeRoot_snoc path_inputs_snoc sound_on_def)
qed (simp add: computeRoot_def)

lemma sound_on_mono: "sound_on H S \<Longrightarrow> T \<subseteq> S \<Longrightarrow> sound_on H T"
  unfolding sound_on_def by (meson inj_on_subset subsetD)

text \<open>A record with the byte of its kind in front; a leaf of a trade has its own.\<close>

definition tagged :: "byte \<Rightarrow> byte list \<Rightarrow> byte list" where
  "tagged t e = t # e"

lemma leaf_input_tagged: "leaf_input = tagged LEAF_PREFIX"
  by (simp add: fun_eq_iff leaf_input_def tagged_def)

text \<open>A path that arrives at a node of the tree started at a node of the tree.\<close>

lemma path_stays_in_tree:
  assumes ok: "sound_on H S" and tag: "t \<noteq> NODE_PREFIX" and S: "set (node_inputs H xs) \<subseteq> S" "tagged t ` E \<subseteq> S"
    and xs: "set xs \<subseteq> H ` tagged t ` E" and x: "length x = 32"
    and P: "set (path_inputs H x ss) \<subseteq> S" and r: "computeRoot H x ss \<in> nodes_of H xs"
  shows "x \<in> nodes_of H xs"
  using P r
proof (induction ss rule: rev_induct)
  case (snoc s ss)
  let ?c = "computeRoot H x ss"
  have i: "step_input s ?c \<in> S" and P': "set (path_inputs H x ss) \<subseteq> S"
    using snoc.prems by (simp_all add: path_inputs_snoc)
  have c: "length ?c = 32" by (rule computeRoot_length [OF x sound_on_mono [OF ok P']])
  have len: "length y = 32" if "y \<in> nodes_of H xs" for y
    using nodes_cases [OF that] xs S ok unfolding sound_on_def by blast
  have y: "H (step_input s ?c) \<in> nodes_of H xs" using snoc.prems by (simp add: computeRoot_snoc)
  from nodes_cases [OF y] have "?c \<in> nodes_of H xs"
  proof
    assume "H (step_input s ?c) \<in> set xs"
    then obtain e where "e \<in> E" "H (step_input s ?c) = H (tagged t e)" using xs by blast
    then have "step_input s ?c = tagged t e" using ok S i unfolding sound_on_def by (meson image_subset_iff inj_onD)
    then show ?thesis by (simp add: step_input_def node_input_def tagged_def tag tag [symmetric] split: if_splits)
  next
    assume "\<exists>l \<in> nodes_of H xs. \<exists>r \<in> nodes_of H xs. H (step_input s ?c) = H (node_input l r)
      \<and> node_input l r \<in> set (node_inputs H xs)"
    then obtain l r where lr: "l \<in> nodes_of H xs" "r \<in> nodes_of H xs"
      and "H (step_input s ?c) = H (node_input l r)" "node_input l r \<in> S" using S by blast
    then have "step_input s ?c = node_input l r" using ok i unfolding sound_on_def by (meson inj_onD)
    then show ?thesis using lr len [OF lr(1)] len [OF lr(2)] c
      by (auto simp: step_input_def node_input_def append_eq_append_conv split: if_splits)
  qed
  then show ?case using snoc.IH P' by blast
qed (simp add: computeRoot_def)

text \<open>And a node that is the hash of a leaf's bytes is one of the leaves.\<close>

lemma path_proves_leaf:
  assumes ok: "sound_on H S" and tag: "t \<noteq> NODE_PREFIX" and S: "set (node_inputs H xs) \<subseteq> S" "tagged t ` E \<subseteq> S" "tagged t e \<in> S"
    and xs: "set xs \<subseteq> H ` tagged t ` E"
    and P: "set (path_inputs H (H (tagged t e)) ss) \<subseteq> S"
    and r: "computeRoot H (H (tagged t e)) ss \<in> nodes_of H xs"
  shows "H (tagged t e) \<in> set xs \<and> e \<in> E"
proof -
  have "length (H (tagged t e)) = 32" using ok S unfolding sound_on_def by blast
  then have n: "H (tagged t e) \<in> nodes_of H xs" using path_stays_in_tree [OF ok tag S(1,2) xs _ P r] by simp
  have "H (tagged t e) \<in> set xs"
    using nodes_cases [OF n]
  proof
    assume "\<exists>l \<in> nodes_of H xs. \<exists>r \<in> nodes_of H xs. H (tagged t e) = H (node_input l r)
      \<and> node_input l r \<in> set (node_inputs H xs)"
    then obtain l r where "H (tagged t e) = H (node_input l r)" "node_input l r \<in> S" using S by blast
    then have "tagged t e = node_input l r" using ok S(3) unfolding sound_on_def by (meson inj_onD)
    then show ?thesis by (simp add: node_input_def tagged_def tag tag [symmetric])
  qed
  moreover from this obtain e' where "e' \<in> E" "H (tagged t e) = H (tagged t e')" using xs by blast
  then have "tagged t e = tagged t e'" using ok S unfolding sound_on_def by (meson image_subset_iff inj_onD)
  then have "e \<in> E" using \<open>e' \<in> E\<close> by (simp add: tagged_def)
  ultimately show ?thesis by blast
qed

lemma tagged_root_binds:
  assumes root: "merkleRoot H (map (\<lambda>e. H (tagged t e)) es) = Inr r"
    and v: "verifyProof H (H (tagged t e)) p r"
    and tag: "t \<noteq> NODE_PREFIX" and ok: "sound_on H (tagged t ` set es \<union> {tagged t e}
      \<union> set (node_inputs H (map (\<lambda>e. H (tagged t e)) es)) \<union> set (path_inputs H (H (tagged t e)) p))"
  shows "e \<in> set es"
proof -
  let ?hs = "map (\<lambda>e. H (tagged t e)) es"
  have "?hs \<noteq> []" "r = hd (last (build_levels H ?hs))"
    using root by (auto simp: merkleRoot_def buildTree_def Let_def)
  then have "computeRoot H (H (tagged t e)) p \<in> nodes_of H ?hs"
    using v root_in_nodes [of ?hs H] by (simp add: verifyProof_def)
  then show ?thesis
    using path_proves_leaf [OF ok tag, of ?hs "set es" e p] by auto
qed

lemma root_binds:
  assumes "merkleRoot H (map (\<lambda>e. H (leaf_input e)) es) = Inr r"
    and "verifyProof H (H (leaf_input e)) p r"
    and "sound_on H (leaf_input ` set es \<union> {leaf_input e}
      \<union> set (node_inputs H (map (\<lambda>e. H (leaf_input e)) es)) \<union> set (path_inputs H (H (leaf_input e)) p))"
  shows "e \<in> set es"
  using assms unfolding leaf_input_tagged
  by (intro tagged_root_binds) (simp_all add: LEAF_PREFIX_def NODE_PREFIX_def)

section \<open>Membership as an interface\<close>

text \<open>
  What a client needs of a commitment to a list: a root, a path for every position, and that
  every path recomputes the root.
\<close>

locale membership =
  fixes root_of :: "'h list \<Rightarrow> 'r res"
    and path_of :: "'h list \<Rightarrow> nat \<Rightarrow> 'p res"
    and recompute :: "'h \<Rightarrow> 'p \<Rightarrow> 'r"
  assumes root_total: "xs \<noteq> [] \<Longrightarrow> \<exists>r. root_of xs = Inr r"
    and path_total: "i < length xs \<Longrightarrow> \<exists>p. path_of xs i = Inr p"
    and complete: "root_of xs = Inr r \<Longrightarrow> path_of xs i = Inr p \<Longrightarrow> i < length xs \<Longrightarrow> recompute (xs ! i) p = r"
begin

lemma every_member_verifies:
  assumes "x \<in> set xs"
  obtains i p r where "i < length xs" "root_of xs = Inr r" "path_of xs i = Inr p" "recompute x p = r"
proof -
  obtain i where i: "i < length xs" "xs ! i = x" using assms by (meson in_set_conv_nth)
  then obtain r where r: "root_of xs = Inr r" using root_total by (cases xs) auto
  obtain p where p: "path_of xs i = Inr p" using path_total i by blast
  with complete [OF r p] i that r show thesis by blast
qed

lemma paths_agree:
  assumes "path_of xs i = Inr p" "path_of xs j = Inr q" "i < length xs" "j < length xs"
  shows "recompute (xs ! i) p = recompute (xs ! j) q"
proof -
  obtain r where "root_of xs = Inr r" using root_total assms(3) by (cases xs) auto
  with assms show ?thesis by (simp add: complete)
qed

end

definition path_at :: "(byte list \<Rightarrow> byte list) \<Rightarrow> byte list list \<Rightarrow> nat \<Rightarrow> proof_step list res" where
  "path_at H xs i = rbind (buildTree H xs) (\<lambda>t. buildProof t (int i))"

interpretation merkle: membership "merkleRoot H" "path_at H" "computeRoot H" for H
proof unfold_locales
  show "xs \<noteq> [] \<Longrightarrow> \<exists>r. merkleRoot H xs = Inr r" for xs
    by (simp add: merkleRoot_def buildTree_def Let_def)
  show "i < length xs \<Longrightarrow> \<exists>p. path_at H xs i = Inr p" for i xs
    by (auto simp: path_at_def buildTree_def buildProof_def Let_def)
  show "merkleRoot H xs = Inr r \<Longrightarrow> path_at H xs i = Inr p \<Longrightarrow> i < length xs
      \<Longrightarrow> computeRoot H (xs ! i) p = r" for xs r i p
    by (auto simp: merkleRoot_def path_at_def buildTree_def buildProof_def Let_def path_reaches_root)
qed

section \<open>Properties\<close>

text \<open>
  every leaf of a tree can be proved. The path built for any position of any batch, odd
  levels and promoted nodes included, recomputes the root of the batch from that leaf.
\<close>

theorem merkle_paths_verify:
  assumes "merkleRoot H hs = Inr r" "i < length hs"
  shows "\<exists>p. path_at H hs i = Inr p \<and> verifyProof H (hs ! i) p r"
  using merkle.path_total [OF assms(2)] merkle.complete [OF assms(1) _ assms(2)]
  by (auto simp: verifyProof_def)

definition toy_hash :: "byte list \<Rightarrow> byte list" where
  "toy_hash b = replicate 31 0 @ [sum_list b + of_nat (length b)]"

theorem merkle_paths_verify_witness:
  "\<exists>r p. merkleRoot toy_hash [[1], [2], [3]] = Inr r \<and> verifyProof toy_hash [3] p r"
proof -
  obtain r where r: "merkleRoot toy_hash [[1], [2], [3]] = Inr r" using merkle.root_total by blast
  from merkle_paths_verify [OF r, of 2] r show ?thesis by auto
qed

text \<open>
  nothing but a leaf can be proved. If a path checks for a record against the root of a
  batch, and the hash has 32-byte digests and does not collide on the strings hashed while
  building that tree and checking that path, then the record is one of the batch: an inner
  node cannot pass for a leaf, and no path of any length leads to the root from elsewhere.
\<close>

theorem merkle_root_binds:
  assumes root: "merkleRoot H (map (\<lambda>e. H (leaf_input e)) es) = Inr r"
    and v: "verifyProof H (H (leaf_input e)) p r"
    and ok: "sound_on H (leaf_input ` set es \<union> {leaf_input e}
      \<union> set (node_inputs H (map (\<lambda>e. H (leaf_input e)) es)) \<union> set (path_inputs H (H (leaf_input e)) p))"
  shows "e \<in> set es"
  using assms by (rule root_binds)

lemma toy_root: "merkleRoot toy_hash [toy_hash (leaf_input [1]), toy_hash (leaf_input [2])]
    = Inr (hashNode toy_hash (toy_hash (leaf_input [1])) (toy_hash (leaf_input [2])))"
  by (simp add: merkleRoot_def buildTree_def build_levels.simps)

theorem merkle_root_binds_witness: "[2] \<in> set [[1], [2 :: byte]]"
proof (rule merkle_root_binds)
  let ?p = "[\<lparr>sibling = toy_hash (leaf_input [1]), siblingOnLeft = True\<rparr>]"
  show "merkleRoot toy_hash (map (\<lambda>e. toy_hash (leaf_input e)) [[1], [2]])
      = Inr (hashNode toy_hash (toy_hash (leaf_input [1])) (toy_hash (leaf_input [2])))"
    by (simp add: toy_root)
  show "verifyProof toy_hash (toy_hash (leaf_input [2])) ?p
      (hashNode toy_hash (toy_hash (leaf_input [1])) (toy_hash (leaf_input [2])))"
    by (simp add: verifyProof_def computeRoot_def step_input_def hashNode_def)
  show "sound_on toy_hash (leaf_input ` set [[1], [2]] \<union> {leaf_input [2]}
      \<union> set (node_inputs toy_hash (map (\<lambda>e. toy_hash (leaf_input e)) [[1], [2]]))
      \<union> set (path_inputs toy_hash (toy_hash (leaf_input [2])) ?p))"
    by (simp add: sound_on_def node_inputs_def build_levels.simps step_input_def)
      (simp add: toy_hash_def leaf_input_def node_input_def LEAF_PREFIX_def NODE_PREFIX_def inj_on_def
        sum_list_replicate insert_Diff_if)
qed

text \<open>
  hex loses nothing. Reading the hex of any bytes gives the bytes back, so two hashes
  with the same hex are the same hash.
\<close>

theorem hex_roundtrip: "fromHex (toHex bs) = Inr bs"
  by (rule fromHex_toHex)

end
