(* ===== verification/Verify.thy ===== *)
theory Verify
  imports Merkle
begin

text \<open>
  The hash chain the on-chain program keeps (packages/commit/src/chain.ts) and the check of a
  single trade against it (packages/commit/src/verify.ts). Each step of a verification keeps
  its name and its outcome; the sentences are not modelled.
\<close>

section \<open>The chain\<close>

definition EMPTY_ACCUMULATOR :: "byte list" where
  "EMPTY_ACCUMULATOR = replicate 32 0"

definition u32LittleEndian :: "int \<Rightarrow> byte list res" where
  "u32LittleEndian v =
     rbind (ensure (\<not> (v < 0 \<or> v > 4294967295)) Plain_error) (\<lambda>_. Inr (rev (be_bytes 4 v)))"

record batch =
  batch_root :: "byte list"
  batch_leaves :: int
  batch_engineVersion :: int

definition extendChain :: "(byte list \<Rightarrow> byte list) \<Rightarrow> byte list \<Rightarrow> byte list \<Rightarrow> int \<Rightarrow> int \<Rightarrow> byte list res" where
  "extendChain H accumulator batchRoot leaves version =
     rbind (ensure (length accumulator = 32) Plain_error) (\<lambda>_.
     rbind (ensure (length batchRoot = 32) Plain_error) (\<lambda>_.
     rbind (ensure (\<not> leaves \<le> 0) Plain_error) (\<lambda>_.
     rbind (u32LittleEndian leaves) (\<lambda>l.
     rbind (u32LittleEndian version) (\<lambda>v.
     Inr (H (accumulator @ batchRoot @ l @ v)))))))"

definition replayChain :: "(byte list \<Rightarrow> byte list) \<Rightarrow> batch list \<Rightarrow> byte list res" where
  "replayChain H batches = run_res
     (\<lambda>acc b. extendChain H acc (batch_root b) (batch_leaves b) (batch_engineVersion b)) EMPTY_ACCUMULATOR batches"

section \<open>Checking a trade\<close>

datatype verification_status =
  Verified | Leaf_not_in_batch | Batch_root_mismatch | Chain_mismatch | Batch_not_found

datatype step_name = Hash_trade | Locate_batch | Find_trade | Rebuild_root | Match_chain

record committed_batch =
  cb_root :: string
  cb_leaves :: int
  cb_engineVersion :: int

record verification_input =
  vi_trade :: trade_leaf
  vi_batchLeaves :: "trade_leaf list"
  vi_batchIndex :: int
  vi_history :: "committed_batch list"
  vi_onChainAccumulator :: "string option"

record verification_result =
  status :: verification_status
  verified :: bool
  vsteps :: "(step_name \<times> bool) list"
  leafHash :: string
  computedRoot :: "string option"
  expectedAccumulator :: "string option"

fun find_index :: "('a \<Rightarrow> bool) \<Rightarrow> 'a list \<Rightarrow> nat option" where
  "find_index P [] = None"
| "find_index P (x # xs) = (if P x then Some 0 else map_option Suc (find_index P xs))"

definition replay_history :: "(byte list \<Rightarrow> byte list) \<Rightarrow> committed_batch list \<Rightarrow> byte list res" where
  "replay_history H history = run_res
     (\<lambda>acc e. rbind (fromHex (cb_root e)) (\<lambda>r. extendChain H acc r (cb_leaves e) (cb_engineVersion e)))
     EMPTY_ACCUMULATOR history"

definition refused ::
  "verification_status \<Rightarrow> (step_name \<times> bool) list \<Rightarrow> string \<Rightarrow> string option \<Rightarrow> string option \<Rightarrow> verification_result" where
  "refused st ss lh cr ea =
     \<lparr>status = st, verified = False, vsteps = ss, leafHash = lh, computedRoot = cr, expectedAccumulator = ea\<rparr>"

definition verifyTrade ::
  "(byte list \<Rightarrow> byte list) \<Rightarrow> (string \<Rightarrow> byte list option) \<Rightarrow> verification_input \<Rightarrow> verification_result res" where
  "verifyTrade H dec input =
     rbind (hashLeaf H dec (vi_trade input)) (\<lambda>lh.
     let leafHex = toHex lh; history = vi_history input; k = vi_batchIndex input in
     if k < 0 \<or> k \<ge> int (length history)
     then Inr (refused Batch_not_found [(Hash_trade, True), (Locate_batch, False)] leafHex None None)
     else
       let bt = history ! nat k in
       rbind (traverse (hashLeaf H dec) (vi_batchLeaves input)) (\<lambda>hashes.
       case find_index (\<lambda>h. equalHashes h lh) hashes of
         None \<Rightarrow> Inr (refused Leaf_not_in_batch [(Hash_trade, True), (Find_trade, False)] leafHex None None)
       | Some i \<Rightarrow>
           rbind (buildTree H hashes) (\<lambda>tree.
           rbind (buildProof tree (int i)) (\<lambda>pf.
           let cr = toHex (computeRoot H lh pf) in
           if cr \<noteq> cb_root bt
           then Inr (refused Batch_root_mismatch [(Hash_trade, True), (Find_trade, True), (Rebuild_root, False)]
                       leafHex (Some cr) None)
           else
             rbind (replay_history H history) (\<lambda>accumulator.
             let expected = toHex accumulator;
                 good = [(Hash_trade, True), (Find_trade, True), (Rebuild_root, True)] in
             if vi_onChainAccumulator input = None \<or> Some expected \<noteq> vi_onChainAccumulator input
             then Inr (refused Chain_mismatch (good @ [(Match_chain, False)]) leafHex (Some cr) (Some expected))
             else Inr \<lparr>status = Verified, verified = True, vsteps = good @ [(Match_chain, True)],
                       leafHash = leafHex, computedRoot = Some cr, expectedAccumulator = Some expected\<rparr>)))))"

section \<open>The chain binds its history\<close>

definition chain_input :: "byte list \<Rightarrow> batch \<Rightarrow> byte list" where
  "chain_input acc b = acc @ batch_root b @ rev (be_bytes 4 (batch_leaves b)) @ rev (be_bytes 4 (batch_engineVersion b))"

fun chain_inputs :: "(byte list \<Rightarrow> byte list) \<Rightarrow> byte list \<Rightarrow> batch list \<Rightarrow> byte list list" where
  "chain_inputs H acc [] = []"
| "chain_inputs H acc (b # bs) = chain_input acc b # chain_inputs H (H (chain_input acc b)) bs"

definition batch_ok :: "batch \<Rightarrow> bool" where
  "batch_ok b \<longleftrightarrow> length (batch_root b) = 32 \<and> 0 < batch_leaves b \<and> batch_leaves b \<le> 4294967295
     \<and> 0 \<le> batch_engineVersion b \<and> batch_engineVersion b \<le> 4294967295"

lemma extendChain_Inr:
  "extendChain H acc (batch_root b) (batch_leaves b) (batch_engineVersion b) = Inr a
     \<longleftrightarrow> length acc = 32 \<and> batch_ok b \<and> a = H (chain_input acc b)"
  by (auto simp: extendChain_def u32LittleEndian_def batch_ok_def chain_input_def)

lemma chain_input_inj:
  assumes "chain_input acc b = chain_input acc' b'" "batch_ok b" "batch_ok b'" "length acc = 32" "length acc' = 32"
  shows "acc = acc' \<and> b = b'"
  using assms by (auto simp: chain_input_def batch_ok_def append_eq_append_conv intro!: batch.equality
      dest: be_bytes_inj [of 4])

abbreviation chain_step where
  "chain_step H \<equiv> \<lambda>acc b. extendChain H acc (batch_root b) (batch_leaves b) (batch_engineVersion b)"

lemma chain_inputs_append:
  "run_res (chain_step H) acc bs = Inr a \<Longrightarrow> chain_inputs H acc (bs @ cs) = chain_inputs H acc bs @ chain_inputs H a cs"
  by (induction bs arbitrary: acc) (auto simp: extendChain_Inr)

lemma replay_snoc:
  "run_res (chain_step H) acc (bs @ [b]) = Inr a \<longleftrightarrow>
     (\<exists>c. run_res (chain_step H) acc bs = Inr c \<and> length c = 32 \<and> batch_ok b \<and> a = H (chain_input c b))"
  by (auto simp: run_res_append extendChain_Inr)

lemma chain_binds:
  assumes ok: "sound_on H S" and e: "\<forall>b \<in> S. H b \<noteq> EMPTY_ACCUMULATOR"
  shows "replayChain H bs = Inr a \<Longrightarrow> replayChain H cs = Inr a
    \<Longrightarrow> set (chain_inputs H EMPTY_ACCUMULATOR bs) \<subseteq> S \<Longrightarrow> set (chain_inputs H EMPTY_ACCUMULATOR cs) \<subseteq> S \<Longrightarrow> bs = cs"
  unfolding replayChain_def
proof (induction bs arbitrary: cs a rule: rev_induct)
  case Nil
  show ?case
  proof (cases cs rule: rev_cases)
    case (snoc ys y)
    with Nil obtain c where "run_res (chain_step H) EMPTY_ACCUMULATOR ys = Inr c" "a = H (chain_input c y)"
      by (auto simp: replay_snoc)
    with Nil snoc e show ?thesis by (auto simp: chain_inputs_append)
  qed simp
next
  case (snoc x xs)
  from snoc.prems(1) obtain c where c: "run_res (chain_step H) EMPTY_ACCUMULATOR xs = Inr c" "length c = 32"
    "batch_ok x" "a = H (chain_input c x)" by (auto simp: replay_snoc)
  then have cS: "chain_input c x \<in> S" using snoc.prems(3) by (simp add: chain_inputs_append)
  show ?case
  proof (cases cs rule: rev_cases)
    case Nil
    with snoc.prems c cS e show ?thesis by auto
  next
    case (snoc ys y)
    with snoc.prems(2) obtain d where d: "run_res (chain_step H) EMPTY_ACCUMULATOR ys = Inr d" "length d = 32"
      "batch_ok y" "a = H (chain_input d y)" by (auto simp: replay_snoc)
    then have "chain_input d y \<in> S" using snoc.prems(4) \<open>cs = ys @ [y]\<close> by (simp add: chain_inputs_append)
    then have "chain_input c x = chain_input d y" using ok cS c d unfolding sound_on_def by (metis inj_onD)
    then have "c = d" "x = y" using chain_input_inj c d by blast+
    moreover have "xs = ys"
      using snoc.IH [of d ys] c d \<open>c = d\<close> snoc.prems(3,4) \<open>cs = ys @ [y]\<close> by (simp add: chain_inputs_append)
    ultimately show ?thesis using \<open>cs = ys @ [y]\<close> by simp
  qed
qed

section \<open>What a verified trade means\<close>

definition decode_batch :: "committed_batch \<Rightarrow> batch res" where
  "decode_batch e = rbind (fromHex (cb_root e)) (\<lambda>r.
     Inr \<lparr>batch_root = r, batch_leaves = cb_leaves e, batch_engineVersion = cb_engineVersion e\<rparr>)"

lemma replay_history_decoded:
  assumes "run_res (\<lambda>acc e. rbind (fromHex (cb_root e)) (\<lambda>r. extendChain H acc r (cb_leaves e) (cb_engineVersion e)))
      acc history = Inr a"
  shows "\<exists>bs. traverse decode_batch history = Inr bs \<and> run_res (chain_step H) acc bs = Inr a"
  using assms
proof (induction history arbitrary: acc)
  case (Cons e history)
  from Cons.prems obtain r c where r: "fromHex (cb_root e) = Inr r"
    and c: "extendChain H acc r (cb_leaves e) (cb_engineVersion e) = Inr c"
    and rest: "run_res (\<lambda>acc e. rbind (fromHex (cb_root e)) (\<lambda>r. extendChain H acc r (cb_leaves e) (cb_engineVersion e)))
        c history = Inr a" by auto
  from Cons.IH [OF rest] obtain bs where "traverse decode_batch history = Inr bs" "run_res (chain_step H) c bs = Inr a"
    by blast
  moreover have "decode_batch e = Inr \<lparr>batch_root = r, batch_leaves = cb_leaves e, batch_engineVersion = cb_engineVersion e\<rparr>"
    using r by (simp add: decode_batch_def)
  ultimately show ?case using c
    by (intro exI [of _ "\<lparr>batch_root = r, batch_leaves = cb_leaves e, batch_engineVersion = cb_engineVersion e\<rparr> # bs"]) simp
qed simp

lemma decode_batch_root: "decode_batch e = Inr b \<Longrightarrow> fromHex (cb_root e) = Inr (batch_root b)"
  by (auto simp: decode_batch_def)

lemma find_index_Some:
  "find_index P xs = Some i \<Longrightarrow> i < length xs \<and> P (xs ! i)"
  by (induction xs arbitrary: i) (auto split: if_splits)

lemma find_index_ex: "x \<in> set xs \<Longrightarrow> P x \<Longrightarrow> \<exists>i. find_index P xs = Some i"
  by (induction xs) auto

lemma verified_facts:
  assumes "verifyTrade H dec input = Inr res" "verified res"
  obtains lh hashes i p a bs where "hashLeaf H dec (vi_trade input) = Inr lh"
    "0 \<le> vi_batchIndex input" "nat (vi_batchIndex input) < length (vi_history input)"
    "traverse (hashLeaf H dec) (vi_batchLeaves input) = Inr hashes" "i < length hashes" "hashes ! i = lh"
    "find_index (\<lambda>h. equalHashes h lh) hashes = Some i" "path_at H hashes i = Inr p" "toHex (computeRoot H lh p) = cb_root (vi_history input ! nat (vi_batchIndex input))"
    "traverse decode_batch (vi_history input) = Inr bs" "replayChain H bs = Inr a"
    "vi_onChainAccumulator input = Some (toHex a)"
proof -
  obtain lh where lh: "hashLeaf H dec (vi_trade input) = Inr lh" using assms(1) by (auto simp: verifyTrade_def)
  note s1 = assms(1) [unfolded verifyTrade_def lh rbind_Inr Let_def]
  have k: "\<not> (vi_batchIndex input < 0 \<or> vi_batchIndex input \<ge> int (length (vi_history input)))"
    using s1 assms(2) by (intro notI) (simp add: refused_def, auto)
  then obtain hashes where hs: "traverse (hashLeaf H dec) (vi_batchLeaves input) = Inr hashes" using s1 by auto
  note s2 = s1 [unfolded hs rbind_Inr if_not_P [OF k]]
  obtain i where i: "find_index (\<lambda>h. equalHashes h lh) hashes = Some i"
    using s2 assms(2) by (cases "find_index (\<lambda>h. equalHashes h lh) hashes") (auto simp: refused_def)
  then obtain tree p where tp: "buildTree H hashes = Inr tree" "buildProof tree (int i) = Inr p" using s2 by auto
  note s3 = s2 [unfolded i option.case tp rbind_Inr]
  have root: "toHex (computeRoot H lh p) = cb_root (vi_history input ! nat (vi_batchIndex input))"
    using s3 assms(2) by (auto simp: refused_def split: if_splits)
  with s3 obtain a where a: "replay_history H (vi_history input) = Inr a" by auto
  have chain: "vi_onChainAccumulator input = Some (toHex a)"
    using s3 assms(2) root a by (auto simp: refused_def split: if_splits)
  obtain bs where "traverse decode_batch (vi_history input) = Inr bs" "replayChain H bs = Inr a"
    using replay_history_decoded a unfolding replay_history_def replayChain_def by blast
  moreover have "i < length hashes" "hashes ! i = lh" using find_index_Some [OF i] by simp_all
  moreover have "path_at H hashes i = Inr p" using tp by (simp add: path_at_def)
  ultimately show thesis using lh k hs root chain i by (intro that) auto
qed

text \<open>What was really committed: the encoded leaves of every batch, in order.\<close>

definition committed_root :: "(byte list \<Rightarrow> byte list) \<Rightarrow> byte list list \<Rightarrow> byte list res" where
  "committed_root H es = merkleRoot H (map (\<lambda>e. H (leaf_input e)) es)"

text \<open>The strings that are hashed when the claim is checked and when the batch was committed.\<close>

definition checked_inputs :: "(byte list \<Rightarrow> byte list) \<Rightarrow> (string \<Rightarrow> byte list option) \<Rightarrow> verification_input
    \<Rightarrow> batch list \<Rightarrow> byte list list \<Rightarrow> byte list set" where
  "checked_inputs H dec input onchain es =
     leaf_input ` set es \<union> set (node_inputs H (map (\<lambda>e. H (leaf_input e)) es))
   \<union> set (chain_inputs H EMPTY_ACCUMULATOR onchain)
   \<union> (case traverse decode_batch (vi_history input) of Inl _ \<Rightarrow> {} | Inr bs \<Rightarrow> set (chain_inputs H EMPTY_ACCUMULATOR bs))
   \<union> (case encodeLeaf dec (vi_trade input) of Inl _ \<Rightarrow> {} | Inr e \<Rightarrow> {leaf_input e}
       \<union> (case traverse (hashLeaf H dec) (vi_batchLeaves input) of Inl _ \<Rightarrow> {} | Inr hs \<Rightarrow>
           (case find_index (\<lambda>h. equalHashes h (H (leaf_input e))) hs of None \<Rightarrow> {} | Some i \<Rightarrow>
             (case path_at H hs i of Inl _ \<Rightarrow> {} | Inr p \<Rightarrow> set (path_inputs H (H (leaf_input e)) p)))))"

lemma committed_root_binds:
  assumes v: "verifyTrade H dec input = Inr res" "verified res"
    and r: "replayChain H onchain = Inr a" "vi_onChainAccumulator input = Some (toHex a)"
    and es: "nat (vi_batchIndex input) < length onchain"
      "committed_root H es = Inr (batch_root (onchain ! nat (vi_batchIndex input)))"
    and ok: "sound_on H (checked_inputs H dec input onchain es)"
    and e: "\<forall>b \<in> checked_inputs H dec input onchain es. H b \<noteq> EMPTY_ACCUMULATOR"
  shows "\<exists>e \<in> set es. encodeLeaf dec (vi_trade input) = Inr e"
proof (rule verified_facts [OF v])
  let ?k = "nat (vi_batchIndex input)" and ?S = "checked_inputs H dec input onchain es"
  fix lh hashes i p a' bs
  assume f: "hashLeaf H dec (vi_trade input) = Inr lh" "?k < length (vi_history input)"
    "traverse (hashLeaf H dec) (vi_batchLeaves input) = Inr hashes"
    "find_index (\<lambda>h. equalHashes h lh) hashes = Some i" "path_at H hashes i = Inr p"
    "toHex (computeRoot H lh p) = cb_root (vi_history input ! ?k)"
    "traverse decode_batch (vi_history input) = Inr bs" "replayChain H bs = Inr a'"
    "vi_onChainAccumulator input = Some (toHex a')"
  then have "a' = a" using r(2) by simp
  have S: "set (chain_inputs H EMPTY_ACCUMULATOR bs) \<subseteq> ?S" "set (chain_inputs H EMPTY_ACCUMULATOR onchain) \<subseteq> ?S"
    using f(7) by (auto simp: checked_inputs_def)
  have bs: "bs = onchain"
    using chain_binds [OF ok e f(8) _ S] r(1) \<open>a' = a\<close> by simp
  obtain enc where enc: "encodeLeaf dec (vi_trade input) = Inr enc" "lh = H (leaf_input enc)"
    using f(1) by (auto simp: hashLeaf_def)
  have "decode_batch (vi_history input ! ?k) = Inr (onchain ! ?k)"
    using traverse_nth [OF f(7,2)] bs by simp
  then have "fromHex (cb_root (vi_history input ! ?k)) = Inr (batch_root (onchain ! ?k))"
    by (rule decode_batch_root)
  then have root: "computeRoot H lh p = batch_root (onchain ! ?k)"
    unfolding f(6) [symmetric] fromHex_toHex by simp
  have T: "leaf_input ` set es \<union> {leaf_input enc} \<union> set (node_inputs H (map (\<lambda>e. H (leaf_input e)) es))
      \<union> set (path_inputs H (H (leaf_input enc)) p) \<subseteq> ?S"
    using enc f(3,4,5) by (auto simp: checked_inputs_def)
  have "enc \<in> set es"
    by (rule root_binds [OF es(2) [unfolded committed_root_def] _ sound_on_mono [OF ok T]])
      (use root enc in \<open>simp add: verifyProof_def\<close>)
  with enc show ?thesis by blast
qed

lemma verifies_if_honest:
  assumes leaves: "traverse (hashLeaf H dec) (vi_batchLeaves input) = Inr hashes"
      "vi_trade input \<in> set (vi_batchLeaves input)"
    and k: "0 \<le> vi_batchIndex input" "nat (vi_batchIndex input) < length (vi_history input)"
    and root: "merkleRoot H hashes = Inr r" "cb_root (vi_history input ! nat (vi_batchIndex input)) = toHex r"
    and chain: "replay_history H (vi_history input) = Inr a" "vi_onChainAccumulator input = Some (toHex a)"
  shows "\<exists>res. verifyTrade H dec input = Inr res \<and> status res = Verified \<and> verified res
    \<and> list_all snd (vsteps res)"
proof -
  obtain lh where lh: "hashLeaf H dec (vi_trade input) = Inr lh" "lh \<in> set hashes"
    using traverse_set [OF leaves] by blast
  obtain i where i: "find_index (\<lambda>h. equalHashes h lh) hashes = Some i"
    using find_index_ex [OF lh(2)] by fastforce
  then have h: "i < length hashes" "hashes ! i = lh" using find_index_Some [OF i] by simp_all
  obtain p where p: "path_at H hashes i = Inr p" using merkle.path_total [OF h(1)] by blast
  then obtain tree where t: "buildTree H hashes = Inr tree" "buildProof tree (int i) = Inr p"
    by (auto simp: path_at_def)
  have "computeRoot H lh p = r" using merkle.complete [OF root(1) p h(1)] h(2) by simp
  moreover have "\<not> (vi_batchIndex input < 0 \<or> vi_batchIndex input \<ge> int (length (vi_history input)))"
    using k by linarith
  ultimately show ?thesis using lh(1) i t root(2) chain leaves(1)
    by (simp add: verifyTrade_def)
qed

section \<open>A record of one trade, for the witnesses\<close>

definition sample_enc :: "byte list" where
  "sample_enc = concat (leaf_parts key_of (sample_leaf 1))"

definition sample_hash :: "byte list" where
  "sample_hash = toy_hash (leaf_input sample_enc)"

definition sample_batch :: batch where
  "sample_batch = \<lparr>batch_root = sample_hash, batch_leaves = 1, batch_engineVersion = 1\<rparr>"

definition sample_accumulator :: "byte list" where
  "sample_accumulator = toy_hash (chain_input EMPTY_ACCUMULATOR sample_batch)"

definition sample_input :: verification_input where
  "sample_input = \<lparr>vi_trade = sample_leaf 1, vi_batchLeaves = [sample_leaf 1], vi_batchIndex = 0,
     vi_history = [\<lparr>cb_root = toHex sample_hash, cb_leaves = 1, cb_engineVersion = 1\<rparr>],
     vi_onChainAccumulator = Some (toHex sample_accumulator)\<rparr>"

lemma length_toy_hash [simp]: "length (toy_hash b) = 32"
  by (simp add: toy_hash_def)

lemma sample_digests: "last sample_hash = 142 \<and> last sample_accumulator = 216"
  by code_simp

lemma sample_encodes: "encodeLeaf key_of (sample_leaf 1) = Inr sample_enc"
  by (simp add: sample_leaf_encodes sample_enc_def)

lemma sample_hashes: "hashLeaf toy_hash key_of (sample_leaf 1) = Inr sample_hash"
  by (simp add: hashLeaf_def sample_encodes sample_hash_def)

lemma sample_root: "merkleRoot toy_hash [sample_hash] = Inr sample_hash"
  by (simp add: merkleRoot_def buildTree_def build_levels.simps)

lemma sample_replay: "replayChain toy_hash [sample_batch] = Inr sample_accumulator"
proof -
  have "batch_ok sample_batch" "length EMPTY_ACCUMULATOR = 32"
    by (simp_all add: batch_ok_def sample_batch_def sample_hash_def EMPTY_ACCUMULATOR_def)
  then show ?thesis
    using extendChain_Inr [of toy_hash EMPTY_ACCUMULATOR sample_batch sample_accumulator]
    by (simp add: replayChain_def sample_accumulator_def)
qed

lemma sample_decoded: "traverse decode_batch (vi_history sample_input) = Inr [sample_batch]"
  by (simp add: sample_input_def decode_batch_def fromHex_toHex sample_batch_def)

lemma sample_sound:
  "sound_on toy_hash {leaf_input sample_enc, chain_input EMPTY_ACCUMULATOR sample_batch}
    \<and> toy_hash (leaf_input sample_enc) \<noteq> EMPTY_ACCUMULATOR
    \<and> toy_hash (chain_input EMPTY_ACCUMULATOR sample_batch) \<noteq> EMPTY_ACCUMULATOR"
proof -
  note d = sample_digests [unfolded sample_hash_def sample_accumulator_def]
  have e: "last EMPTY_ACCUMULATOR = 0" by (simp add: EMPTY_ACCUMULATOR_def)
  have "toy_hash (leaf_input sample_enc) \<noteq> toy_hash (chain_input EMPTY_ACCUMULATOR sample_batch)"
  proof
    assume "toy_hash (leaf_input sample_enc) = toy_hash (chain_input EMPTY_ACCUMULATOR sample_batch)"
    with d have "(142 :: byte) = 216" by metis
    then show False by simp
  qed
  moreover have "toy_hash (leaf_input sample_enc) \<noteq> EMPTY_ACCUMULATOR"
    "toy_hash (chain_input EMPTY_ACCUMULATOR sample_batch) \<noteq> EMPTY_ACCUMULATOR"
    using d e by (intro notI; simp)+
  ultimately show ?thesis by (auto simp: sound_on_def)
qed

lemma sample_replays: "replay_history toy_hash (vi_history sample_input) = Inr sample_accumulator"
  using sample_replay by (simp add: replay_history_def replayChain_def sample_input_def fromHex_toHex sample_batch_def)

lemma sample_verifies: "\<exists>res. verifyTrade toy_hash key_of sample_input = Inr res \<and> verified res"
  by (rule verifies_if_honest [of _ _ _ "[sample_hash]" sample_hash sample_accumulator, THEN ex_forward])
    (use sample_hashes sample_root sample_replays in \<open>auto simp: sample_input_def\<close>)

section \<open>Properties\<close>

text \<open>
  C6: a verified trade was committed. Let the accumulator on chain be what the batches really
  committed produce, and let the batch at the index asked about have been built from the
  records \<open>es\<close>. If the check reports \<open>verified\<close> for a trade, whatever leaves and history it
  was handed, then the bytes of that trade are among \<open>es\<close>, provided the hash does not
  collide on the strings actually hashed.
\<close>

theorem verified_trade_was_committed:
  assumes "verifyTrade H dec input = Inr res" "verified res"
    and "replayChain H onchain = Inr a" "vi_onChainAccumulator input = Some (toHex a)"
    and "nat (vi_batchIndex input) < length onchain"
      "committed_root H es = Inr (batch_root (onchain ! nat (vi_batchIndex input)))"
    and "sound_on H (checked_inputs H dec input onchain es)"
    and "\<forall>b \<in> checked_inputs H dec input onchain es. H b \<noteq> EMPTY_ACCUMULATOR"
  shows "\<exists>e \<in> set es. encodeLeaf dec (vi_trade input) = Inr e"
  using assms by (rule committed_root_binds)

theorem verified_trade_was_committed_witness:
  "\<exists>e \<in> set [sample_enc]. encodeLeaf key_of (vi_trade sample_input) = Inr e"
proof -
  have i: "checked_inputs toy_hash key_of sample_input [sample_batch] [sample_enc]
      = {leaf_input sample_enc, chain_input EMPTY_ACCUMULATOR sample_batch}"
    unfolding checked_inputs_def sample_decoded
    by (auto simp: sample_input_def sample_encodes sample_hashes node_inputs_def build_levels.simps
        path_at_def buildTree_def buildProof_def sample_hash_def Let_def)
  obtain res where res: "verifyTrade toy_hash key_of sample_input = Inr res" "verified res"
    using sample_verifies by blast
  have r: "committed_root toy_hash [sample_enc] = Inr (batch_root ([sample_batch] ! nat (vi_batchIndex sample_input)))"
    using sample_root by (simp add: committed_root_def sample_batch_def sample_input_def flip: sample_hash_def)
  show ?thesis
    by (rule verified_trade_was_committed [OF res sample_replay _ _ r])
      (use sample_sound in \<open>simp_all only: i, simp_all add: sample_input_def\<close>)
qed

text \<open>
  the accumulator binds the whole history. Two histories that replay to the same
  accumulator are the same batches in the same order, with the same counts and versions.
\<close>

theorem chain_binds_history:
  assumes "replayChain H bs = Inr a" "replayChain H cs = Inr a"
    and "sound_on H (set (chain_inputs H EMPTY_ACCUMULATOR bs) \<union> set (chain_inputs H EMPTY_ACCUMULATOR cs))"
    and "\<forall>b \<in> set (chain_inputs H EMPTY_ACCUMULATOR bs) \<union> set (chain_inputs H EMPTY_ACCUMULATOR cs).
           H b \<noteq> EMPTY_ACCUMULATOR"
  shows "bs = cs"
  using chain_binds [OF assms(3,4,1,2)] by simp

theorem chain_binds_history_witness: "[sample_batch] = [sample_batch]"
  by (rule chain_binds_history [OF sample_replay sample_replay])
    (use sample_sound in \<open>auto elim!: sound_on_mono\<close>)

text \<open>
  an honest record always verifies. If the leaves supplied are the ones the batch was
  built from and the history supplied replays to the accumulator on chain, then every trade
  of the batch verifies, with every step reported good.
\<close>

theorem honest_trade_verifies:
  assumes leaves: "traverse (hashLeaf H dec) (vi_batchLeaves input) = Inr hashes"
      "vi_trade input \<in> set (vi_batchLeaves input)"
    and k: "0 \<le> vi_batchIndex input" "nat (vi_batchIndex input) < length (vi_history input)"
    and root: "merkleRoot H hashes = Inr r" "cb_root (vi_history input ! nat (vi_batchIndex input)) = toHex r"
    and chain: "replay_history H (vi_history input) = Inr a" "vi_onChainAccumulator input = Some (toHex a)"
  shows "\<exists>res. verifyTrade H dec input = Inr res \<and> status res = Verified \<and> verified res
    \<and> list_all snd (vsteps res)"
  using assms by (rule verifies_if_honest)

theorem honest_trade_verifies_witness:
  "\<exists>res. verifyTrade toy_hash key_of sample_input = Inr res \<and> status res = Verified"
  using honest_trade_verifies [of toy_hash key_of sample_input "[sample_hash]" sample_hash sample_accumulator]
    sample_hashes sample_root sample_replays
  by (simp add: sample_input_def) blast

end
