(* ===== verification/Ruleset.thy ===== *)
theory Ruleset
  imports Merkle
begin

text \<open>
  The rules of a season and their bytes (packages/seasons/src/ruleset.ts, spec.ts and the
  thresholds of void.ts). Times, basis points and counts are whole numbers. The hash
  \<open>H\<close> is the third-party \<open>sha256\<close>.
\<close>

section \<open>The data\<close>

record void_policy =
  maxFeedOutageMinutes :: int
  maxChainHaltMinutes :: int
  maxUncommittedTrades :: int
  maxIrreproducibleTrades :: int

definition DEFAULT_VOID_POLICY :: void_policy where
  "DEFAULT_VOID_POLICY = \<lparr>maxFeedOutageMinutes = 120, maxChainHaltMinutes = 60,
     maxUncommittedTrades = 0, maxIrreproducibleTrades = 0\<rparr>"

record payout_band =
  minPotLamports :: int
  sharesBps :: "int list"

datatype scoring_rule = Highest_return

datatype tiebreak = Entered_then_pubkey

record ruleset =
  rs_ordinal :: int
  rs_durationMs :: int
  rs_entryWindowMs :: int
  rs_startingBalance :: int
  rs_entryCost :: int
  rs_houseBps :: int
  rs_houseThreshold :: int
  rs_latencyMs :: int
  rs_slippageBps :: int
  rs_maxPriceImpactBps :: int
  rs_engineVersion :: int
  rs_scoring :: scoring_rule
  rs_tiebreak :: tiebreak
  rs_voidPolicy :: void_policy
  rs_bands :: "payout_band list"

definition SCORING_CODES :: "scoring_rule \<Rightarrow> int" where
  "SCORING_CODES s = (case s of Highest_return \<Rightarrow> 0)"

definition TIEBREAK_CODES :: "tiebreak \<Rightarrow> int" where
  "TIEBREAK_CODES t = (case t of Entered_then_pubkey \<Rightarrow> 0)"

definition MAX_BANDS :: nat where "MAX_BANDS = 8"
definition MAX_SHARES :: nat where "MAX_SHARES = 16"

section \<open>Validation\<close>

definition check_band :: "int \<Rightarrow> payout_band \<Rightarrow> int res" where
  "check_band previous band =
     rbind (ensure (\<not> minPotLamports band \<le> previous) Ruleset_error) (\<lambda>_.
     rbind (ensure (\<not> length (sharesBps band) = 0) Ruleset_error) (\<lambda>_.
     rbind (ensure (\<not> length (sharesBps band) > MAX_SHARES) Ruleset_error) (\<lambda>_.
     rbind (ensure (\<not> foldl (+) 0 (sharesBps band) \<noteq> 10000) Ruleset_error) (\<lambda>_.
     rbind (ensure (\<not> list_ex (\<lambda>share. share \<le> 0) (sharesBps band)) Ruleset_error) (\<lambda>_.
     Inr (minPotLamports band))))))"

definition policy_values :: "void_policy \<Rightarrow> int list" where
  "policy_values p = [maxFeedOutageMinutes p, maxChainHaltMinutes p, maxUncommittedTrades p, maxIrreproducibleTrades p]"

definition validateRuleset :: "ruleset \<Rightarrow> unit res" where
  "validateRuleset r =
     rbind (ensure (\<not> rs_durationMs r \<le> 0) Ruleset_error) (\<lambda>_.
     rbind (ensure (\<not> rs_entryWindowMs r \<le> 0) Ruleset_error) (\<lambda>_.
     rbind (ensure (\<not> rs_entryWindowMs r > rs_durationMs r) Ruleset_error) (\<lambda>_.
     rbind (ensure (\<not> rs_startingBalance r \<le> 0) Ruleset_error) (\<lambda>_.
     rbind (ensure (\<not> rs_entryCost r < 0) Ruleset_error) (\<lambda>_.
     rbind (ensure (\<not> (rs_houseBps r < 0 \<or> rs_houseBps r > 10000)) Ruleset_error) (\<lambda>_.
     rbind (traverse (\<lambda>v. ensure (\<not> v < 0) Ruleset_error) (policy_values (rs_voidPolicy r))) (\<lambda>_.
     rbind (ensure (\<not> length (rs_bands r) = 0) Ruleset_error) (\<lambda>_.
     rbind (ensure (\<not> length (rs_bands r) > MAX_BANDS) Ruleset_error) (\<lambda>_.
     rbind (run_res check_band (- 1) (rs_bands r)) (\<lambda>_.
     ensure (\<not> minPotLamports (hd (rs_bands r)) \<noteq> 0) Ruleset_error))))))))))"

section \<open>The bytes that are hashed\<close>

definition writeRulesetUint :: "int \<Rightarrow> nat \<Rightarrow> byte list res" where
  "writeRulesetUint v n = uint_bytes Ruleset_error v n"

definition SLOT_BYTES :: nat where
  "SLOT_BYTES = AMOUNT_BYTES + 1 + MAX_SHARES * 2"

definition RULESET_BYTES :: nat where
  "RULESET_BYTES = 2 + 8 + 8 + AMOUNT_BYTES + AMOUNT_BYTES + 2 + AMOUNT_BYTES + 4 + 2 + 2 + 4 + 1 + 1
     + 4 + 4 + 4 + 4 + 1 + MAX_BANDS * (AMOUNT_BYTES + 1 + MAX_SHARES * 2)"

text \<open>
  A slot is written whether it is used or not. Its unused bytes stay zero. The shares are
  written one after the other from the seventeenth byte, two bytes each.
\<close>

definition band_slot :: "payout_band option \<Rightarrow> byte list res" where
  "band_slot s = (case s of
       None \<Rightarrow> Inr (replicate SLOT_BYTES 0)
     | Some band \<Rightarrow>
         rbind (writeRulesetUint (minPotLamports band) AMOUNT_BYTES) (\<lambda>pot.
         Inr (pot @ be_bytes 1 (int (length (sharesBps band)))
           @ concat (map (be_bytes 2) (sharesBps band))
           @ replicate (2 * (MAX_SHARES - length (sharesBps band))) 0)))"

definition band_slots :: "payout_band list \<Rightarrow> payout_band option list" where
  "band_slots bands = map (\<lambda>i. if i < length bands then Some (bands ! i) else None) [0..<MAX_BANDS]"

definition encodeRuleset :: "ruleset \<Rightarrow> byte list res" where
  "encodeRuleset r =
     rbind (validateRuleset r) (\<lambda>_.
     rbind (writeRulesetUint (rs_durationMs r) 8) (\<lambda>duration.
     rbind (writeRulesetUint (rs_entryWindowMs r) 8) (\<lambda>entryWindow.
     rbind (writeRulesetUint (rs_startingBalance r) AMOUNT_BYTES) (\<lambda>balance.
     rbind (writeRulesetUint (rs_entryCost r) AMOUNT_BYTES) (\<lambda>cost.
     rbind (writeRulesetUint (rs_houseThreshold r) AMOUNT_BYTES) (\<lambda>threshold.
     rbind (traverse band_slot (band_slots (rs_bands r))) (\<lambda>slots.
     Inr (be_bytes 2 (rs_ordinal r) @ duration @ entryWindow @ balance @ cost
       @ be_bytes 2 (rs_houseBps r) @ threshold @ be_bytes 4 (rs_latencyMs r)
       @ be_bytes 2 (rs_slippageBps r) @ be_bytes 2 (rs_maxPriceImpactBps r)
       @ be_bytes 4 (rs_engineVersion r) @ be_bytes 1 (SCORING_CODES (rs_scoring r))
       @ be_bytes 1 (TIEBREAK_CODES (rs_tiebreak r))
       @ concat (map (be_bytes 4) (policy_values (rs_voidPolicy r)))
       @ be_bytes 1 (int (length (rs_bands r))) @ concat slots))))))))"

definition rulesetHash :: "(byte list \<Rightarrow> byte list) \<Rightarrow> ruleset \<Rightarrow> byte list res" where
  "rulesetHash H r = rbind (encodeRuleset r) (\<lambda>bytes. Inr (H bytes))"

definition rulesetHashHex :: "(byte list \<Rightarrow> byte list) \<Rightarrow> ruleset \<Rightarrow> string res" where
  "rulesetHashHex H r = rbind (rulesetHash H r) (\<lambda>h. Inr (toHex h))"

section \<open>The published rules\<close>

definition LAMPORTS_PER_SOL :: int where "LAMPORTS_PER_SOL = 1000000000"
definition DAY_MS :: int where "DAY_MS = 24 * 60 * 60 * 1000"
definition SEASON_ONE_DURATION_MS :: int where "SEASON_ONE_DURATION_MS = 7 * DAY_MS"
definition SEASON_DURATION_MS :: int where "SEASON_DURATION_MS = 14 * DAY_MS"
definition ENTRY_WINDOW_MS :: int where "ENTRY_WINDOW_MS = 2 * DAY_MS"
definition STARTING_BALANCE :: int where "STARTING_BALANCE = 10 * LAMPORTS_PER_SOL"
definition ENTRY_COST :: int where "ENTRY_COST = LAMPORTS_PER_SOL sdiv 20"
definition HOUSE_BPS :: int where "HOUSE_BPS = 1000"
definition HOUSE_THRESHOLD :: int where "HOUSE_THRESHOLD = LAMPORTS_PER_SOL"

definition PAYOUT_BANDS :: "payout_band list" where
  "PAYOUT_BANDS =
     [\<lparr>minPotLamports = 0, sharesBps = [10000]\<rparr>,
      \<lparr>minPotLamports = LAMPORTS_PER_SOL, sharesBps = [5500, 3000, 1500]\<rparr>,
      \<lparr>minPotLamports = 5 * LAMPORTS_PER_SOL, sharesBps = [3000, 1800, 1200, 1000, 500, 500, 500, 500, 500, 500]\<rparr>]"

definition LATENCY_MS :: int where "LATENCY_MS = 600"
definition SLIPPAGE_BPS :: int where "SLIPPAGE_BPS = 1000"
definition MAX_PRICE_IMPACT_BPS :: int where "MAX_PRICE_IMPACT_BPS = 5000"
definition SPEC_ENGINE_VERSION :: int where "SPEC_ENGINE_VERSION = 1"

definition rulesetFor :: "int \<Rightarrow> ruleset" where
  "rulesetFor ordinal = \<lparr>rs_ordinal = ordinal,
     rs_durationMs = (if ordinal \<le> 1 then SEASON_ONE_DURATION_MS else SEASON_DURATION_MS),
     rs_entryWindowMs = ENTRY_WINDOW_MS, rs_startingBalance = STARTING_BALANCE,
     rs_entryCost = ENTRY_COST, rs_houseBps = HOUSE_BPS, rs_houseThreshold = HOUSE_THRESHOLD,
     rs_latencyMs = LATENCY_MS, rs_slippageBps = SLIPPAGE_BPS,
     rs_maxPriceImpactBps = MAX_PRICE_IMPACT_BPS, rs_engineVersion = SPEC_ENGINE_VERSION,
     rs_scoring = Highest_return, rs_tiebreak = Entered_then_pubkey,
     rs_voidPolicy = DEFAULT_VOID_POLICY, rs_bands = PAYOUT_BANDS\<rparr>"

lemmas published_defs =
  LAMPORTS_PER_SOL_def DAY_MS_def SEASON_ONE_DURATION_MS_def SEASON_DURATION_MS_def ENTRY_WINDOW_MS_def
  STARTING_BALANCE_def ENTRY_COST_def HOUSE_BPS_def HOUSE_THRESHOLD_def PAYOUT_BANDS_def LATENCY_MS_def
  SLIPPAGE_BPS_def MAX_PRICE_IMPACT_BPS_def SPEC_ENGINE_VERSION_def rulesetFor_def DEFAULT_VOID_POLICY_def

section \<open>What validation accepts\<close>

definition band_ok :: "payout_band \<Rightarrow> bool" where
  "band_ok b \<longleftrightarrow> sharesBps b \<noteq> [] \<and> length (sharesBps b) \<le> MAX_SHARES \<and> sum_list (sharesBps b) = 10000
     \<and> list_all (\<lambda>s. 0 < s) (sharesBps b)"

definition policy_ok :: "void_policy \<Rightarrow> bool" where
  "policy_ok p \<longleftrightarrow> list_all (\<lambda>v. 0 \<le> v) (policy_values p)"

definition bands_ok :: "payout_band list \<Rightarrow> bool" where
  "bands_ok bs \<longleftrightarrow> bs \<noteq> [] \<and> length bs \<le> MAX_BANDS \<and> list_all band_ok bs
     \<and> sorted_wrt (<) (map minPotLamports bs) \<and> minPotLamports (hd bs) = 0"

definition valid_ruleset :: "ruleset \<Rightarrow> bool" where
  "valid_ruleset r \<longleftrightarrow> 0 < rs_entryWindowMs r \<and> rs_entryWindowMs r \<le> rs_durationMs r
     \<and> 0 < rs_startingBalance r \<and> 0 \<le> rs_entryCost r \<and> 0 \<le> rs_houseBps r \<and> rs_houseBps r \<le> 10000
     \<and> policy_ok (rs_voidPolicy r) \<and> bands_ok (rs_bands r)"

lemma check_band_Inr [simp]:
  "check_band p b = Inr q \<longleftrightarrow> p < minPotLamports b \<and> band_ok b \<and> q = minPotLamports b"
  by (auto simp: check_band_def band_ok_def foldl_plus_sum_list list_ex_iff list_all_iff not_le not_less)

lemma run_check_band:
  "run_res check_band p bs = Inr q \<Longrightarrow>
     list_all band_ok bs \<and> sorted_wrt (<) (p # map minPotLamports bs)"
proof (induction bs arbitrary: p)
  case (Cons b bs)
  then have h: "p < minPotLamports b" "band_ok b" "run_res check_band (minPotLamports b) bs = Inr q" by auto
  with Cons.IH [OF h(3)] show ?case by auto
qed simp

lemma check_band_runs:
  "list_all band_ok bs \<Longrightarrow> sorted_wrt (<) (p # map minPotLamports bs) \<Longrightarrow>
     \<exists>q. run_res check_band p bs = Inr q"
proof (induction bs arbitrary: p)
  case (Cons b bs)
  then have "\<exists>q. run_res check_band (minPotLamports b) bs = Inr q" by (intro Cons.IH) auto
  moreover have "check_band p b = Inr (minPotLamports b)" using Cons.prems by simp
  ultimately show ?case by simp
qed simp

lemma policy_check:
  "(\<exists>us. traverse (\<lambda>v. ensure (\<not> v < 0) Ruleset_error) (policy_values p) = Inr us) \<longleftrightarrow> policy_ok p"
  by (simp add: policy_values_def policy_ok_def not_less)

lemma bands_check:
  "bs \<noteq> [] \<Longrightarrow> minPotLamports (hd bs) = 0 \<Longrightarrow>
     (\<exists>q. run_res check_band (- 1) bs = Inr q)
       \<longleftrightarrow> list_all band_ok bs \<and> sorted_wrt (<) (map minPotLamports bs)"
proof -
  assume a: "bs \<noteq> []" "minPotLamports (hd bs) = 0"
  have low: "sorted_wrt (<) (map minPotLamports bs) \<Longrightarrow> sorted_wrt (<) (- 1 # map minPotLamports bs)"
    using a by (cases bs) auto
  show ?thesis using run_check_band [of "- 1" bs] check_band_runs [of bs "- 1"] low by fastforce
qed

lemma validateRuleset_iff: "validateRuleset r = Inr () \<longleftrightarrow> valid_ruleset r"
proof
  assume v: "validateRuleset r = Inr ()"
  then obtain q where "run_res check_band (- 1) (rs_bands r) = Inr q" and b: "rs_bands r \<noteq> []"
    "minPotLamports (hd (rs_bands r)) = 0" "length (rs_bands r) \<le> MAX_BANDS"
    by (auto simp: validateRuleset_def)
  then have "bands_ok (rs_bands r)" using bands_check by (auto simp: bands_ok_def)
  moreover have "policy_ok (rs_voidPolicy r)" using v by (simp add: validateRuleset_def flip: policy_check)
  ultimately show "valid_ruleset r" using v by (simp add: validateRuleset_def valid_ruleset_def)
next
  assume v: "valid_ruleset r"
  then have "\<exists>q. run_res check_band (- 1) (rs_bands r) = Inr q"
    using bands_check by (simp add: valid_ruleset_def bands_ok_def)
  moreover have "\<exists>us. traverse (\<lambda>v. ensure (\<not> v < 0) Ruleset_error) (policy_values (rs_voidPolicy r)) = Inr us"
    using v policy_check by (simp add: valid_ruleset_def)
  ultimately show "validateRuleset r = Inr ()"
    using v by (auto simp: validateRuleset_def valid_ruleset_def bands_ok_def)
qed

section \<open>The encoding is fixed and faithful\<close>

definition slot_bytes :: "payout_band option \<Rightarrow> byte list" where
  "slot_bytes s = (case s of
       None \<Rightarrow> replicate SLOT_BYTES 0
     | Some band \<Rightarrow> be_bytes AMOUNT_BYTES (minPotLamports band) @ be_bytes 1 (int (length (sharesBps band)))
         @ concat (map (be_bytes 2) (sharesBps band))
         @ replicate (2 * (MAX_SHARES - length (sharesBps band))) 0)"

definition slot_fits :: "payout_band option \<Rightarrow> bool" where
  "slot_fits s \<longleftrightarrow> (case s of None \<Rightarrow> True | Some band \<Rightarrow> amount_ok (minPotLamports band))"

lemma writeRulesetUint_Inr [simp]:
  "writeRulesetUint v n = Inr b \<longleftrightarrow> 0 \<le> v \<and> v < 256 ^ n \<and> b = be_bytes n v"
  by (simp add: writeRulesetUint_def)

lemma band_slot_Inr: "band_slot s = Inr b \<longleftrightarrow> slot_fits s \<and> b = slot_bytes s"
  by (auto simp: band_slot_def slot_fits_def slot_bytes_def amount_ok_def split: option.splits)

lemma length_concat_bytes [simp]: "length (concat (map (be_bytes n) vs)) = n * length vs"
  by (induction vs) auto

lemma slot_bytes_length: "(case s of None \<Rightarrow> True | Some b \<Rightarrow> band_ok b) \<Longrightarrow> length (slot_bytes s) = SLOT_BYTES"
  by (auto simp: slot_bytes_def SLOT_BYTES_def band_ok_def split: option.splits)

text \<open>Every share of an accepted band fits the two bytes it is written to.\<close>

lemma band_share_fits:
  assumes "band_ok b" "s \<in> set (sharesBps b)"
  shows "fits 2 s"
proof -
  have "s \<le> sum_list (sharesBps b)" using assms
    by (intro member_le_sum_list) (auto simp: band_ok_def list_all_iff)
  with assms show ?thesis by (auto simp: band_ok_def fits_def list_all_iff)
qed

lemma concat_bytes_inj:
  "concat (map (be_bytes n) vs) = concat (map (be_bytes n) ws) \<Longrightarrow> length vs = length ws \<Longrightarrow>
     list_all (fits n) vs \<Longrightarrow> list_all (fits n) ws \<Longrightarrow> vs = ws"
proof (induction vs arbitrary: ws)
  case (Cons v vs)
  then obtain w ws' where ws: "ws = w # ws'" by (cases ws) auto
  with Cons.prems have h: "be_bytes n v = be_bytes n w"
    "concat (map (be_bytes n) vs) = concat (map (be_bytes n) ws')" by simp_all
  have "v = w" using h(1) Cons.prems ws by (intro fits_inj) auto
  with Cons ws h(2) show ?case by simp
qed simp

lemma slot_bytes_inj:
  assumes e: "slot_bytes (Some a) = slot_bytes (Some b)"
    and a: "band_ok a" "amount_ok (minPotLamports a)" and b: "band_ok b" "amount_ok (minPotLamports b)"
  shows "a = b"
proof -
  have parts: "be_bytes AMOUNT_BYTES (minPotLamports a) = be_bytes AMOUNT_BYTES (minPotLamports b)"
    "be_bytes 1 (int (length (sharesBps a))) = be_bytes 1 (int (length (sharesBps b)))"
    "concat (map (be_bytes 2) (sharesBps a)) @ replicate (2 * (MAX_SHARES - length (sharesBps a))) 0
      = concat (map (be_bytes 2) (sharesBps b)) @ replicate (2 * (MAX_SHARES - length (sharesBps b))) 0"
    using e by (simp_all add: slot_bytes_def)
  have pot: "minPotLamports a = minPotLamports b"
    using parts(1) a(2) b(2) by (simp add: amount_ok_def be_bytes_inj)
  have small: "length (sharesBps a) < 256" "length (sharesBps b) < 256"
    using a(1) b(1) by (simp_all add: band_ok_def MAX_SHARES_def)
  then have "int (length (sharesBps a)) = int (length (sharesBps b))"
    by (intro be_bytes_inj [OF parts(2)]) simp_all
  then have len: "length (sharesBps a) = length (sharesBps b)" by simp
  have "concat (map (be_bytes 2) (sharesBps a)) = concat (map (be_bytes 2) (sharesBps b))"
    using parts(3) len by simp
  then have "sharesBps a = sharesBps b"
    using len band_share_fits a(1) b(1) by (intro concat_bytes_inj) (auto simp: list_all_iff)
  with pot show ?thesis by simp
qed

text \<open>The parts of a ruleset's bytes.\<close>

definition ruleset_parts :: "ruleset \<Rightarrow> byte list list" where
  "ruleset_parts r =
     [be_bytes 2 (rs_ordinal r), be_bytes 8 (rs_durationMs r), be_bytes 8 (rs_entryWindowMs r),
      be_bytes AMOUNT_BYTES (rs_startingBalance r), be_bytes AMOUNT_BYTES (rs_entryCost r),
      be_bytes 2 (rs_houseBps r), be_bytes AMOUNT_BYTES (rs_houseThreshold r), be_bytes 4 (rs_latencyMs r),
      be_bytes 2 (rs_slippageBps r), be_bytes 2 (rs_maxPriceImpactBps r), be_bytes 4 (rs_engineVersion r),
      be_bytes 1 (SCORING_CODES (rs_scoring r)), be_bytes 1 (TIEBREAK_CODES (rs_tiebreak r))]
     @ map (be_bytes 4) (policy_values (rs_voidPolicy r))
     @ [be_bytes 1 (int (length (rs_bands r)))]
     @ map slot_bytes (band_slots (rs_bands r))"

definition encodable :: "ruleset \<Rightarrow> bool" where
  "encodable r \<longleftrightarrow> valid_ruleset r \<and> rs_durationMs r < 256 ^ 8 \<and> rs_entryWindowMs r < 256 ^ 8
     \<and> amount_ok (rs_startingBalance r) \<and> amount_ok (rs_entryCost r) \<and> amount_ok (rs_houseThreshold r)
     \<and> list_all slot_fits (band_slots (rs_bands r))"

lemma encodeRuleset_Inr: "encodeRuleset r = Inr b \<longleftrightarrow> encodable r \<and> b = concat (ruleset_parts r)"
proof -
  have slots: "traverse band_slot ss = Inr bs \<longleftrightarrow> list_all slot_fits ss \<and> bs = map slot_bytes ss" for ss bs
    by (rule traverse_eq_Inr) (rule band_slot_Inr)
  have v: "(\<exists>u. validateRuleset r = Inr u) \<longleftrightarrow> valid_ruleset r" by (simp flip: validateRuleset_iff)
  have cat: "concat (ruleset_parts r) = be_bytes 2 (rs_ordinal r) @ be_bytes 8 (rs_durationMs r)
       @ be_bytes 8 (rs_entryWindowMs r) @ be_bytes AMOUNT_BYTES (rs_startingBalance r)
       @ be_bytes AMOUNT_BYTES (rs_entryCost r) @ be_bytes 2 (rs_houseBps r)
       @ be_bytes AMOUNT_BYTES (rs_houseThreshold r) @ be_bytes 4 (rs_latencyMs r)
       @ be_bytes 2 (rs_slippageBps r) @ be_bytes 2 (rs_maxPriceImpactBps r)
       @ be_bytes 4 (rs_engineVersion r) @ be_bytes 1 (SCORING_CODES (rs_scoring r))
       @ be_bytes 1 (TIEBREAK_CODES (rs_tiebreak r))
       @ concat (map (be_bytes 4) (policy_values (rs_voidPolicy r)))
       @ be_bytes 1 (int (length (rs_bands r))) @ concat (map slot_bytes (band_slots (rs_bands r)))"
    by (simp only: ruleset_parts_def concat.simps concat_append append.simps append_assoc append_Nil2)
  have d: "valid_ruleset r \<Longrightarrow> 0 \<le> rs_durationMs r \<and> 0 \<le> rs_entryWindowMs r"
    by (simp add: valid_ruleset_def)
  show ?thesis
    unfolding encodable_def encodeRuleset_def cat rbind_eq_Inr slots writeRulesetUint_Inr sum.inject amount_ok_def
    using v d by (cases "valid_ruleset r") auto
qed

lemma ruleset_parts_widths:
  assumes "valid_ruleset r"
  shows "map length (ruleset_parts r)
    = [2, 8, 8, 16, 16, 2, 16, 4, 2, 2, 4, 1, 1, 4, 4, 4, 4, 1] @ replicate MAX_BANDS SLOT_BYTES"
proof -
  have "length (slot_bytes s) = SLOT_BYTES" if "s \<in> set (band_slots (rs_bands r))" for s
    using that assms by (intro slot_bytes_length)
      (auto simp: band_slots_def valid_ruleset_def bands_ok_def list_all_iff)
  then have "map (\<lambda>s. length (slot_bytes s)) (band_slots (rs_bands r)) = replicate MAX_BANDS SLOT_BYTES"
    by (intro nth_equalityI) (simp_all add: band_slots_def)
  then show ?thesis by (simp add: ruleset_parts_def policy_values_def AMOUNT_BYTES_def comp_def)
qed

lemma encodeRuleset_length: "encodeRuleset r = Inr b \<Longrightarrow> length b = RULESET_BYTES"
  using ruleset_parts_widths [of r]
  by (simp add: encodeRuleset_Inr encodable_def length_concat RULESET_BYTES_def SLOT_BYTES_def
      AMOUNT_BYTES_def MAX_BANDS_def MAX_SHARES_def sum_list_replicate)

lemma length_band_slots [simp]: "length (band_slots bs) = MAX_BANDS"
  by (simp add: band_slots_def)

lemma band_slots_nth: "i < MAX_BANDS \<Longrightarrow> band_slots bs ! i = (if i < length bs then Some (bs ! i) else None)"
  by (simp add: band_slots_def)

lemma band_slots_inj:
  assumes e: "map slot_bytes (band_slots as) = map slot_bytes (band_slots bs)" and len: "length as = length bs"
    and a: "list_all band_ok as" "list_all slot_fits (band_slots as)" "length as \<le> MAX_BANDS"
    and b: "list_all band_ok bs" "list_all slot_fits (band_slots bs)"
  shows "as = bs"
proof (rule nth_equalityI)
  fix i assume i: "i < length as"
  then have i8: "i < MAX_BANDS" using a(3) by simp
  have "slot_bytes (band_slots as ! i) = slot_bytes (band_slots bs ! i)"
    using e i8 by (metis length_band_slots nth_map)
  then have "slot_bytes (Some (as ! i)) = slot_bytes (Some (bs ! i))"
    using i i8 len by (simp add: band_slots_nth)
  moreover have "slot_fits (Some (as ! i))" "slot_fits (Some (bs ! i))"
    using a(2) b(2) i i8 len by (auto simp: band_slots_def list_all_length)
  ultimately show "as ! i = bs ! i"
    using a(1) b(1) i len by (intro slot_bytes_inj) (auto simp: slot_fits_def list_all_length)
qed (rule len)

text \<open>A ruleset whose plain numbers fit the fields they are written to.\<close>

definition ruleset_fits :: "ruleset \<Rightarrow> bool" where
  "ruleset_fits r \<longleftrightarrow> - 32768 \<le> rs_ordinal r \<and> rs_ordinal r < 32768 \<and> fits 4 (rs_latencyMs r)
     \<and> fits 2 (rs_slippageBps r) \<and> fits 2 (rs_maxPriceImpactBps r) \<and> fits 4 (rs_engineVersion r)
     \<and> list_all (fits 4) (policy_values (rs_voidPolicy r))"

lemma policy_values_inj:
  assumes e: "map (be_bytes 4) (policy_values p) = map (be_bytes 4) (policy_values q)"
    and p: "list_all (fits 4) (policy_values p)" and q: "list_all (fits 4) (policy_values q)"
  shows "p = q"
proof -
  have "maxFeedOutageMinutes p = maxFeedOutageMinutes q" "maxChainHaltMinutes p = maxChainHaltMinutes q"
    "maxUncommittedTrades p = maxUncommittedTrades q" "maxIrreproducibleTrades p = maxIrreproducibleTrades q"
    using e p q by (auto simp: policy_values_def intro: fits_inj)
  then show ?thesis by simp
qed

lemma scoring_rule_eq: "(a :: scoring_rule) = b"
  by (cases a; cases b) simp

lemma tiebreak_eq: "(a :: tiebreak) = b"
  by (cases a; cases b) simp

lemma parts_determine_ruleset:
  assumes e: "ruleset_parts r = ruleset_parts r'" and r: "encodable r" "ruleset_fits r"
    and r': "encodable r'" "ruleset_fits r'"
  shows "r = r'"
proof -
  have lp: "length (map (be_bytes 4) (policy_values q)) = 4" for q by (simp add: policy_values_def)
  have parts: "be_bytes 2 (rs_ordinal r) = be_bytes 2 (rs_ordinal r')"
    "be_bytes 8 (rs_durationMs r) = be_bytes 8 (rs_durationMs r')"
    "be_bytes 8 (rs_entryWindowMs r) = be_bytes 8 (rs_entryWindowMs r')"
    "be_bytes AMOUNT_BYTES (rs_startingBalance r) = be_bytes AMOUNT_BYTES (rs_startingBalance r')"
    "be_bytes AMOUNT_BYTES (rs_entryCost r) = be_bytes AMOUNT_BYTES (rs_entryCost r')"
    "be_bytes 2 (rs_houseBps r) = be_bytes 2 (rs_houseBps r')"
    "be_bytes AMOUNT_BYTES (rs_houseThreshold r) = be_bytes AMOUNT_BYTES (rs_houseThreshold r')"
    "be_bytes 4 (rs_latencyMs r) = be_bytes 4 (rs_latencyMs r')"
    "be_bytes 2 (rs_slippageBps r) = be_bytes 2 (rs_slippageBps r')"
    "be_bytes 2 (rs_maxPriceImpactBps r) = be_bytes 2 (rs_maxPriceImpactBps r')"
    "be_bytes 4 (rs_engineVersion r) = be_bytes 4 (rs_engineVersion r')"
    "map (be_bytes 4) (policy_values (rs_voidPolicy r)) = map (be_bytes 4) (policy_values (rs_voidPolicy r'))"
    "be_bytes 1 (int (length (rs_bands r))) = be_bytes 1 (int (length (rs_bands r')))"
    "map slot_bytes (band_slots (rs_bands r)) = map slot_bytes (band_slots (rs_bands r'))"
    using e lp by (simp_all add: ruleset_parts_def del: length_map be_bytes.simps)
  note en = r(1) [unfolded encodable_def valid_ruleset_def] r'(1) [unfolded encodable_def valid_ruleset_def]
  note ft = r(2) [unfolded ruleset_fits_def] r'(2) [unfolded ruleset_fits_def]
  have am: "be_bytes AMOUNT_BYTES v = be_bytes AMOUNT_BYTES w \<Longrightarrow> amount_ok v \<Longrightarrow> amount_ok w \<Longrightarrow> v = w" for v w
    by (simp add: amount_ok_def be_bytes_inj)
  have "length (rs_bands r) < 256" "length (rs_bands r') < 256"
    using en by (simp_all add: bands_ok_def MAX_BANDS_def)
  then have "int (length (rs_bands r)) = int (length (rs_bands r'))"
    by (intro be_bytes_inj [OF parts(13)]) simp_all
  then have bands: "rs_bands r = rs_bands r'"
    using en by (intro band_slots_inj [OF parts(14)]) (simp_all add: bands_ok_def)
  have policy: "rs_voidPolicy r = rs_voidPolicy r'" using ft by (intro policy_values_inj [OF parts(12)]) simp_all
  have times: "rs_durationMs r = rs_durationMs r'" "rs_entryWindowMs r = rs_entryWindowMs r'"
    "rs_houseBps r = rs_houseBps r'"
    using en by (intro be_bytes_inj [OF parts(2)] be_bytes_inj [OF parts(3)] be_bytes_inj [OF parts(6)]; simp)+
  have amounts: "rs_startingBalance r = rs_startingBalance r'" "rs_entryCost r = rs_entryCost r'"
    "rs_houseThreshold r = rs_houseThreshold r'"
    using en by (auto intro: am [OF parts(4)] am [OF parts(5)] am [OF parts(7)])
  have plain: "rs_ordinal r = rs_ordinal r'" "rs_latencyMs r = rs_latencyMs r'" "rs_slippageBps r = rs_slippageBps r'"
    "rs_maxPriceImpactBps r = rs_maxPriceImpactBps r'" "rs_engineVersion r = rs_engineVersion r'"
    using ft by (auto intro: ordinal_inj [OF parts(1)] fits_inj [OF parts(8)] fits_inj [OF parts(9)]
        fits_inj [OF parts(10)] fits_inj [OF parts(11)])
  have codes: "rs_scoring r = rs_scoring r'" "rs_tiebreak r = rs_tiebreak r'"
    by (rule scoring_rule_eq, rule tiebreak_eq)
  show ?thesis using bands policy times amounts plain codes by simp
qed

lemma published_rules_valid: "valid_ruleset (rulesetFor n)"
  by (simp add: valid_ruleset_def published_defs bands_ok_def band_ok_def policy_ok_def policy_values_def
      MAX_BANDS_def MAX_SHARES_def signed_divide_int_def)

lemma published_rules_encode:
  "encodeRuleset (rulesetFor n) = Inr (concat (ruleset_parts (rulesetFor n)))"
proof -
  have "list_all slot_fits (band_slots PAYOUT_BANDS)" by code_simp
  moreover have "amount_ok STARTING_BALANCE" "amount_ok ENTRY_COST" "amount_ok HOUSE_THRESHOLD" by code_simp+
  moreover have "SEASON_ONE_DURATION_MS < 256 ^ 8" "SEASON_DURATION_MS < 256 ^ 8" "ENTRY_WINDOW_MS < 256 ^ 8"
    by code_simp+
  ultimately have "encodable (rulesetFor n)"
    by (simp add: encodable_def published_rules_valid) (simp add: rulesetFor_def)
  then show ?thesis by (simp add: encodeRuleset_Inr)
qed

lemma published_rules_fit: "- 32768 \<le> n \<Longrightarrow> n < 32768 \<Longrightarrow> ruleset_fits (rulesetFor n)"
  by (simp add: ruleset_fits_def published_defs fits_def policy_values_def)

section \<open>Properties\<close>

text \<open>
  validation accepts exactly the rulesets that can be run: time to trade and to enter,
  a house cut within the pot, bands in increasing order from zero, each paying at least one
  and at most sixteen places, all of them something, in shares that total the whole.
  Everything else is refused with a ruleset error and never with another failure.
\<close>

theorem validation_accepts_exactly_sound_rules:
  "validateRuleset r = (if valid_ruleset r then Inr () else Inl Ruleset_error)"
proof (cases "valid_ruleset r")
  case False
  have policy: "traverse (\<lambda>v. ensure (\<not> v < 0) Ruleset_error) vs = Inl e \<Longrightarrow> e = Ruleset_error" for vs e
    by (induction vs) (auto simp: rbind_eq_Inl)
  have band: "run_res check_band p bs = Inl e \<Longrightarrow> e = Ruleset_error" for p bs e
    by (induction bs arbitrary: p) (auto simp: rbind_eq_Inl check_band_def)
  obtain e where e: "validateRuleset r = Inl e" using False validateRuleset_iff by (cases "validateRuleset r") auto
  then have "e = Ruleset_error"
    by (auto simp: validateRuleset_def rbind_eq_Inl dest: policy band)
  with e False show ?thesis by simp
qed (simp add: validateRuleset_iff)

text \<open>
  the bytes that are hashed and recorded on chain pin the rules. Every encoding is
  exactly \<open>RULESET_BYTES\<close> long, and two rulesets whose plain numbers fit their fields and
  whose bytes agree are the same ruleset: thresholds, bands and shares included.
\<close>

theorem ruleset_bytes_pin_the_rules:
  assumes "encodeRuleset r = Inr b" "encodeRuleset r' = Inr b" and "ruleset_fits r" "ruleset_fits r'"
  shows "length b = RULESET_BYTES \<and> r = r'"
proof -
  have e: "encodable r" "encodable r'" "concat (ruleset_parts r) = concat (ruleset_parts r')"
    using assms by (simp_all add: encodeRuleset_Inr)
  then have "map length (ruleset_parts r) = map length (ruleset_parts r')"
    by (simp add: ruleset_parts_widths encodable_def)
  with e(3) have "ruleset_parts r = ruleset_parts r'" by (rule concat_same_widths)
  then have "r = r'" using e assms by (intro parts_determine_ruleset)
  then show ?thesis using encodeRuleset_length assms(1) by blast
qed

theorem ruleset_bytes_pin_the_rules_witness:
  "length (concat (ruleset_parts (rulesetFor 3))) = RULESET_BYTES"
  using ruleset_bytes_pin_the_rules [OF published_rules_encode published_rules_encode
      published_rules_fit published_rules_fit, of 3]
  by simp

text \<open>
  the rules the arena publishes are accepted and encode, for every season: nothing in
  the constants is refused by the validator or too wide for its field.
\<close>

theorem published_rules_are_accepted:
  "validateRuleset (rulesetFor n) = Inr ()
    \<and> (\<exists>b. encodeRuleset (rulesetFor n) = Inr b \<and> length b = RULESET_BYTES)"
  using published_rules_encode [of n] encodeRuleset_length [OF published_rules_encode] published_rules_valid [of n]
  by (auto simp: validateRuleset_iff)

text \<open>
  a threshold too wide for its field is not refused but cut. The published rules and
  the same rules with an outage allowance of \<open>120 + 2 ^ 32\<close> minutes are both accepted and
  have the same bytes, so the hash on chain does not tell them apart.
\<close>

theorem wide_thresholds_share_a_hash:
  "let p = rs_voidPolicy (rulesetFor 1);
       r = (rulesetFor 1)\<lparr>rs_voidPolicy := p\<lparr>maxFeedOutageMinutes := 120 + 2 ^ 32\<rparr>\<rparr>
   in r \<noteq> rulesetFor 1 \<and> validateRuleset r = Inr () \<and> encodeRuleset r = encodeRuleset (rulesetFor 1)"
proof -
  define p where "p = DEFAULT_VOID_POLICY\<lparr>maxFeedOutageMinutes := 120 + 2 ^ 32\<rparr>"
  define r where "r = (rulesetFor 1)\<lparr>rs_voidPolicy := p\<rparr>"
  have vp: "policy_values p = [4294967416, 60, 0, 0]" "policy_values (rs_voidPolicy (rulesetFor 1)) = [120, 60, 0, 0]"
    by (simp_all add: policy_values_def p_def published_defs)
  have same: "be_bytes 4 4294967416 = be_bytes 4 120" by (simp only: be_bytes_eq_iff) simp
  have "valid_ruleset r"
    using published_rules_valid [of 1] vp by (simp add: valid_ruleset_def r_def policy_ok_def)
  then have v: "validateRuleset r = Inr ()" "validateRuleset (rulesetFor 1) = Inr ()"
    using published_rules_valid [of 1] by (simp_all add: validateRuleset_iff)
  have "encodeRuleset r = encodeRuleset (rulesetFor 1)"
    unfolding encodeRuleset_def v by (simp add: r_def vp same)
  moreover have "r \<noteq> rulesetFor 1"
  proof
    assume "r = rulesetFor 1"
    then have "policy_values (rs_voidPolicy r) = policy_values (rs_voidPolicy (rulesetFor 1))" by simp
    then show False by (simp add: r_def vp)
  qed
  ultimately show ?thesis
    using v by (simp add: r_def p_def Let_def) (simp add: rulesetFor_def)
qed

end
