(* ===== verification/Payout.thy ===== *)
theory Payout
  imports Ruleset
begin

text \<open>
  Dividing the pot (packages/seasons/src/payout.ts). Every lamport paid in is paid out or
  taken by the house.
\<close>

record payout =
  place :: int
  lamports :: int

record distribution =
  d_pot :: int
  d_house :: int
  d_distributable :: int
  d_payouts :: "payout list"
  d_band :: payout_band
  d_paidPlaces :: int

definition bandFor :: "ruleset \<Rightarrow> int \<Rightarrow> payout_band res" where
  "bandFor r pot = (case rs_bands r of
       [] \<Rightarrow> Inl Ruleset_error
     | first # rest \<Rightarrow>
         Inr (foldl (\<lambda>chosen band. if pot \<ge> minPotLamports band then band else chosen) first (first # rest)))"

definition houseCut :: "ruleset \<Rightarrow> int \<Rightarrow> int \<Rightarrow> int" where
  "houseCut r pot base = (if pot \<le> rs_houseThreshold r then 0 else (base * rs_houseBps r) sdiv 10000)"

definition split_shares :: "int \<Rightarrow> int list \<Rightarrow> payout list res" where
  "split_shares distributable shares =
     traverse (\<lambda>(index, share).
       rbind (big_div (distributable * share) (foldl (+) 0 shares)) (\<lambda>amount.
       Inr \<lparr>place = int index + 1, lamports = amount\<rparr>)) (enumerate 0 shares)"

definition give_remainder :: "int \<Rightarrow> payout list \<Rightarrow> payout list" where
  "give_remainder remainder payouts = (case payouts of
       [] \<Rightarrow> []
     | first # rest \<Rightarrow> (if remainder > 0 then \<lparr>place = 1, lamports = lamports first + remainder\<rparr> # rest
                        else payouts))"

definition distribute :: "ruleset \<Rightarrow> int \<Rightarrow> int \<Rightarrow> int option \<Rightarrow> distribution res" where
  "distribute r pot entrants houseBase =
     rbind (ensure (\<not> pot < 0) Ruleset_error) (\<lambda>_.
     rbind (bandFor r pot) (\<lambda>band.
     if entrants \<le> 0 \<or> pot = 0
     then Inr \<lparr>d_pot = pot, d_house = 0, d_distributable = 0, d_payouts = [], d_band = band, d_paidPlaces = 0\<rparr>
     else
       let house = houseCut r pot (case houseBase of None \<Rightarrow> pot | Some base \<Rightarrow> base);
           distributable = pot - house;
           paidPlaces = min (int (length (sharesBps band))) entrants;
           shares = take (nat paidPlaces) (sharesBps band) in
       rbind (split_shares distributable shares) (\<lambda>payouts.
       let assigned = foldl (+) 0 (map lamports payouts);
           remainder = distributable - assigned in
       Inr \<lparr>d_pot = pot, d_house = house, d_distributable = distributable,
            d_payouts = give_remainder remainder payouts, d_band = band, d_paidPlaces = paidPlaces\<rparr>)))"

definition nextBand :: "ruleset \<Rightarrow> int \<Rightarrow> payout_band option" where
  "nextBand r pot = List.find (\<lambda>band. minPotLamports band > pot) (rs_bands r)"

section \<open>The band of a pot\<close>

lemma choose_band:
  "sorted_wrt (<) (map minPotLamports (c # bs)) \<Longrightarrow> minPotLamports c \<le> pot \<Longrightarrow>
     let b = foldl (\<lambda>chosen band. if pot \<ge> minPotLamports band then band else chosen) c bs
     in b \<in> set (c # bs) \<and> minPotLamports b \<le> pot
        \<and> (\<forall>b' \<in> set (c # bs). minPotLamports b' \<le> pot \<longrightarrow> minPotLamports b' \<le> minPotLamports b)"
proof (induction bs arbitrary: c)
  case (Cons b bs)
  show ?case
  proof (cases "minPotLamports b \<le> pot")
    case True
    with Cons.IH [of b] Cons.prems show ?thesis by (auto simp: Let_def)
  next
    case False
    have "sorted_wrt (<) (map minPotLamports (c # bs))" using Cons.prems by simp
    with Cons.IH [of c] Cons.prems False show ?thesis by (auto simp: Let_def)
  qed
qed (simp add: Let_def)

lemma bandFor_valid:
  assumes "bands_ok (rs_bands r)" "0 \<le> pot"
  shows "\<exists>b \<in> set (rs_bands r). bandFor r pot = Inr b \<and> minPotLamports b \<le> pot
    \<and> (\<forall>b' \<in> set (rs_bands r). minPotLamports b' \<le> pot \<longrightarrow> minPotLamports b' \<le> minPotLamports b)"
proof -
  obtain f bs where f: "rs_bands r = f # bs" using assms by (cases "rs_bands r") (auto simp: bands_ok_def)
  with assms have "sorted_wrt (<) (map minPotLamports (f # bs))" "minPotLamports f \<le> pot"
    by (auto simp: bands_ok_def)
  from choose_band [OF this] this(2) show ?thesis by (simp add: bandFor_def f Let_def)
qed

section \<open>Splitting an amount by shares\<close>

text \<open>What the shares come to, each rounded down.\<close>

lemma sum_floors_le:
  assumes "0 < (t::int)" "list_all (\<lambda>s. 0 \<le> s) ss" "0 \<le> d"
  shows "sum_list (map (\<lambda>s. d * s div t) ss) \<le> d * sum_list ss div t"
  using assms(2)
proof (induction ss)
  case (Cons s ss)
  have "d * s div t + d * sum_list ss div t \<le> (d * s + d * sum_list ss) div t"
    using floor_mult_le [OF assms(1), of "d * s"] floor_mult_le [OF assms(1), of "d * sum_list ss"]
    by (subst le_floor_iff [OF assms(1)]) (simp add: distrib_right)
  with Cons show ?case by (simp add: distrib_left)
qed simp

lemma sum_floors_ge:
  assumes "0 < (t::int)"
  shows "d * sum_list ss < t * (sum_list (map (\<lambda>s. d * s div t) ss) + int (length ss)) \<or> ss = []"
proof (induction ss)
  case (Cons s ss)
  have f: "d * s < t * (d * s div t + 1)"
    using floor_lt_iff [OF assms, of "d * s" "d * s div t + 1"] by (simp add: mult.commute)
  show ?case
  proof (cases "ss = []")
    case True
    with f show ?thesis by simp
  next
    case False
    with Cons have "d * sum_list ss < t * (sum_list (map (\<lambda>s. d * s div t) ss) + int (length ss))" by simp
    with f have "d * s + d * sum_list ss
        < t * (d * s div t + 1) + t * (sum_list (map (\<lambda>s. d * s div t) ss) + int (length ss))" by (rule add_strict_mono)
    then show ?thesis by (simp add: algebra_simps)
  qed
qed simp

lemma sum_list_positive: "ss \<noteq> [] \<Longrightarrow> list_all (\<lambda>s. 0 < s) ss \<Longrightarrow> (0::int) < sum_list ss"
proof (induction ss)
  case (Cons s ss)
  then show ?case by (cases "ss = []") (auto intro: add_pos_pos)
qed simp

lemma split_shares_ok:
  assumes "0 \<le> d" "list_all (\<lambda>s. 0 < s) ss"
  shows "split_shares d ss = Inr (map (\<lambda>(i, s). \<lparr>place = int i + 1, lamports = d * s div sum_list ss\<rparr>) (enumerate 0 ss))"
proof (cases "ss = []")
  case False
  then have t: "0 < sum_list ss" using assms(2) by (rule sum_list_positive)
  have nn: "0 \<le> s" if "(i, s) \<in> set (enumerate 0 ss)" for i s
    using that assms(2) by (auto simp: list_all_iff in_set_enumerate_eq intro: less_imp_le)
  show ?thesis
    unfolding split_shares_def foldl_plus_sum_list
  proof (rule traverse_pure)
    fix x assume x: "x \<in> set (enumerate 0 ss)"
    obtain i s where "x = (i, s)" by (cases x)
    with x nn t assms(1)
    show "(case x of (index, share) \<Rightarrow> rbind (big_div (d * share) (0 + sum_list ss))
            (\<lambda>amount. Inr \<lparr>place = int index + 1, lamports = amount\<rparr>))
        = Inr (case x of (i, s) \<Rightarrow> \<lparr>place = int i + 1, lamports = d * s div sum_list ss\<rparr>)"
      by (simp add: big_div_def sdiv_nonneg)
  qed
qed (simp add: split_shares_def)

section \<open>The whole distribution\<close>

definition base_ok :: "int option \<Rightarrow> int \<Rightarrow> bool" where
  "base_ok hb pot \<longleftrightarrow> (case hb of None \<Rightarrow> True | Some base \<Rightarrow> 0 \<le> base \<and> base \<le> pot)"

text \<open>What each place gets before the remainder, and what is left over.\<close>

definition floor_payouts :: "int \<Rightarrow> int list \<Rightarrow> payout list" where
  "floor_payouts d ss = map (\<lambda>(i, s). \<lparr>place = int i + 1, lamports = d * s div sum_list ss\<rparr>) (enumerate 0 ss)"

definition left_over :: "int \<Rightarrow> int list \<Rightarrow> int" where
  "left_over d ss = d - sum_list (map (\<lambda>s. d * s div sum_list ss) ss)"

lemma floor_payouts_lamports: "map lamports (floor_payouts d ss) = map (\<lambda>s. d * s div sum_list ss) ss"
  by (intro nth_equalityI) (simp_all add: floor_payouts_def nth_enumerate_eq)

lemma floor_payouts_places: "map place (floor_payouts d ss) = map (\<lambda>i. int i + 1) [0..<length ss]"
  by (intro nth_equalityI) (simp_all add: floor_payouts_def nth_enumerate_eq)

lemma left_over_bounds:
  assumes "0 \<le> d" "list_all (\<lambda>s. 0 < s) ss" "ss \<noteq> []"
  shows "0 \<le> left_over d ss \<and> left_over d ss < int (length ss)"
proof -
  have t: "0 < sum_list ss" using assms by (intro sum_list_positive)
  have "list_all (\<lambda>s. 0 \<le> s) ss" using assms(2) by (auto simp: list_all_iff)
  then have "sum_list (map (\<lambda>s. d * s div sum_list ss) ss) \<le> d"
    using sum_floors_le [OF t, of ss d] assms(1) t by simp
  moreover have "d * sum_list ss < (sum_list (map (\<lambda>s. d * s div sum_list ss) ss) + int (length ss)) * sum_list ss"
    using sum_floors_ge [OF t, of d ss] assms(3) by (simp add: mult.commute)
  then have "d < sum_list (map (\<lambda>s. d * s div sum_list ss) ss) + int (length ss)"
    using t by (simp only: mult_less_cancel_right_pos)
  ultimately show ?thesis by (simp add: left_over_def)
qed

lemma give_remainder_lamports:
  "0 \<le> x \<Longrightarrow> ps \<noteq> [] \<Longrightarrow> sum_list (map lamports (give_remainder x ps)) = sum_list (map lamports ps) + x"
  by (cases ps) (auto simp: give_remainder_def)

lemma give_remainder_shape [simp]:
  "length (give_remainder x ps) = length ps" "0 < i \<Longrightarrow> give_remainder x ps ! i = ps ! i"
  "give_remainder x ps = [] \<longleftrightarrow> ps = []"
  by (auto simp: give_remainder_def nth_Cons split: list.splits nat.splits)

lemma give_remainder_first: "0 \<le> x \<Longrightarrow> ps \<noteq> [] \<Longrightarrow> lamports (give_remainder x ps ! 0) = lamports (ps ! 0) + x"
  by (cases ps) (auto simp: give_remainder_def)

lemma give_remainder_places:
  "ps \<noteq> [] \<Longrightarrow> place (ps ! 0) = 1 \<Longrightarrow> map place (give_remainder x ps) = map place ps"
  by (cases ps) (auto simp: give_remainder_def)

lemma houseCut_bounds:
  assumes "0 \<le> rs_houseBps r" "rs_houseBps r \<le> 10000" "0 \<le> base"
  shows "0 \<le> houseCut r pot base \<and> houseCut r pot base \<le> base"
proof -
  have "base * rs_houseBps r \<le> base * 10000" using assms by (intro mult_left_mono)
  then have "base * rs_houseBps r div 10000 \<le> base * 10000 div 10000" by (intro zdiv_mono1) simp_all
  then show ?thesis using assms by (simp add: houseCut_def sdiv_nonneg pos_imp_zdiv_nonneg_iff)
qed

lemma distribute_open:
  assumes v: "valid_ruleset r" and pot: "0 < pot" and n: "0 < n" and base: "base_ok hb pot"
  shows "\<exists>band \<in> set (rs_bands r). \<exists>house ss. bandFor r pot = Inr band \<and> 0 \<le> house \<and> house \<le> pot
    \<and> house = houseCut r pot (case hb of None \<Rightarrow> pot | Some b \<Rightarrow> b)
    \<and> ss = take (nat n) (sharesBps band) \<and> ss \<noteq> [] \<and> list_all (\<lambda>s. 0 < s) ss
    \<and> distribute r pot n hb = Inr \<lparr>d_pot = pot, d_house = house, d_distributable = pot - house,
        d_payouts = give_remainder (left_over (pot - house) ss) (floor_payouts (pot - house) ss),
        d_band = band, d_paidPlaces = int (length ss)\<rparr>"
proof -
  have b: "bands_ok (rs_bands r)" "0 \<le> rs_houseBps r" "rs_houseBps r \<le> 10000"
    using v by (simp_all add: valid_ruleset_def)
  obtain band where band: "band \<in> set (rs_bands r)" "bandFor r pot = Inr band"
    using bandFor_valid [OF b(1), of pot] pot by force
  then have ok: "sharesBps band \<noteq> []" "list_all (\<lambda>s. 0 < s) (sharesBps band)"
    using b(1) by (auto simp: bands_ok_def list_all_iff band_ok_def)
  define house where "house = houseCut r pot (case hb of None \<Rightarrow> pot | Some b \<Rightarrow> b)"
  have h: "0 \<le> house \<and> house \<le> pot"
    using houseCut_bounds [OF b(2,3), of "case hb of None \<Rightarrow> pot | Some b \<Rightarrow> b" pot] base pot
    by (auto simp: house_def base_ok_def split: option.splits)
  define ss where "ss = take (nat n) (sharesBps band)"
  have ss: "ss \<noteq> []" "list_all (\<lambda>s. 0 < s) ss"
    using ok n by (auto simp: ss_def list_all_iff dest: in_set_takeD)
  have places: "min (int (length (sharesBps band))) n = int (length ss)"
    "take (length ss) (sharesBps band) = ss"
    using n by (auto simp: ss_def min_def)
  have split: "split_shares (pot - house) ss = Inr (floor_payouts (pot - house) ss)"
    using h ss by (simp add: split_shares_ok floor_payouts_def)
  have "distribute r pot n hb = Inr \<lparr>d_pot = pot, d_house = house, d_distributable = pot - house,
        d_payouts = give_remainder (left_over (pot - house) ss) (floor_payouts (pot - house) ss),
        d_band = band, d_paidPlaces = int (length ss)\<rparr>"
    using pot n band(2)
    by (simp add: distribute_def Let_def places split foldl_plus_sum_list left_over_def
        floor_payouts_lamports flip: house_def)
  then show ?thesis using band h ss house_def ss_def by blast
qed

lemma floor_payouts_nth:
  "i < length ss \<Longrightarrow> floor_payouts d ss ! i = \<lparr>place = int i + 1, lamports = d * (ss ! i) div sum_list ss\<rparr>"
  by (simp add: floor_payouts_def nth_enumerate_eq)

lemma length_floor_payouts [simp]: "length (floor_payouts d ss) = length ss"
  by (simp add: floor_payouts_def)

lemma floor_payouts_nonneg:
  "0 \<le> d \<Longrightarrow> list_all (\<lambda>s. 0 < s) ss \<Longrightarrow> i < length ss \<Longrightarrow> 0 \<le> lamports (floor_payouts d ss ! i)"
proof -
  assume a: "0 \<le> d" "list_all (\<lambda>s. 0 < s) ss" "i < length ss"
  then have "0 < sum_list ss" by (intro sum_list_positive) auto
  moreover have "0 \<le> ss ! i" using a by (simp add: list_all_length less_imp_le)
  ultimately show ?thesis using a by (simp add: floor_payouts_nth pos_imp_zdiv_nonneg_iff)
qed

section \<open>Properties\<close>

definition pays_out :: "int \<Rightarrow> int \<Rightarrow> distribution \<Rightarrow> bool" where
  "pays_out pot n d \<longleftrightarrow> d_house d + sum_list (map lamports (d_payouts d)) = pot
     \<and> 0 \<le> d_house d \<and> list_all (\<lambda>p. 0 \<le> lamports p) (d_payouts d)
     \<and> map place (d_payouts d) = map (\<lambda>i. int i + 1) [0..<nat (d_paidPlaces d)]
     \<and> d_paidPlaces d = min (int (length (sharesBps (d_band d)))) n"

lemma distribution_pays_out:
  assumes "valid_ruleset r" "0 \<le> pot" "base_ok hb pot"
  shows "\<exists>d. distribute r pot n hb = Inr d
    \<and> (if n \<le> 0 \<or> pot = 0 then d_payouts d = [] \<and> d_house d = 0 else pays_out pot n d)"
proof (cases "n \<le> 0 \<or> pot = 0")
  case True
  have "bands_ok (rs_bands r)" using assms(1) by (simp add: valid_ruleset_def)
  then obtain band where "bandFor r pot = Inr band" using bandFor_valid assms(2) by blast
  with True assms(2) show ?thesis by (auto simp: distribute_def)
next
  case False
  then have pn: "0 < pot" "0 < n" using assms(2) by auto
  obtain band house ss where s: "0 \<le> house" "house \<le> pot" "ss = take (nat n) (sharesBps band)" "ss \<noteq> []"
      "list_all (\<lambda>s. 0 < s) ss"
    and d: "distribute r pot n hb = Inr \<lparr>d_pot = pot, d_house = house, d_distributable = pot - house,
        d_payouts = give_remainder (left_over (pot - house) ss) (floor_payouts (pot - house) ss),
        d_band = band, d_paidPlaces = int (length ss)\<rparr>" (is "_ = Inr ?d")
    using distribute_open [OF assms(1) pn assms(3)] by blast
  have lo: "0 \<le> left_over (pot - house) ss" using left_over_bounds [of "pot - house" ss] s by simp
  have ne: "floor_payouts (pot - house) ss \<noteq> []" using s(4) by (metis length_0_conv length_floor_payouts)
  have sum: "house + sum_list (map lamports (d_payouts ?d)) = pot"
    using lo ne by (simp add: give_remainder_lamports floor_payouts_lamports) (simp add: left_over_def)
  have places: "map place (d_payouts ?d) = map (\<lambda>i. int i + 1) [0..<length ss]"
    using ne s(4) by (simp add: give_remainder_places floor_payouts_nth floor_payouts_places)
  have nonneg: "0 \<le> lamports (d_payouts ?d ! i)" if "i < length ss" for i
    using that lo ne s floor_payouts_nonneg [of "pot - house" ss i]
    by (cases "i = 0") (simp_all add: give_remainder_first)
  have paid: "min (int (length (sharesBps band))) n = int (length ss)" using s(3) pn by auto
  show ?thesis using False d sum places nonneg paid s(1) by (simp add: pays_out_def list_all_length)
qed

text \<open>
  C22: the pot always splits, and nothing is lost or made in splitting it. Under accepted
  rules, with a house base between nothing and the pot, the distribution exists. When there
  is a pot and somebody entered, the house cut and the payouts add up to exactly the pot,
  none of them is negative, and the places paid are \<open>1\<close> up to the smaller of the band's
  places and the entrants. Otherwise nobody is paid.
\<close>

theorem pot_is_fully_paid:
  assumes "valid_ruleset r" "0 \<le> pot" "base_ok hb pot"
  shows "\<exists>d. distribute r pot n hb = Inr d
    \<and> (if n \<le> 0 \<or> pot = 0 then d_payouts d = [] \<and> d_house d = 0 else pays_out pot n d)"
  using assms by (rule distribution_pays_out)

lemma published_base: "base_ok (Some 2000000000) 3000000000"
  by (simp add: base_ok_def)

theorem pot_is_fully_paid_witness:
  "\<exists>d. distribute (rulesetFor 2) 3000000000 40 (Some 2000000000) = Inr d \<and> pays_out 3000000000 40 d"
  using pot_is_fully_paid [OF published_rules_valid _ published_base, of 2 40] by simp

text \<open>
  the prizes follow the published shares. Every place gets exactly its share of what is
  left after the house cut, over the total of the shares paid, rounded down; first place gets
  the remainder of the rounding as well, which is less than one lamport per place paid. When
  the shares of the band do not rise from one place to the next, neither do the prizes.
\<close>

theorem prizes_follow_the_shares:
  assumes "valid_ruleset r" "0 < pot" "0 < n" "base_ok hb pot" "distribute r pot n hb = Inr d"
  shows "let ss = take (nat n) (sharesBps (d_band d)); ps = map lamports (d_payouts d);
             left = d_distributable d - sum_list (map (\<lambda>s. d_distributable d * s div sum_list ss) ss)
         in length ps = length ss \<and> 0 \<le> left \<and> left < int (length ss)
            \<and> (\<forall>i < length ss. ps ! i = d_distributable d * (ss ! i) div sum_list ss + (if i = 0 then left else 0))
            \<and> (sorted_wrt (\<ge>) (sharesBps (d_band d)) \<longrightarrow> sorted_wrt (\<ge>) ps)"
proof -
  obtain band house ss where s: "0 \<le> house" "house \<le> pot" "ss = take (nat n) (sharesBps band)" "ss \<noteq> []"
      "list_all (\<lambda>s. 0 < s) ss"
    and d: "d = \<lparr>d_pot = pot, d_house = house, d_distributable = pot - house,
        d_payouts = give_remainder (left_over (pot - house) ss) (floor_payouts (pot - house) ss),
        d_band = band, d_paidPlaces = int (length ss)\<rparr>"
    using distribute_open [OF assms(1-4)] assms(5) by auto
  have lo: "0 \<le> left_over (pot - house) ss" "left_over (pot - house) ss < int (length ss)"
    using left_over_bounds [of "pot - house" ss] s by simp_all
  have ne: "floor_payouts (pot - house) ss \<noteq> []" using s(4) by (metis length_0_conv length_floor_payouts)
  have t: "0 < sum_list ss" using s by (intro sum_list_positive)
  define ps where "ps = map lamports (d_payouts d)"
  have len: "length ps = length ss" by (simp add: ps_def d)
  have at: "ps ! i = (pot - house) * (ss ! i) div sum_list ss + (if i = 0 then left_over (pot - house) ss else 0)"
    if "i < length ss" for i
    using that lo ne by (cases "i = 0") (simp_all add: ps_def d give_remainder_first floor_payouts_nth)
  have "sorted_wrt (\<ge>) ps" if sh: "sorted_wrt (\<ge>) (sharesBps band)"
  proof -
    have m: "(pot - house) * (ss ! j) div sum_list ss \<le> (pot - house) * (ss ! i) div sum_list ss"
      if "i < j" "j < length ss" for i j
      using that sh s t by (intro zdiv_mono1 mult_left_mono) (auto simp: sorted_wrt_iff_nth_less)
    have "ps ! j \<le> ps ! i" if "i < j" "j < length ss" for i j
      using m [OF that] at [OF less_trans [OF that]] at [OF that(2)] lo(1) that(1) by auto
    then show ?thesis by (simp add: sorted_wrt_iff_nth_less len)
  qed
  moreover have "d_band d = band" "d_distributable d = pot - house" "map lamports (d_payouts d) = ps"
    by (simp_all add: d ps_def)
  ultimately show ?thesis
    using len at lo unfolding left_over_def Let_def by (simp only: s(3) [symmetric]) blast
qed

definition three_way_split :: distribution where
  "three_way_split = \<lparr>d_pot = 2000000001, d_house = 200000000, d_distributable = 1800000001,
     d_payouts = [\<lparr>place = 1, lamports = 990000001\<rparr>, \<lparr>place = 2, lamports = 540000000\<rparr>,
       \<lparr>place = 3, lamports = 270000000\<rparr>],
     d_band = \<lparr>minPotLamports = 1000000000, sharesBps = [5500, 3000, 1500]\<rparr>, d_paidPlaces = 3\<rparr>"

lemma three_way_split: "distribute (rulesetFor 1) 2000000001 40 None = Inr three_way_split"
  by code_simp

theorem prizes_follow_the_shares_witness:
  "sorted_wrt (\<ge>) (map lamports (d_payouts three_way_split))
    \<and> map lamports (d_payouts three_way_split) = [990000001, 540000000, 270000000]"
  using prizes_follow_the_shares [OF published_rules_valid _ _ _ three_way_split]
  by (simp add: base_ok_def three_way_split_def Let_def)

text \<open>
  a lone entrant of a small season gets everything back: with one entrant and a pot at
  or under the threshold there is no cut and one payout, the whole pot.
\<close>

theorem lone_entrant_gets_everything:
  assumes "valid_ruleset r" "0 < pot" "pot \<le> rs_houseThreshold r" "base_ok hb pot"
  shows "\<exists>d. distribute r pot 1 hb = Inr d \<and> d_house d = 0 \<and> d_payouts d = [\<lparr>place = 1, lamports = pot\<rparr>]"
proof -
  obtain band house ss where s: "house = houseCut r pot (case hb of None \<Rightarrow> pot | Some b \<Rightarrow> b)"
      "ss = take 1 (sharesBps band)" "ss \<noteq> []" "list_all (\<lambda>s. 0 < s) ss"
    and d: "distribute r pot 1 hb = Inr \<lparr>d_pot = pot, d_house = house, d_distributable = pot - house,
        d_payouts = give_remainder (left_over (pot - house) ss) (floor_payouts (pot - house) ss),
        d_band = band, d_paidPlaces = int (length ss)\<rparr>"
    using distribute_open [OF assms(1,2) _ assms(4), of 1] by auto
  have h: "house = 0" using assms(3) s(1) by (simp add: houseCut_def)
  obtain x where x: "ss = [x]" "0 < x" using s(2-4) by (cases "sharesBps band") auto
  then show ?thesis using d h by (simp add: floor_payouts_def left_over_def give_remainder_def)
qed

theorem lone_entrant_gets_everything_witness:
  "\<exists>d. distribute (rulesetFor 1) 50000000 1 None = Inr d \<and> d_house d = 0
     \<and> d_payouts d = [\<lparr>place = 1, lamports = 50000000\<rparr>]"
  by (rule lone_entrant_gets_everything)
    (simp_all add: published_rules_valid, simp_all add: published_defs base_ok_def)

text \<open>
  the band applied and the band advertised as next lie on either side of the pot: the
  pot has reached the first, has not reached the second, and no band of the season starts
  between them.
\<close>

theorem bands_bracket_the_pot:
  assumes "valid_ruleset r" "0 \<le> pot"
  shows "\<exists>b \<in> set (rs_bands r). bandFor r pot = Inr b \<and> minPotLamports b \<le> pot
    \<and> (case nextBand r pot of
         None \<Rightarrow> \<forall>b' \<in> set (rs_bands r). minPotLamports b' \<le> minPotLamports b
       | Some nb \<Rightarrow> nb \<in> set (rs_bands r) \<and> pot < minPotLamports nb
           \<and> (\<forall>b' \<in> set (rs_bands r). minPotLamports b' \<le> minPotLamports b \<or> minPotLamports nb \<le> minPotLamports b'))"
proof -
  have ok: "bands_ok (rs_bands r)" using assms by (simp add: valid_ruleset_def)
  obtain b where b: "b \<in> set (rs_bands r)" "bandFor r pot = Inr b" "minPotLamports b \<le> pot"
    "\<forall>b' \<in> set (rs_bands r). minPotLamports b' \<le> pot \<longrightarrow> minPotLamports b' \<le> minPotLamports b"
    using bandFor_valid [OF ok assms(2)] by blast
  have next_least: "minPotLamports nb \<le> minPotLamports b'"
    if "sorted_wrt (<) (map minPotLamports bs)" "List.find (\<lambda>band. minPotLamports band > pot) bs = Some nb"
      "b' \<in> set bs" "pot < minPotLamports b'" for bs nb b'
    using that by (induction bs) (auto split: if_splits)
  show ?thesis
  proof (cases "nextBand r pot")
    case None
    then have "\<forall>b' \<in> set (rs_bands r). minPotLamports b' \<le> pot"
      by (auto simp: nextBand_def find_None_iff not_less)
    with b None show ?thesis by (intro bexI [of _ b]) auto
  next
    case (Some nb)
    then have nb: "nb \<in> set (rs_bands r)" "pot < minPotLamports nb"
      by (auto simp: nextBand_def find_Some_iff)
    have "minPotLamports b' \<le> minPotLamports b \<or> minPotLamports nb \<le> minPotLamports b'"
      if "b' \<in> set (rs_bands r)" for b'
      using that b(4) next_least [of "rs_bands r" nb b'] ok Some
      by (cases "minPotLamports b' \<le> pot") (auto simp: nextBand_def bands_ok_def)
    with b nb Some show ?thesis by (intro bexI [of _ b]) auto
  qed
qed

theorem bands_bracket_the_pot_witness:
  "\<exists>b \<in> set PAYOUT_BANDS. bandFor (rulesetFor 1) 2000000000 = Inr b \<and> minPotLamports b \<le> 2000000000"
  using bands_bracket_the_pot [OF published_rules_valid, of 2000000000 1] by (auto simp: rulesetFor_def)

end
