(* ===== verification/Season.thy ===== *)
theory Season
  imports Ruleset Json
begin

text \<open>
  The life of a season (packages/seasons/src/lifecycle.ts), whether it may charge
  (charging.ts) and when it does not count (void.ts). Times and measurements are whole
  numbers.
\<close>

section \<open>Where a season is in its life\<close>

datatype season_status = Pending | Entry_open | Running | Closed | Finalized

record season_timing =
  startsAt :: int
  endsAt :: int
  entryClosesAt :: int
  finalizedAt :: "int option"

definition statusAt :: "season_timing \<Rightarrow> int \<Rightarrow> season_status" where
  "statusAt timing now =
     (if finalizedAt timing \<noteq> None then Finalized
      else if now < startsAt timing then Pending
      else if now \<ge> endsAt timing then Closed
      else if now < entryClosesAt timing then Entry_open else Running)"

definition entryOpen :: "season_timing \<Rightarrow> int \<Rightarrow> bool" where
  "entryOpen timing now \<longleftrightarrow> statusAt timing now = Entry_open"

definition tradingOpen :: "season_timing \<Rightarrow> int \<Rightarrow> bool" where
  "tradingOpen timing now \<longleftrightarrow> statusAt timing now = Entry_open \<or> statusAt timing now = Running"

record schedule =
  sch_startsAt :: int
  sch_endsAt :: int
  sch_entryClosesAt :: int

definition scheduleFrom :: "int \<Rightarrow> int \<Rightarrow> int \<Rightarrow> schedule" where
  "scheduleFrom start durationMs entryWindowMs =
     \<lparr>sch_startsAt = start, sch_endsAt = start + durationMs,
      sch_entryClosesAt = start + min entryWindowMs durationMs\<rparr>"

definition timeUntilEntryCloses :: "season_timing \<Rightarrow> int \<Rightarrow> int option" where
  "timeUntilEntryCloses timing now =
     (if \<not> entryOpen timing now then None else Some (entryClosesAt timing - now))"

section \<open>Charging for entry\<close>

definition PAYOUT_PATH_wired :: bool where "PAYOUT_PATH_wired = True"

datatype charge_refusal = Cannot_pay_out

definition chargeRefusal :: "int \<Rightarrow> charge_refusal option" where
  "chargeRefusal entryCost =
     (if entryCost \<le> 0 then None else if \<not> PAYOUT_PATH_wired then Some Cannot_pay_out else None)"

section \<open>When a season does not count\<close>

record void_measurements =
  feedOutageMinutes :: int
  chainHaltMinutes :: int
  uncommittedTrades :: int
  irreproducibleTrades :: int
  engineVersions :: "int list"
  declaredEngineVersion :: int

datatype void_condition =
  Feed_outage | Chain_halt | Uncommitted_trades | Irreproducible_trades | Engine_changed

record report_row =
  rr_condition :: void_condition
  rr_measured :: string
  rr_threshold :: string
  rr_breached :: bool

record void_verdict =
  isVoid :: bool
  conditions :: "void_condition list"
  report :: "report_row list"

text \<open>\<open>[...new Set(xs)]\<close>: the first occurrence of each element, in order.\<close>

definition distinct_of :: "'a list \<Rightarrow> 'a list" where
  "distinct_of xs = foldl (\<lambda>seen x. if x \<in> set seen then seen else seen @ [x]) [] xs"

fun join_with :: "string \<Rightarrow> string list \<Rightarrow> string" where
  "join_with sep [] = ''''"
| "join_with sep [x] = x"
| "join_with sep (x # xs) = x @ sep @ join_with sep xs"

definition minutes :: "int \<Rightarrow> string" where
  "minutes n = show_int n @ '' minutes''"

definition engine_changed :: "int list \<Rightarrow> int \<Rightarrow> bool" where
  "engine_changed versions declared \<longleftrightarrow>
     length versions > 1 \<or> (length versions = 1 \<and> versions ! 0 \<noteq> declared)"

definition assessVoid :: "void_measurements \<Rightarrow> void_policy \<Rightarrow> void_verdict" where
  "assessVoid m p =
     (let versions = distinct_of (engineVersions m);
          rows =
            [\<lparr>rr_condition = Feed_outage, rr_measured = minutes (feedOutageMinutes m),
              rr_threshold = minutes (maxFeedOutageMinutes p),
              rr_breached = feedOutageMinutes m > maxFeedOutageMinutes p\<rparr>,
             \<lparr>rr_condition = Chain_halt, rr_measured = minutes (chainHaltMinutes m),
              rr_threshold = minutes (maxChainHaltMinutes p),
              rr_breached = chainHaltMinutes m > maxChainHaltMinutes p\<rparr>,
             \<lparr>rr_condition = Uncommitted_trades, rr_measured = show_int (uncommittedTrades m),
              rr_threshold = show_int (maxUncommittedTrades p),
              rr_breached = uncommittedTrades m > maxUncommittedTrades p\<rparr>,
             \<lparr>rr_condition = Irreproducible_trades, rr_measured = show_int (irreproducibleTrades m),
              rr_threshold = show_int (maxIrreproducibleTrades p),
              rr_breached = irreproducibleTrades m > maxIrreproducibleTrades p\<rparr>,
             \<lparr>rr_condition = Engine_changed,
              rr_measured = (if length versions = 0 then ''none'' else join_with '', '' (map show_int versions)),
              rr_threshold = ''only '' @ show_int (declaredEngineVersion m),
              rr_breached = engine_changed versions (declaredEngineVersion m)\<rparr>];
          found = map rr_condition (filter rr_breached rows)
      in \<lparr>isVoid = length found > 0, conditions = found, report = rows\<rparr>)"

definition voidableNow :: "int option \<Rightarrow> bool" where
  "voidableNow finalized \<longleftrightarrow> finalized = None"

record refund =
  rf_trader :: string
  rf_lamports :: int

definition refunds :: "(string \<times> int) list \<Rightarrow> refund list res" where
  "refunds entries = traverse (\<lambda>(trader, paid).
     rbind (ensure (\<not> paid < 0) Void_error) (\<lambda>_. Inr \<lparr>rf_trader = trader, rf_lamports = paid\<rparr>)) entries"

section \<open>The order of a season's life\<close>

instantiation season_status :: linorder
begin

fun stage :: "season_status \<Rightarrow> nat" where
  "stage Pending = 0"
| "stage Entry_open = 1"
| "stage Running = 2"
| "stage Closed = 3"
| "stage Finalized = 4"

definition less_eq_season_status :: "season_status \<Rightarrow> season_status \<Rightarrow> bool" where
  "less_eq_season_status a b \<longleftrightarrow> stage a \<le> stage b"

definition less_season_status :: "season_status \<Rightarrow> season_status \<Rightarrow> bool" where
  "less_season_status a b \<longleftrightarrow> stage a < stage b"

instance
proof
  fix a b :: season_status
  show "a \<le> b \<Longrightarrow> b \<le> a \<Longrightarrow> a = b"
    by (cases a; cases b) (simp_all add: less_eq_season_status_def)
qed (auto simp: less_eq_season_status_def less_season_status_def)

end

text \<open>
  What can happen to a season: time passes, and its results are written on chain once it
  has closed.
\<close>

inductive season_step :: "season_timing \<times> int \<Rightarrow> season_timing \<times> int \<Rightarrow> bool" where
  tick: "now \<le> later \<Longrightarrow> season_step (t, now) (t, later)"
| finalize: "statusAt t now = Closed \<Longrightarrow> season_step (t, now) (t\<lparr>finalizedAt := Some now\<rparr>, now)"

inductive_cases season_stepE: "season_step (t, now) s"

abbreviation season_run :: "season_timing \<times> int \<Rightarrow> season_timing \<times> int \<Rightarrow> bool" where
  "season_run \<equiv> season_step\<^sup>*\<^sup>*"

definition status_of :: "season_timing \<times> int \<Rightarrow> season_status" where
  "status_of s = statusAt (fst s) (snd s)"

lemma statusAt_mono: "now \<le> later \<Longrightarrow> statusAt t now \<le> statusAt t later"
  by (auto simp: statusAt_def less_eq_season_status_def)

lemma step_forward: "season_step s s' \<Longrightarrow> status_of s \<le> status_of s'"
proof (induction rule: season_step.induct)
  case (tick now later t)
  then show ?case by (simp add: status_of_def statusAt_mono)
next
  case (finalize t now)
  then show ?case by (simp add: status_of_def statusAt_def less_eq_season_status_def)
qed

lemma step_keeps_times:
  "season_step s s' \<Longrightarrow> snd s \<le> snd s' \<and> startsAt (fst s') = startsAt (fst s) \<and> endsAt (fst s') = endsAt (fst s)"
  by (induction rule: season_step.induct) auto

lemma run_forward: "season_run s s' \<Longrightarrow> status_of s \<le> status_of s' \<and> snd s \<le> snd s'"
proof (induction rule: rtranclp_induct)
  case (step s' s'')
  then show ?case using step_forward [OF step(2)] step_keeps_times [OF step(2)] by (auto intro: order_trans)
qed simp

lemma finalized_iff: "status_of s = Finalized \<longleftrightarrow> finalizedAt (fst s) \<noteq> None"
  by (auto simp: status_of_def statusAt_def)

lemma finalized_step:
  "season_step s s' \<Longrightarrow> finalizedAt (fst s) \<noteq> None \<Longrightarrow> finalizedAt (fst s') = finalizedAt (fst s)"
  by (induction rule: season_step.induct) (auto simp: statusAt_def)

lemma finalized_run:
  "season_run s s' \<Longrightarrow> finalizedAt (fst s) \<noteq> None \<Longrightarrow> finalizedAt (fst s') = finalizedAt (fst s)"
proof (induction rule: rtranclp_induct)
  case (step s' s'')
  then show ?case using finalized_step [OF step(2)] by simp
qed simp

lemma distinct_of_aux:
  "distinct seen \<Longrightarrow>
     distinct (foldl (\<lambda>seen x. if x \<in> set seen then seen else seen @ [x]) seen xs)
     \<and> set (foldl (\<lambda>seen x. if x \<in> set seen then seen else seen @ [x]) seen xs) = set seen \<union> set xs"
  by (induction xs arbitrary: seen) auto

lemma distinct_of [simp]: "distinct (distinct_of xs)" "set (distinct_of xs) = set xs"
  using distinct_of_aux [of "[]" xs] by (simp_all add: distinct_of_def)

lemma engine_changed_iff:
  "engine_changed (distinct_of vs) d \<longleftrightarrow> (\<exists>v \<in> set vs. v \<noteq> d)"
proof -
  define ws where "ws = distinct_of vs"
  have ws: "distinct ws" "set ws = set vs" by (simp_all add: ws_def)
  consider "ws = []" | w where "ws = [w]" | a b rest where "ws = a # b # rest"
    by (metis list.exhaust)
  then have "engine_changed ws d \<longleftrightarrow> (\<exists>w \<in> set ws. w \<noteq> d)"
  proof cases
    case (3 a b rest)
    then have "a \<noteq> b" using ws(1) by simp
    then have "a \<noteq> d \<or> b \<noteq> d" by auto
    with 3 show ?thesis by (auto simp: engine_changed_def)
  qed (simp_all add: engine_changed_def)
  then show ?thesis by (simp add: ws(2) flip: ws_def)
qed

section \<open>Properties\<close>

text \<open>
  a season only moves forward. Whatever happens, time passing or its results being
  written, its status never returns to an earlier stage of pending, open for entry, running,
  closed and finalized; and a finalized season stays finalized at the same moment, so it can
  never be voided again.
\<close>

theorem season_only_moves_forward:
  assumes "season_run s s'"
  shows "status_of s \<le> status_of s'
    \<and> (\<not> voidableNow (finalizedAt (fst s)) \<longrightarrow>
        \<not> voidableNow (finalizedAt (fst s')) \<and> finalizedAt (fst s') = finalizedAt (fst s) \<and> status_of s' = Finalized)"
  using run_forward [OF assms] finalized_run [OF assms] by (simp add: voidableNow_def finalized_iff)

definition sample_timing :: season_timing where
  "sample_timing = \<lparr>startsAt = 1000, endsAt = 5000, entryClosesAt = 3000, finalizedAt = None\<rparr>"

theorem season_only_moves_forward_witness:
  "status_of (sample_timing, 2000) = Entry_open \<and> status_of (sample_timing, 6000) = Closed
   \<and> season_run (sample_timing, 2000) (sample_timing\<lparr>finalizedAt := Some 6000\<rparr>, 6000)
   \<and> status_of (sample_timing, 2000) \<le> status_of (sample_timing\<lparr>finalizedAt := Some 6000\<rparr>, 6000)"
proof -
  have st: "status_of (sample_timing, 2000) = Entry_open" "status_of (sample_timing, 6000) = Closed"
    by (simp_all add: status_of_def statusAt_def sample_timing_def)
  have "season_step (sample_timing, 2000) (sample_timing, 6000)" by (rule tick) simp
  moreover have "season_step (sample_timing, 6000) (sample_timing\<lparr>finalizedAt := Some 6000\<rparr>, 6000)"
    using st(2) by (intro finalize) (simp add: status_of_def)
  ultimately have "season_run (sample_timing, 2000) (sample_timing\<lparr>finalizedAt := Some 6000\<rparr>, 6000)" by auto
  with season_only_moves_forward [OF this] st show ?thesis by simp
qed

text \<open>
  a season always ends. From every moment of every season, whatever has happened so far,
  the season is closed or finalized from its end on, and its results can still be written.
\<close>

theorem season_always_ends:
  assumes "season_run (t, now) s"
  shows "\<exists>s'. season_run s s' \<and> status_of s' = Finalized"
proof (cases "finalizedAt (fst s) = None")
  case False
  then show ?thesis using finalized_iff by blast
next
  case True
  obtain u clock where s: "s = (u, clock)" by (cases s)
  define late where "late = max clock (max (startsAt u) (endsAt u))"
  have t1: "season_step s (u, late)" unfolding s by (rule tick) (simp add: late_def)
  have "statusAt u late = Closed" using True by (simp add: statusAt_def late_def s)
  then have t2: "season_step (u, late) (u\<lparr>finalizedAt := Some late\<rparr>, late)" by (rule finalize)
  have "season_run s (u\<lparr>finalizedAt := Some late\<rparr>, late)"
    using t1 t2 by (meson r_into_rtranclp rtranclp.rtrancl_into_rtrancl)
  moreover have "status_of (u\<lparr>finalizedAt := Some late\<rparr>, late) = Finalized"
    by (simp add: status_of_def statusAt_def)
  ultimately show ?thesis by blast
qed

theorem season_always_ends_witness:
  "\<exists>s'. season_run (sample_timing, 2000) s' \<and> status_of s' = Finalized"
  by (rule season_always_ends [OF rtranclp.rtrancl_refl])

text \<open>
  the windows a schedule opens: trading is open from the start until the end, entry from
  the start until the entry window or the season is over, whichever comes first, and the time
  left to enter is told exactly while entry is open.
\<close>

theorem schedule_opens_its_windows:
  "let s = scheduleFrom start dur win;
       t = \<lparr>startsAt = sch_startsAt s, endsAt = sch_endsAt s, entryClosesAt = sch_entryClosesAt s, finalizedAt = None\<rparr>
   in (tradingOpen t now \<longleftrightarrow> start \<le> now \<and> now < start + dur)
    \<and> (entryOpen t now \<longleftrightarrow> start \<le> now \<and> now < start + min win dur)
    \<and> timeUntilEntryCloses t now
        = (if start \<le> now \<and> now < start + min win dur then Some (start + min win dur - now) else None)"
  by (auto simp: scheduleFrom_def tradingOpen_def entryOpen_def timeUntilEntryCloses_def statusAt_def Let_def)

text \<open>
  a season is void exactly when a measurement passes its threshold or one of its trades
  was made with another engine than the one declared, and the verdict names exactly the
  conditions that were breached.
\<close>

theorem void_exactly_when_breached:
  "isVoid (assessVoid m p) = (conditions (assessVoid m p) \<noteq> [])
   \<and> (isVoid (assessVoid m p) \<longleftrightarrow>
        feedOutageMinutes m > maxFeedOutageMinutes p \<or> chainHaltMinutes m > maxChainHaltMinutes p
      \<or> uncommittedTrades m > maxUncommittedTrades p \<or> irreproducibleTrades m > maxIrreproducibleTrades p
      \<or> (\<exists>v \<in> set (engineVersions m). v \<noteq> declaredEngineVersion m))
   \<and> (Engine_changed \<in> set (conditions (assessVoid m p)) \<longleftrightarrow> (\<exists>v \<in> set (engineVersions m). v \<noteq> declaredEngineVersion m))
   \<and> conditions (assessVoid m p) = map rr_condition (filter rr_breached (report (assessVoid m p)))"
proof -
  define changed where "changed = engine_changed (distinct_of (engineVersions m)) (declaredEngineVersion m)"
  have e: "changed \<longleftrightarrow> (\<exists>v \<in> set (engineVersions m). v \<noteq> declaredEngineVersion m)"
    by (simp add: changed_def engine_changed_iff)
  have c: "conditions (assessVoid m p) =
      (if feedOutageMinutes m > maxFeedOutageMinutes p then [Feed_outage] else [])
      @ (if chainHaltMinutes m > maxChainHaltMinutes p then [Chain_halt] else [])
      @ (if uncommittedTrades m > maxUncommittedTrades p then [Uncommitted_trades] else [])
      @ (if irreproducibleTrades m > maxIrreproducibleTrades p then [Irreproducible_trades] else [])
      @ (if changed then [Engine_changed] else [])"
    by (simp add: assessVoid_def Let_def flip: changed_def)
  have v: "isVoid (assessVoid m p) = (conditions (assessVoid m p) \<noteq> [])"
    "conditions (assessVoid m p) = map rr_condition (filter rr_breached (report (assessVoid m p)))"
    by (simp_all add: assessVoid_def Let_def)
  have "conditions (assessVoid m p) \<noteq> [] \<longleftrightarrow>
        feedOutageMinutes m > maxFeedOutageMinutes p \<or> chainHaltMinutes m > maxChainHaltMinutes p
      \<or> uncommittedTrades m > maxUncommittedTrades p \<or> irreproducibleTrades m > maxIrreproducibleTrades p \<or> changed"
    "Engine_changed \<in> set (conditions (assessVoid m p)) \<longleftrightarrow> changed"
    unfolding c by simp_all
  with v e show ?thesis by simp
qed

text \<open>
  unwinding a season returns to everybody exactly what they paid, in order and in full;
  a negative payment is refused.
\<close>

theorem refunds_return_what_was_paid:
  "refunds entries = (if list_all (\<lambda>e. 0 \<le> snd e) entries
     then Inr (map (\<lambda>e. \<lparr>rf_trader = fst e, rf_lamports = snd e\<rparr>) entries) else Inl Void_error)"
proof (induction entries)
  case (Cons e es)
  then show ?case by (cases e) (auto simp: refunds_def ensure_def)
qed (simp add: refunds_def)

end
