(* ===== verification/Rollover.thy ===== *)
theory Rollover
  imports Season
begin

text \<open>
  Opening the next season by itself (app/lib/season-rollover.ts), and the season rows it
  reads and writes (packages/db/src/seasons.ts). The clock of the zone, a time zone
  formatter of the platform, is the argument \<open>zone\<close>: what an instant in milliseconds
  reads as there.
\<close>

section \<open>The weekly schedule\<close>

record moment =
  weekday :: string
  hour :: int
  minute :: int

definition OPENS :: moment where "OPENS = \<lparr>weekday = ''Fri'', hour = 20, minute = 0\<rparr>"
definition ENTRIES_CLOSE :: moment where "ENTRIES_CLOSE = \<lparr>weekday = ''Mon'', hour = 0, minute = 0\<rparr>"
definition ENDS :: moment where "ENDS = \<lparr>weekday = ''Fri'', hour = 10, minute = 0\<rparr>"

definition STEP_MS :: int where "STEP_MS = 15 * 60 * 1000"
definition FORTNIGHT_MS :: int where "FORTNIGHT_MS = 14 * 24 * 60 * 60 * 1000"

definition inZone :: "(int \<Rightarrow> moment) \<Rightarrow> int \<Rightarrow> moment" where
  "inZone zone t = (zone t)\<lparr>hour := hour (zone t) mod 24\<rparr>"

definition reads_as :: "(int \<Rightarrow> moment) \<Rightarrow> moment \<Rightarrow> int \<Rightarrow> bool" where
  "reads_as zone m t = (let here = inZone zone t
     in weekday here = weekday m \<and> hour here = hour m \<and> minute here = minute m)"

text \<open>The loop of \<open>next\<close>: \<open>for (at = start; at <= last; at += STEP_MS)\<close>.\<close>

function walk_to :: "(int \<Rightarrow> moment) \<Rightarrow> moment \<Rightarrow> int \<Rightarrow> int \<Rightarrow> int res" where
  "walk_to zone m last_at t =
     (if t \<le> last_at then if reads_as zone m t then Inr t else walk_to zone m last_at (t + STEP_MS)
      else Inl Plain_error)"
  by pat_completeness auto
termination
  by (relation "measure (\<lambda>(zone, m, last_at, t). nat (last_at + 1 - t))") (auto simp: STEP_MS_def)

declare walk_to.simps [simp del]

definition next_moment :: "(int \<Rightarrow> moment) \<Rightarrow> int \<Rightarrow> moment \<Rightarrow> int res" where
  "next_moment zone from m = walk_to zone m (from + FORTNIGHT_MS) (\<lceil>rat_of_int from / rat_of_int STEP_MS\<rceil> * STEP_MS)"

definition nextSchedule :: "(int \<Rightarrow> moment) \<Rightarrow> int \<Rightarrow> schedule res" where
  "nextSchedule zone endedAt =
     rbind (next_moment zone endedAt OPENS) (\<lambda>opens.
     rbind (next_moment zone opens ENTRIES_CLOSE) (\<lambda>closes.
     rbind (next_moment zone closes ENDS) (\<lambda>ends.
     Inr \<lparr>sch_startsAt = opens, sch_endsAt = ends, sch_entryClosesAt = closes\<rparr>)))"

section \<open>The rows of the seasons table\<close>

record season_row =
  row_id :: int
  row_ordinal :: int
  row_name :: string
  row_ranked :: bool
  row_status :: string
  row_startsAt :: "int option"
  row_endsAt :: "int option"
  row_entryOpensAt :: "int option"
  row_entryClosesAt :: "int option"
  row_startingBalance :: string
  row_entryCost :: string
  row_rulesetHash :: string

text \<open>
  What a season is created from. The columns a row is read without (the house cut, the
  simulation conditions, the sponsored prize) are inputs only.
\<close>

record create_season_input =
  cs_ordinal :: int
  cs_name :: string
  cs_startsAt :: int
  cs_endsAt :: int
  cs_entryClosesAt :: int
  cs_startingBalance :: string
  cs_entryCost :: string
  cs_houseBps :: int
  cs_houseThreshold :: string
  cs_latencyMs :: int
  cs_maxPriceImpactBps :: int
  cs_engineVersion :: int
  cs_rulesetHash :: string

text \<open>\<open>ORDER BY key DESC LIMIT 1\<close>.\<close>

fun top_by :: "('a \<Rightarrow> int) \<Rightarrow> 'a list \<Rightarrow> 'a option" where
  "top_by key [] = None"
| "top_by key (x # xs) = (case top_by key xs of
       None \<Rightarrow> Some x
     | Some y \<Rightarrow> if key y > key x then Some y else Some x)"

text \<open>A comparison with \<open>NULL\<close> never holds.\<close>

definition sql_holds :: "('a \<Rightarrow> bool) \<Rightarrow> 'a option \<Rightarrow> bool" where
  "sql_holds P v = (case v of None \<Rightarrow> False | Some x \<Rightarrow> P x)"

definition orElse :: "'a option \<Rightarrow> 'a option \<Rightarrow> 'a option" where
  "orElse a b = (case a of None \<Rightarrow> b | Some x \<Rightarrow> Some x)"

definition currentRankedSeason :: "season_row list \<Rightarrow> int \<Rightarrow> season_row option" where
  "currentRankedSeason rows now =
     (let running = top_by row_ordinal (filter (\<lambda>r. row_ranked r \<and> sql_holds (\<lambda>t. t \<le> now) (row_startsAt r)
              \<and> sql_holds (\<lambda>t. t > now) (row_endsAt r)) rows);
          upcoming = top_by (\<lambda>r. - the (row_startsAt r)) (filter (\<lambda>r. row_ranked r
              \<and> sql_holds (\<lambda>t. t > now) (row_startsAt r)) rows);
          latest = top_by row_ordinal (filter row_ranked rows)
      in orElse running (orElse upcoming latest))"

definition highestRankedOrdinal :: "season_row list \<Rightarrow> int" where
  "highestRankedOrdinal rows = (case top_by row_ordinal (filter row_ranked rows) of
       None \<Rightarrow> 0 | Some r \<Rightarrow> row_ordinal r)"

definition seasonByOrdinal :: "season_row list \<Rightarrow> int \<Rightarrow> season_row option" where
  "seasonByOrdinal rows n = List.find (\<lambda>r. row_ordinal r = n) rows"

text \<open>The row is added with the next free id.\<close>

definition createRankedSeason :: "season_row list \<Rightarrow> create_season_input \<Rightarrow> season_row list" where
  "createRankedSeason rows c =
     rows @ [\<lparr>row_id = foldl max 0 (map row_id rows) + 1, row_ordinal = cs_ordinal c, row_name = cs_name c,
       row_ranked = True, row_status = ''pending'',
       row_startsAt = Some (cs_startsAt c), row_endsAt = Some (cs_endsAt c),
       row_entryOpensAt = Some (cs_startsAt c), row_entryClosesAt = Some (cs_entryClosesAt c),
       row_startingBalance = cs_startingBalance c, row_entryCost = cs_entryCost c,
       row_rulesetHash = cs_rulesetHash c\<rparr>]"

definition next_season_input :: "int \<Rightarrow> schedule \<Rightarrow> string \<Rightarrow> create_season_input" where
  "next_season_input following s hash = (let rules = rulesetFor following in
     \<lparr>cs_ordinal = following, cs_name = ''Season '' @ show_int following,
      cs_startsAt = sch_startsAt s, cs_endsAt = sch_endsAt s, cs_entryClosesAt = sch_entryClosesAt s,
      cs_startingBalance = show_int (rs_startingBalance rules), cs_entryCost = show_int (rs_entryCost rules),
      cs_houseBps = rs_houseBps rules, cs_houseThreshold = show_int (rs_houseThreshold rules),
      cs_latencyMs = rs_latencyMs rules, cs_maxPriceImpactBps = rs_maxPriceImpactBps rules,
      cs_engineVersion = rs_engineVersion rules, cs_rulesetHash = hash\<rparr>)"

definition rollOnce :: "(byte list \<Rightarrow> byte list) \<Rightarrow> (int \<Rightarrow> moment) \<Rightarrow> season_row list \<Rightarrow> int \<Rightarrow> season_row list res" where
  "rollOnce H zone rows now =
     (let ordinal = highestRankedOrdinal rows in
      if ordinal < 1 then Inr rows
      else case seasonByOrdinal rows ordinal of
        None \<Rightarrow> Inr rows
      | Some latest \<Rightarrow> (case row_endsAt latest of
          None \<Rightarrow> Inr rows
        | Some ended \<Rightarrow>
            if ended = 0 then Inr rows
            else if now < ended then Inr rows
            else
              rbind (nextSchedule zone ended) (\<lambda>s.
              rbind (rulesetHashHex H (rulesetFor (ordinal + 1))) (\<lambda>hash.
              Inr (createRankedSeason rows (next_season_input (ordinal + 1) s hash))))))"

text \<open>Whether entry is open, read from the rows; whether trading is, and why not.\<close>

definition openRankedSeason :: "season_row list \<Rightarrow> int \<Rightarrow> season_row option" where
  "openRankedSeason rows now = top_by row_ordinal (filter (\<lambda>r. row_ranked r \<and> row_status r \<noteq> ''finalized''
     \<and> sql_holds (\<lambda>t. t \<le> now) (row_startsAt r) \<and> sql_holds (\<lambda>t. t > now) (row_entryClosesAt r)
     \<and> (row_endsAt r = None \<or> sql_holds (\<lambda>t. t > now) (row_endsAt r))) rows)"

definition seasonTradingOpen :: "season_row \<Rightarrow> int \<Rightarrow> bool" where
  "seasonTradingOpen r now = (case (row_startsAt r, row_endsAt r) of
       (Some starts, Some ends) \<Rightarrow>
         tradingOpen \<lparr>startsAt = starts, endsAt = ends,
           entryClosesAt = (case row_entryClosesAt r of None \<Rightarrow> ends | Some c \<Rightarrow> c),
           finalizedAt = (if row_status r = ''finalized'' then Some ends else None)\<rparr> now
     | _ \<Rightarrow> False)"

definition whyNotOpen :: "season_row option \<Rightarrow> int \<Rightarrow> string" where
  "whyNotOpen season now = (case season of
       None \<Rightarrow> ''there is no season to trade in''
     | Some r \<Rightarrow>
         if sql_holds (\<lambda>t. now < t) (row_startsAt r) then ''the season has not started yet''
         else if sql_holds (\<lambda>t. now \<ge> t) (row_endsAt r) then ''the season has finished''
         else if row_status r = ''finalized'' then ''the season has been finalized''
         else ''the season is not open for trading'')"

section \<open>Walking a season through its life on chain\<close>

text \<open>packages/vault/src/index.ts and the tick of app/lib/season-lifecycle.ts.\<close>

datatype season_transition = Init | Open_entries | Start_trading | Finalize | No_transition

definition nextSeasonTransition :: "bool \<Rightarrow> season_row \<Rightarrow> int \<Rightarrow> season_transition" where
  "nextSeasonTransition onChain r now =
     (if \<not> onChain then Init
      else let ended = sql_holds (\<lambda>t. now \<ge> t) (row_endsAt r) in
        if row_status r = ''pending'' then
          (if sql_holds (\<lambda>t. now \<ge> t) (row_entryOpensAt r) then Open_entries else No_transition)
        else if row_status r = ''entry_open'' then
          (if sql_holds (\<lambda>t. now \<ge> t) (row_entryClosesAt r) then Start_trading else No_transition)
        else if row_status r = ''running'' \<or> row_status r = ''closed'' then
          (if ended then Finalize else No_transition)
        else No_transition)"

text \<open>
  One tick on the season's own row: \<open>accepted\<close> says whether the program accepted the
  transaction. A refused one leaves the database as it was.
\<close>

definition lifecycle_tick :: "(season_transition \<Rightarrow> bool) \<Rightarrow> int \<Rightarrow> bool \<times> season_row \<Rightarrow> bool \<times> season_row" where
  "lifecycle_tick accepted now s = (case s of (onChain, r) \<Rightarrow>
     if row_ordinal r < 0 \<or> \<not> row_ranked r then s
     else let t = nextSeasonTransition onChain r now in
       if \<not> accepted t then s
       else (case t of
           No_transition \<Rightarrow> s
         | Init \<Rightarrow> (True, r)
         | Open_entries \<Rightarrow> (onChain, r\<lparr>row_status := ''entry_open''\<rparr>)
         | Start_trading \<Rightarrow> (onChain, r\<lparr>row_status := ''running''\<rparr>)
         | Finalize \<Rightarrow> (onChain, r\<lparr>row_status := ''finalized''\<rparr>)))"

section \<open>Walking to a moment\<close>

lemma walk_to_spec:
  "walk_to zone m last_at t = Inr u \<Longrightarrow> t \<le> u \<and> u \<le> last_at \<and> reads_as zone m u \<and> STEP_MS dvd (u - t)
     \<and> (\<forall>v. t \<le> v \<and> v < u \<and> STEP_MS dvd (v - t) \<longrightarrow> \<not> reads_as zone m v)"
proof (induction zone m last_at t rule: walk_to.induct)
  case (1 zone m last_at t)
  show ?case
  proof (cases "t \<le> last_at \<and> \<not> reads_as zone m t")
    case False
    with "1.prems" have u: "u = t" "t \<le> last_at" "reads_as zone m t" by (auto simp: walk_to.simps split: if_splits)
    then show ?thesis by auto
  next
    case True
    with "1.prems" have w: "walk_to zone m last_at (t + STEP_MS) = Inr u" by (simp add: walk_to.simps)
    from "1.IH" [OF _ _ w] True have ih: "t + STEP_MS \<le> u" "u \<le> last_at" "reads_as zone m u"
      "STEP_MS dvd (u - (t + STEP_MS))"
      "\<And>v. t + STEP_MS \<le> v \<Longrightarrow> v < u \<Longrightarrow> STEP_MS dvd (v - (t + STEP_MS)) \<Longrightarrow> \<not> reads_as zone m v"
      by auto
    have d: "STEP_MS dvd (v - (t + STEP_MS)) \<longleftrightarrow> STEP_MS dvd (v - t)" for v
      using dvd_add_left_iff [of STEP_MS STEP_MS "v - (t + STEP_MS)"] by (simp add: algebra_simps)
    have skip: "v = t \<or> t + STEP_MS \<le> v" if "t \<le> v" "STEP_MS dvd (v - t)" for v
      using that zdvd_imp_le [of STEP_MS "v - t"] by (cases "v = t") auto
    have pos: "0 < STEP_MS" by (simp add: STEP_MS_def)
    have none: "\<not> reads_as zone m v" if "t \<le> v" "v < u" "STEP_MS dvd (v - t)" for v
      using skip [OF that(1,3)] True ih(5) [of v] d [of v] that by auto
    have "STEP_MS dvd (u - t)" using ih(4) d by simp
    with ih(1-3) pos none show ?thesis by simp
  qed
qed

lemma walk_to_finds:
  "reads_as zone m v \<Longrightarrow> t \<le> v \<Longrightarrow> v \<le> last_at \<Longrightarrow> STEP_MS dvd (v - t) \<Longrightarrow>
     \<exists>u. walk_to zone m last_at t = Inr u"
proof (induction zone m last_at t rule: walk_to.induct)
  case (1 zone m last_at t)
  show ?case
  proof (cases "reads_as zone m t")
    case True
    with 1 show ?thesis by (simp add: walk_to.simps)
  next
    case False
    with "1.prems" have ne: "v \<noteq> t" by auto
    with "1.prems" have "STEP_MS \<le> v - t" by (intro zdvd_imp_le) auto
    moreover have "STEP_MS dvd (v - (t + STEP_MS))"
      using dvd_diff [OF "1.prems"(4) dvd_refl] by (simp add: algebra_simps)
    ultimately have "\<exists>u. walk_to zone m last_at (t + STEP_MS) = Inr u"
      using "1.prems" False by (intro "1.IH") auto
    with False "1.prems" show ?thesis by (subst walk_to.simps) auto
  qed
qed

lemma next_moment_spec:
  "next_moment zone from m = Inr u \<Longrightarrow> from \<le> u \<and> u \<le> from + FORTNIGHT_MS \<and> reads_as zone m u"
proof -
  assume n: "next_moment zone from m = Inr u"
  define k where "k = \<lceil>rat_of_int from / rat_of_int STEP_MS\<rceil>"
  have "rat_of_int from / rat_of_int STEP_MS \<le> rat_of_int k" unfolding k_def by (rule le_of_int_ceiling)
  then have "rat_of_int from \<le> rat_of_int (k * STEP_MS)" by (simp add: STEP_MS_def field_simps)
  then have "from \<le> k * STEP_MS" by (simp only: of_int_le_iff)
  with walk_to_spec n show ?thesis by (fastforce simp: next_moment_def k_def)
qed

lemma top_by_None [simp]: "top_by key xs = None \<longleftrightarrow> xs = []"
  by (cases xs) (auto split: option.splits)

lemma top_by_in: "top_by key xs = Some x \<Longrightarrow> x \<in> set xs \<and> (\<forall>y \<in> set xs. key y \<le> key x)"
  by (induction xs arbitrary: x) (auto split: option.splits if_splits)

section \<open>Properties\<close>

text \<open>
  whatever the zone does, a schedule that is found starts no earlier than the last season
  ended, closes entry while the season runs, ends after that, and falls on the announced
  moments.
\<close>

theorem next_schedule_is_ordered:
  assumes "nextSchedule zone ended = Inr s"
  shows "ended \<le> sch_startsAt s \<and> sch_startsAt s < sch_entryClosesAt s \<and> sch_entryClosesAt s < sch_endsAt s
    \<and> reads_as zone OPENS (sch_startsAt s) \<and> reads_as zone ENTRIES_CLOSE (sch_entryClosesAt s)
    \<and> reads_as zone ENDS (sch_endsAt s)"
proof -
  have r: "ended \<le> sch_startsAt s" "sch_startsAt s \<le> sch_entryClosesAt s" "sch_entryClosesAt s \<le> sch_endsAt s"
    "reads_as zone OPENS (sch_startsAt s)" "reads_as zone ENTRIES_CLOSE (sch_entryClosesAt s)"
    "reads_as zone ENDS (sch_endsAt s)"
    using assms next_moment_spec by (auto simp: nextSchedule_def)
  have "sch_startsAt s \<noteq> sch_entryClosesAt s"
  proof
    assume "sch_startsAt s = sch_entryClosesAt s"
    with r(4,5) show False by (simp add: reads_as_def Let_def OPENS_def ENTRIES_CLOSE_def)
  qed
  moreover have "sch_entryClosesAt s \<noteq> sch_endsAt s"
  proof
    assume "sch_entryClosesAt s = sch_endsAt s"
    with r(5,6) show False by (simp add: reads_as_def Let_def ENDS_def ENTRIES_CLOSE_def)
  qed
  ultimately show ?thesis using r by simp
qed

text \<open>A clock one hour ahead of UTC, as the zone keeps in winter.\<close>

definition day_name :: "int \<Rightarrow> string" where
  "day_name day = (if day = 0 then ''Thu'' else if day = 1 then ''Fri'' else if day = 2 then ''Sat''
     else if day = 3 then ''Sun'' else if day = 4 then ''Mon'' else if day = 5 then ''Tue'' else ''Wed'')"

definition winter_clock :: "int \<Rightarrow> moment" where
  "winter_clock t = (let l = t + 3600000 in
     \<lparr>weekday = day_name ((l div 86400000) mod 7), hour = (l div 3600000) mod 24, minute = (l div 60000) mod 60\<rparr>)"

lemma day_name_inj:
  assumes "day_name d = day_name e" "0 \<le> d" "d < 7" "0 \<le> e" "e < 7"
  shows "d = e"
proof -
  have "d = 0 \<or> d = 1 \<or> d = 2 \<or> d = 3 \<or> d = 4 \<or> d = 5 \<or> d = 6" using assms by presburger
  moreover have "e = 0 \<or> e = 1 \<or> e = 2 \<or> e = 3 \<or> e = 4 \<or> e = 5 \<or> e = 6" using assms by presburger
  ultimately show ?thesis using assms(1) by (elim disjE) (simp_all add: day_name_def)
qed

text \<open>Friday 9 January 2026 at ten in the morning there, and the schedule that follows it.\<close>

definition sample_end :: int where "sample_end = 1767949200000"

definition sample_schedule :: schedule where
  "sample_schedule = \<lparr>sch_startsAt = 1767985200000, sch_endsAt = 1768554000000, sch_entryClosesAt = 1768172400000\<rparr>"

definition week_minute :: "int \<Rightarrow> int" where
  "week_minute t = ((t + 3600000) div 60000) mod 10080"

lemma week_minute_parts:
  "week_minute t = 1440 * (((t + 3600000) div 86400000) mod 7) + 60 * (((t + 3600000) div 3600000) mod 24)
     + ((t + 3600000) div 60000) mod 60"
proof -
  define n where "n = (t + 3600000) div 60000"
  have q: "(t + 3600000) div 86400000 = n div 1440" "(t + 3600000) div 3600000 = n div 60"
    using zdiv_zmult2_eq [of 1440 "t + 3600000" 60000] zdiv_zmult2_eq [of 60 "t + 3600000" 60000]
    by (simp_all add: n_def)
  have "n mod 10080 = 1440 * (n div 1440 mod 7) + n mod 1440" "n mod 1440 = 60 * (n div 60 mod 24) + n mod 60"
    using zmod_zmult2_eq [of 7 n 1440] zmod_zmult2_eq [of 24 n 60] by simp_all
  then show ?thesis by (simp add: week_minute_def q flip: n_def)
qed

lemma winter_clock_once_a_week:
  assumes "reads_as winter_clock m t" "reads_as winter_clock m u"
  shows "week_minute t = week_minute u"
proof -
  define day where "day v = ((v + 3600000) div 86400000) mod 7" for v :: int
  have "day_name (day t) = day_name (day u)"
    and h: "((t + 3600000) div 3600000) mod 24 = ((u + 3600000) div 3600000) mod 24"
      "((t + 3600000) div 60000) mod 60 = ((u + 3600000) div 60000) mod 60"
    using assms by (simp_all add: reads_as_def inZone_def winter_clock_def Let_def day_def)
  moreover have "0 \<le> day v" "day v < 7" for v by (simp_all add: day_def)
  ultimately have "day t = day u" by (intro day_name_inj)
  then show ?thesis unfolding week_minute_parts by (simp only: h day_def)
qed

lemma winter_walk:
  assumes r: "reads_as winter_clock m u" and u: "t \<le> u" "u \<le> last_at" "STEP_MS dvd (u - t)"
    and week: "u - t < 604800000 - 60000"
  shows "walk_to winter_clock m last_at t = Inr u"
proof -
  obtain v where v: "walk_to winter_clock m last_at t = Inr v" using walk_to_finds [OF r u] by blast
  from walk_to_spec [OF this] have s: "t \<le> v" "reads_as winter_clock m v" "STEP_MS dvd (v - t)"
    and least: "\<not> (t \<le> u \<and> u < v \<and> STEP_MS dvd (u - t))" using r by auto
  then have le: "v \<le> u" using u by auto
  define p where "p = (u + 3600000) div 60000"
  define q where "q = (v + 3600000) div 60000"
  have "q mod 10080 = p mod 10080"
    using winter_clock_once_a_week [OF s(2) r] by (simp add: week_minute_def p_def q_def)
  moreover have "q \<le> p" using le by (simp add: p_def q_def zdiv_mono1)
  moreover have "p - q < 10080" using week s(1) by (simp add: p_def q_def)
  ultimately have "p = q" using zdvd_imp_le [of 10080 "p - q"] by (auto simp: mod_eq_dvd_iff dvd_diff_commute)
  then have "u - v < 60000" by (simp add: p_def q_def)
  moreover have "STEP_MS dvd (u - v)" using u(3) s(3) by (metis dvd_diff diff_diff_eq2 diff_add_cancel)
  ultimately have "u = v" using le zdvd_imp_le [of STEP_MS "u - v"] by (force simp: STEP_MS_def)
  then show ?thesis using v by simp
qed

lemma sample_moments:
  "reads_as winter_clock OPENS 1767985200000" "reads_as winter_clock ENTRIES_CLOSE 1768172400000"
  "reads_as winter_clock ENDS 1768554000000"
  by (simp_all add: reads_as_def inZone_def winter_clock_def day_name_def Let_def OPENS_def ENTRIES_CLOSE_def ENDS_def)

lemma sample_schedule_found: "nextSchedule winter_clock sample_end = Inr sample_schedule"
proof -
  have "next_moment winter_clock sample_end OPENS = Inr 1767985200000"
    "next_moment winter_clock 1767985200000 ENTRIES_CLOSE = Inr 1768172400000"
    "next_moment winter_clock 1768172400000 ENDS = Inr 1768554000000"
    unfolding next_moment_def
    by (rule winter_walk, rule sample_moments,
        simp_all add: STEP_MS_def FORTNIGHT_MS_def sample_end_def)+
  then show ?thesis by (simp add: nextSchedule_def sample_schedule_def)
qed

theorem next_schedule_is_ordered_witness:
  "sample_end \<le> sch_startsAt sample_schedule \<and> sch_startsAt sample_schedule < sch_entryClosesAt sample_schedule"
  using next_schedule_is_ordered [OF sample_schedule_found] by blast

text \<open>
  the season that rolls over is not the one its rules describe. The hash published with
  season 2 pins a duration of fourteen days and an entry window of forty-eight hours; the
  season that is created with it, on a winter Friday, lasts six days and fourteen hours and
  takes entries for fifty-two hours, and there are ten hours between it and the season before.
\<close>

theorem rolled_season_departs_from_its_rules:
  "\<exists>s. nextSchedule winter_clock sample_end = Inr s
    \<and> rs_durationMs (rulesetFor 2) = 14 * 24 * 3600000 \<and> sch_endsAt s - sch_startsAt s = (6 * 24 + 14) * 3600000
    \<and> rs_entryWindowMs (rulesetFor 2) = 48 * 3600000 \<and> sch_entryClosesAt s - sch_startsAt s = 52 * 3600000
    \<and> sch_startsAt s - sample_end = 10 * 3600000"
  by (rule exI [of _ sample_schedule])
    (simp add: sample_schedule_found, simp add: sample_schedule_def sample_end_def published_defs)

lemma successor_hides:
  assumes e: "row_endsAt r = Some e" "e \<le> now" and st: "row_startsAt r = Some st" "st \<le> e"
    and succ: "r' \<in> set rows" "row_ranked r'" "row_ordinal r < row_ordinal r'"
  shows "currentRankedSeason rows now \<noteq> Some r"
proof
  assume cur: "currentRankedSeason rows now = Some r"
  consider "top_by row_ordinal (filter (\<lambda>r. row_ranked r \<and> sql_holds (\<lambda>t. t \<le> now) (row_startsAt r)
              \<and> sql_holds (\<lambda>t. t > now) (row_endsAt r)) rows) = Some r"
    | "top_by (\<lambda>r. - the (row_startsAt r)) (filter (\<lambda>r. row_ranked r
              \<and> sql_holds (\<lambda>t. t > now) (row_startsAt r)) rows) = Some r"
    | "top_by row_ordinal (filter row_ranked rows) = Some r"
    using cur by (auto simp: currentRankedSeason_def Let_def orElse_def split: option.splits)
  then show False
  proof cases
    case 1
    then show False using top_by_in [OF 1] e by (auto simp: sql_holds_def)
  next
    case 2
    then show False using top_by_in [OF 2] e st by (auto simp: sql_holds_def)
  next
    case 3
    have "row_ordinal r' \<le> row_ordinal r" using top_by_in [OF 3] succ by auto
    then show False using succ by simp
  qed
qed


definition first_season :: season_row where
  "first_season = \<lparr>row_id = 1, row_ordinal = 1, row_name = ''Season 1'', row_ranked = True, row_status = ''running'',
     row_startsAt = Some 1767380400000, row_endsAt = Some sample_end, row_entryOpensAt = Some 1767380400000,
     row_entryClosesAt = Some 1767567600000, row_startingBalance = ''10000000000'', row_entryCost = ''50000000'',
     row_rulesetHash = ''''\<rparr>"

text \<open>Five minutes after the end, with no payout yet, the next season is created.\<close>

lemma toHex_0: "toHex [0] = ''00''"
  by code_simp

lemma sample_roll:
  "rollOnce (\<lambda>bs. [0]) winter_clock [first_season] (sample_end + 300000)
     = Inr (createRankedSeason [first_season] (next_season_input 2 sample_schedule ''00''))"
proof -
  have h: "rulesetHashHex (\<lambda>bs. [0]) (rulesetFor 2) = Inr ''00''"
    by (simp add: rulesetHashHex_def rulesetHash_def published_rules_encode toHex_0)
  have "highestRankedOrdinal [first_season] = 1" "seasonByOrdinal [first_season] 1 = Some first_season"
    "row_endsAt first_season = Some sample_end" "sample_end \<noteq> 0"
    by (simp_all add: highestRankedOrdinal_def seasonByOrdinal_def first_season_def sample_end_def)
  then show ?thesis by (simp add: rollOnce_def sample_schedule_found h)
qed


text \<open>
  the reason given for a closed season is true. For a season with a start and an end,
  the sentence says it has not started, has finished or has been finalized exactly when that
  is the case, and the sentence with no reason is reached only when trading is open.
\<close>

theorem reason_for_closed_season_is_true:
  assumes "row_startsAt r = Some st" "row_endsAt r = Some e"
  shows "(seasonTradingOpen r now \<longleftrightarrow> whyNotOpen (Some r) now = ''the season is not open for trading'')
    \<and> (whyNotOpen (Some r) now = ''the season has not started yet'' \<longleftrightarrow> now < st)
    \<and> (whyNotOpen (Some r) now = ''the season has finished'' \<longleftrightarrow> st \<le> now \<and> e \<le> now)
    \<and> (whyNotOpen (Some r) now = ''the season has been finalized''
        \<longleftrightarrow> st \<le> now \<and> now < e \<and> row_status r = ''finalized'')"
proof -
  consider "now < st" | "st \<le> now" "e \<le> now" | "st \<le> now" "now < e" "row_status r = ''finalized''"
    | "st \<le> now" "now < e" "row_status r \<noteq> ''finalized''" by linarith
  then show ?thesis
    by cases (simp_all add: assms seasonTradingOpen_def whyNotOpen_def tradingOpen_def statusAt_def sql_holds_def)
qed

theorem reason_for_closed_season_is_true_witness:
  "whyNotOpen (Some first_season) (sample_end + 1) = ''the season has finished''
    \<and> \<not> seasonTradingOpen first_season (sample_end + 1)"
proof -
  have "row_startsAt first_season = Some 1767380400000" "row_endsAt first_season = Some sample_end"
    by (simp_all add: first_season_def)
  from reason_for_closed_season_is_true [OF this, of "sample_end + 1"]
  show ?thesis by (auto simp: sample_end_def)
qed

text \<open>
  a season that is far behind catches up one transition per tick. When every transaction
  is accepted, a season whose end has passed is created, opened, started and finalized in
  four ticks, and not in fewer; after that nothing changes any more.
\<close>

theorem late_season_catches_up:
  assumes "row_ranked r" "0 \<le> row_ordinal r" "row_status r = ''pending''"
    and "row_entryOpensAt r = Some o1" "row_entryClosesAt r = Some c" "row_endsAt r = Some e"
    and "o1 \<le> now" "c \<le> now" "e \<le> now"
  shows "let tick = lifecycle_tick (\<lambda>_. True) now in
    (tick ^^ 4) (False, r) = (True, r\<lparr>row_status := ''finalized''\<rparr>)
    \<and> row_status (snd ((tick ^^ 3) (False, r))) \<noteq> ''finalized''
    \<and> tick (True, r\<lparr>row_status := ''finalized''\<rparr>) = (True, r\<lparr>row_status := ''finalized''\<rparr>)"
  using assms by (simp add: numeral_eq_Suc lifecycle_tick_def nextSeasonTransition_def sql_holds_def Let_def)

theorem late_season_catches_up_witness:
  "(lifecycle_tick (\<lambda>_. True) (sample_end + 1) ^^ 4) (False, first_season\<lparr>row_status := ''pending''\<rparr>)
     = (True, first_season\<lparr>row_status := ''finalized''\<rparr>)"
  using late_season_catches_up [of "first_season\<lparr>row_status := ''pending''\<rparr>" 1767380400000 1767567600000
      sample_end "sample_end + 1"]
  by (simp add: first_season_def sample_end_def Let_def)

end
