(* ===== verification/Rank.thy ===== *)
theory Rank
  imports Contracts "HOL-Library.List_Lexorder" "HOL-Library.Char_ord" "HOL-Library.Product_Lexorder"
begin

text \<open>
  Putting a season in order (packages/scoring/src/rank.ts). Strings are compared by the code
  of their characters, as \<open><\<close> compares the base58 text of two keys. The result of a
  comparison matters by its sign only.
\<close>

record standing =
  st_trader :: string
  st_enteredAt :: int
  st_startingBalance :: int
  st_finalEquity :: int
  st_tradeCount :: int
  st_automatedTrades :: "int option"

record ranked_standing = standing +
  st_rank :: int
  st_returnBps :: int

definition returnBps :: "int \<Rightarrow> int \<Rightarrow> int" where
  "returnBps startingBalance finalEquity =
     (if startingBalance \<le> 0 then 0
      else to_num (((finalEquity - startingBalance) * 10000) sdiv startingBalance))"

definition compareStandings :: "'a standing_scheme \<Rightarrow> 'b standing_scheme \<Rightarrow> int" where
  "compareStandings l r =
     (let leftReturn = returnBps (st_startingBalance l) (st_finalEquity l);
          rightReturn = returnBps (st_startingBalance r) (st_finalEquity r)
      in if leftReturn \<noteq> rightReturn then rightReturn - leftReturn
      else let leftGain = st_finalEquity l - st_startingBalance l;
               rightGain = st_finalEquity r - st_startingBalance r
      in if leftGain \<noteq> rightGain then (if rightGain > leftGain then 1 else - 1)
      else if st_enteredAt l \<noteq> st_enteredAt r then st_enteredAt l - st_enteredAt r
      else if st_trader l < st_trader r then - 1 else if st_trader l > st_trader r then 1 else 0)"

definition with_rank :: "nat \<times> standing \<Rightarrow> ranked_standing" where
  "with_rank p = (case p of (index, s) \<Rightarrow>
     standing.extend s (ranked_standing.fields (int index + 1)
       (returnBps (st_startingBalance s) (st_finalEquity s))))"

definition rankSeason :: "standing list \<Rightarrow> ranked_standing list" where
  "rankSeason standings = map with_rank (enumerate 0 (js_sort compareStandings standings))"

definition placeOf :: "ranked_standing list \<Rightarrow> string \<Rightarrow> ranked_standing option" where
  "placeOf ranked trader = List.find (\<lambda>s. st_trader s = trader) ranked"

section \<open>The order is total\<close>

text \<open>What a standing is compared by, as one value in lexicographic order.\<close>

definition standing_key :: "'a standing_scheme \<Rightarrow> int \<times> int \<times> int \<times> string" where
  "standing_key s = (- returnBps (st_startingBalance s) (st_finalEquity s),
     - (st_finalEquity s - st_startingBalance s), st_enteredAt s, st_trader s)"

lemma compareStandings_le: "compareStandings l r \<le> 0 \<longleftrightarrow> standing_key l \<le> standing_key r"
  by (auto simp: compareStandings_def standing_key_def Let_def)

lemma compareStandings_less: "compareStandings l r < 0 \<longleftrightarrow> standing_key l < standing_key r"
  by (auto simp: compareStandings_def standing_key_def Let_def)

interpretation by_return: linear_comparator "compareStandings :: standing \<Rightarrow> standing \<Rightarrow> int" st_trader
proof
  fix x y z :: standing
  show "compareStandings x y \<le> 0 \<or> compareStandings y x \<le> 0"
    unfolding compareStandings_le by (rule linear)
  show "compareStandings x y \<le> 0 \<Longrightarrow> compareStandings y z \<le> 0 \<Longrightarrow> compareStandings x z \<le> 0"
    unfolding compareStandings_le by (rule order_trans)
  show "compareStandings x y \<le> 0 \<Longrightarrow> compareStandings y x \<le> 0 \<Longrightarrow> st_trader x = st_trader y"
    unfolding compareStandings_le by (drule (1) antisym) (simp add: standing_key_def)
qed

lemma with_rank_fields [simp]:
  "st_rank (with_rank (i, s)) = int i + 1" "st_trader (with_rank (i, s)) = st_trader s"
  "st_returnBps (with_rank (i, s)) = returnBps (st_startingBalance s) (st_finalEquity s)"
  "st_startingBalance (with_rank (i, s)) = st_startingBalance s"
  "st_finalEquity (with_rank (i, s)) = st_finalEquity s" "st_tradeCount (with_rank (i, s)) = st_tradeCount s"
  "st_enteredAt (with_rank (i, s)) = st_enteredAt s"
  by (simp_all add: with_rank_def standing.defs ranked_standing.defs)

definition ordered :: "standing list \<Rightarrow> standing list" where
  "ordered xs = js_sort compareStandings xs"

lemma rankSeason_ordered: "rankSeason xs = map with_rank (enumerate 0 (ordered xs))"
  by (simp add: rankSeason_def ordered_def)

lemma ordered_facts [simp]: "mset (ordered xs) = mset xs" "set (ordered xs) = set xs" "length (ordered xs) = length xs"
  by (simp_all add: ordered_def)

lemma length_rankSeason [simp]: "length (rankSeason xs) = length xs"
  by (simp add: rankSeason_ordered)

lemma rankSeason_nth: "i < length xs \<Longrightarrow> rankSeason xs ! i = with_rank (i, ordered xs ! i)"
  by (simp add: rankSeason_ordered nth_enumerate_eq)

lemma ordered_sorted: "sorted_wrt (\<lambda>a b. standing_key a \<le> standing_key b) (ordered xs)"
  using by_return.sort_sorted by (simp add: ordered_def compareStandings_le)

lemma ordered_distinct:
  assumes "distinct (map st_trader xs)"
  shows "distinct (map st_trader (ordered xs))"
proof -
  have "mset (map st_trader (ordered xs)) = mset (map st_trader xs)" by simp
  then show ?thesis using assms by (metis mset_eq_imp_distinct_iff)
qed

text \<open>Who is ahead of the standing at an index: those before it.\<close>

lemma strictly_ahead:
  assumes s: "sorted_wrt (\<lambda>a b. standing_key a \<le> standing_key b) ys" and d: "distinct (map st_trader ys)"
    and i: "i < length ys"
  shows "filter (\<lambda>u. standing_key u < standing_key (ys ! i)) ys = take i ys"
proof -
  have "standing_key u < standing_key (ys ! i)" if u: "u \<in> set (take i ys)" for u
  proof -
    obtain j where j: "j < i" "u = ys ! j" using u i by (auto simp: in_set_conv_nth)
    then have "standing_key u \<le> standing_key (ys ! i)" using s i by (simp add: sorted_wrt_iff_nth_less)
    moreover have "st_trader u \<noteq> st_trader (ys ! i)"
      using d j i nth_eq_iff_index_eq [of "map st_trader ys" j i] by simp
    then have "standing_key u \<noteq> standing_key (ys ! i)" by (auto simp: standing_key_def)
    ultimately show ?thesis by simp
  qed
  moreover have "\<not> standing_key u < standing_key (ys ! i)" if u: "u \<in> set (drop i ys)" for u
  proof -
    obtain j where j: "i \<le> j" "j < length ys" "u = ys ! j"
      using u i by (auto simp: in_set_conv_nth) (metis le_add1 less_diff_conv add.commute)
    then have "standing_key (ys ! i) \<le> standing_key u" using s
      by (cases "i = j") (auto simp: sorted_wrt_iff_nth_less)
    then show ?thesis by simp
  qed
  ultimately have "filter (\<lambda>u. standing_key u < standing_key (ys ! i)) (take i ys @ drop i ys) = take i ys"
    by (simp only: filter_append filter_True filter_False append_Nil2 ball_simps simp_thms) auto
  then show ?thesis by simp
qed

lemma returnBps_mono: "f \<le> f' \<Longrightarrow> returnBps b f \<le> returnBps b f'"
  by (simp add: returnBps_def to_num_mono sdiv_mono)

section \<open>Properties\<close>

text \<open>
  the ranking does not depend on the order the standings arrive in. When no trader
  appears twice, any arrangement of the same standings is ranked the same, so anybody who
  holds them arrives at the published order.
\<close>

theorem ranking_ignores_arrival_order:
  assumes "mset xs = mset ys" "distinct (map st_trader xs)"
  shows "rankSeason xs = rankSeason ys"
proof -
  have "inj_on st_trader (set xs)" using assms(2) by (simp add: distinct_map)
  then show ?thesis using by_return.sort_perm [OF assms(1)] by (simp add: rankSeason_def)
qed

definition sample_standing :: "string \<Rightarrow> int \<Rightarrow> int \<Rightarrow> standing" where
  "sample_standing t entered equity = \<lparr>st_trader = t, st_enteredAt = entered, st_startingBalance = 10000000000,
     st_finalEquity = equity, st_tradeCount = 3, st_automatedTrades = None\<rparr>"

definition sample_field :: "standing list" where
  "sample_field = [sample_standing ''ann'' 5 9000000000, sample_standing ''bob'' 2 12000000001,
     sample_standing ''cid'' 9 12000000000]"

lemma sample_field_distinct: "distinct (map st_trader sample_field)"
  by (simp add: sample_field_def sample_standing_def)

theorem ranking_ignores_arrival_order_witness:
  "rankSeason sample_field = rankSeason (rev sample_field)"
  by (rule ranking_ignores_arrival_order) (simp_all add: sample_field_distinct)

text \<open>
  a rank says exactly how many are ahead. Every entrant is ranked once, the ranks are
  \<open>1\<close> to the number of entrants in order, and the rank of a standing is one more than the
  number of standings the published comparison puts strictly before it; nobody shares a place.
\<close>

theorem rank_counts_those_ahead:
  assumes "distinct (map st_trader xs)"
  shows "map st_rank (rankSeason xs) = map (\<lambda>i. int i + 1) [0..<length xs]
    \<and> mset (map st_trader (rankSeason xs)) = mset (map st_trader xs)
    \<and> (\<forall>s \<in> set (rankSeason xs).
         st_rank s = 1 + int (length (filter (\<lambda>u. compareStandings u s < 0) xs)))"
proof (intro conjI ballI)
  show "map st_rank (rankSeason xs) = map (\<lambda>i. int i + 1) [0..<length xs]"
    by (intro nth_equalityI) (simp_all add: rankSeason_nth)
  have "map st_trader (rankSeason xs) = map st_trader (ordered xs)"
    by (intro nth_equalityI) (simp_all add: rankSeason_nth)
  then show "mset (map st_trader (rankSeason xs)) = mset (map st_trader xs)" by simp
  fix s assume "s \<in> set (rankSeason xs)"
  then obtain i where i: "i < length xs" "s = with_rank (i, ordered xs ! i)"
    by (auto simp: in_set_conv_nth rankSeason_nth)
  have key: "standing_key s = standing_key (ordered xs ! i)" by (simp add: i(2) standing_key_def)
  have "length (filter (\<lambda>u. compareStandings u s < 0) xs) = length (filter (\<lambda>u. compareStandings u s < 0) (ordered xs))"
    by (metis mset_filter ordered_facts(1) size_mset)
  also have "\<dots> = i"
    using strictly_ahead [OF ordered_sorted ordered_distinct [OF assms]] i(1)
    by (simp add: compareStandings_less key)
  finally show "st_rank s = 1 + int (length (filter (\<lambda>u. compareStandings u s < 0) xs))" using i by simp
qed

theorem rank_counts_those_ahead_witness:
  "map st_rank (rankSeason sample_field) = [1, 2, 3]"
  using rank_counts_those_ahead [OF sample_field_distinct] by (simp add: sample_field_def upt_rec)

text \<open>
  the truncated return never decides between two traders with the same stake. With equal
  starting balances, whoever finished with more is placed ahead, even by one lamport and even
  when both returns round to the same basis point; only an exact tie goes to the earlier
  entrant.
\<close>

theorem richer_places_ahead:
  assumes "distinct (map st_trader xs)" "a \<in> set (rankSeason xs)" "b \<in> set (rankSeason xs)"
    and stake: "st_startingBalance a = st_startingBalance b"
    and more: "st_finalEquity b < st_finalEquity a
      \<or> (st_finalEquity b = st_finalEquity a \<and> st_enteredAt a < st_enteredAt b)"
  shows "st_rank a < st_rank b"
proof -
  obtain i j where i: "i < length xs" "a = with_rank (i, ordered xs ! i)"
    and j: "j < length xs" "b = with_rank (j, ordered xs ! j)"
    using assms(2,3) by (auto simp: in_set_conv_nth rankSeason_nth)
  have "returnBps (st_startingBalance b) (st_finalEquity b) \<le> returnBps (st_startingBalance b) (st_finalEquity a)"
    using more by (intro returnBps_mono) auto
  then have "standing_key a < standing_key b"
    using stake more by (auto simp: standing_key_def)
  then have lt: "standing_key (ordered xs ! i) < standing_key (ordered xs ! j)"
    by (simp add: i(2) j(2) standing_key_def)
  have "\<not> j \<le> i"
  proof
    assume "j \<le> i"
    then have "standing_key (ordered xs ! j) \<le> standing_key (ordered xs ! i)"
      using ordered_sorted [of xs] i(1) by (cases "j = i") (auto simp: sorted_wrt_iff_nth_less)
    then show False using lt by simp
  qed
  then show ?thesis by (simp add: i(2) j(2))
qed

lemma sample_ranking:
  "rankSeason sample_field = [with_rank (0, sample_standing ''bob'' 2 12000000001),
     with_rank (1, sample_standing ''cid'' 9 12000000000), with_rank (2, sample_standing ''ann'' 5 9000000000)]"
  by code_simp

theorem richer_places_ahead_witness:
  "returnBps 10000000000 12000000001 = returnBps 10000000000 12000000000
   \<and> st_rank (with_rank (0, sample_standing ''bob'' 2 12000000001))
       < st_rank (with_rank (1, sample_standing ''cid'' 9 12000000000))"
proof -
  have "st_rank (with_rank (0, sample_standing ''bob'' 2 12000000001))
      < st_rank (with_rank (1, sample_standing ''cid'' 9 12000000000))"
    by (rule richer_places_ahead [OF sample_field_distinct])
      (simp_all add: sample_ranking, simp_all add: sample_standing_def)
  moreover have "returnBps 10000000000 12000000001 = returnBps 10000000000 12000000000" by code_simp
  ultimately show ?thesis by blast
qed

end
