(* ===== verification/Finalize.thy ===== *)
theory Finalize
  imports Rank Payout
begin

text \<open>
  The final standings and their commitment (packages/scoring/src/results.ts and
  finalize.ts): the bytes of a result, the root of a season, the document a season is
  finalized into and its verification by anybody. \<open>H\<close> is \<open>sha256\<close>, \<open>dec\<close> is
  \<open>bs58.decode\<close> with \<open>None\<close> where it throws.
\<close>

section \<open>Result leaves\<close>

record result_leaf =
  rl_seasonOrdinal :: int
  rl_rank :: int
  rl_trader :: string
  rl_startingBalance :: int
  rl_finalEquity :: int
  rl_returnBps :: int
  rl_tradeCount :: int
  rl_payoutLamports :: int

definition RESULT_LEAF_BYTES :: nat where
  "RESULT_LEAF_BYTES = 2 + 4 + PUBKEY_BYTES + AMOUNT_BYTES + AMOUNT_BYTES + 4 + 4 + AMOUNT_BYTES"

definition writeResultUint :: "int \<Rightarrow> nat \<Rightarrow> byte list res" where
  "writeResultUint v n = uint_bytes Result_error v n"

definition encodeResultLeaf :: "(string \<Rightarrow> byte list option) \<Rightarrow> result_leaf \<Rightarrow> byte list res" where
  "encodeResultLeaf dec l =
     rbind (ensure (\<not> rl_rank l < 1) Result_error) (\<lambda>_.
     rbind (case dec (rl_trader l) of None \<Rightarrow> Inl Result_error | Some k \<Rightarrow> Inr k) (\<lambda>trader.
     rbind (ensure (\<not> length trader \<noteq> PUBKEY_BYTES) Result_error) (\<lambda>_.
     rbind (writeResultUint (rl_startingBalance l) AMOUNT_BYTES) (\<lambda>balance.
     rbind (writeResultUint (rl_finalEquity l) AMOUNT_BYTES) (\<lambda>equity.
     rbind (writeResultUint (rl_payoutLamports l) AMOUNT_BYTES) (\<lambda>pay.
     Inr (be_bytes 2 (rl_seasonOrdinal l) @ be_bytes 4 (rl_rank l) @ trader @ balance @ equity
       @ be_bytes 4 (rl_returnBps l) @ be_bytes 4 (rl_tradeCount l) @ pay)))))))"

definition RESULT_LEAF_PREFIX :: byte where "RESULT_LEAF_PREFIX = 2"

definition hashResultLeaf :: "(byte list \<Rightarrow> byte list) \<Rightarrow> (string \<Rightarrow> byte list option) \<Rightarrow> result_leaf \<Rightarrow> byte list res" where
  "hashResultLeaf H dec l = rbind (encodeResultLeaf dec l) (\<lambda>encoded. Inr (H (tagged RESULT_LEAF_PREFIX encoded)))"

text \<open>\<open>new Map(pairs)\<close>: the last pair of a key is the one that is kept.\<close>

definition map_from :: "('k \<times> 'v) list \<Rightarrow> 'k \<Rightarrow> 'v option" where
  "map_from ps = map_of (rev ps)"

definition resultLeaves :: "int \<Rightarrow> ranked_standing list \<Rightarrow> payout list \<Rightarrow> result_leaf list" where
  "resultLeaves seasonOrdinal ranked payouts =
     (let byPlace = map_from (map (\<lambda>p. (place p, lamports p)) payouts) in
      map (\<lambda>s. \<lparr>rl_seasonOrdinal = seasonOrdinal, rl_rank = st_rank s, rl_trader = st_trader s,
        rl_startingBalance = st_startingBalance s, rl_finalEquity = st_finalEquity s,
        rl_returnBps = st_returnBps s, rl_tradeCount = st_tradeCount s,
        rl_payoutLamports = (case byPlace (st_rank s) of None \<Rightarrow> 0 | Some x \<Rightarrow> x)\<rparr>) ranked)"

definition ascii_bytes :: "string \<Rightarrow> byte list" where
  "ascii_bytes s = map (\<lambda>c. of_nat (of_char c)) s"

definition EMPTY_SEASON_ROOT :: "(byte list \<Rightarrow> byte list) \<Rightarrow> byte list" where
  "EMPTY_SEASON_ROOT H = H (ascii_bytes ''probatio:empty-season:v1'')"

definition VOID_SEASON_ROOT :: "(byte list \<Rightarrow> byte list) \<Rightarrow> byte list" where
  "VOID_SEASON_ROOT H = H (ascii_bytes ''probatio:void-season:v1'')"

definition resultsRoot ::
  "(byte list \<Rightarrow> byte list) \<Rightarrow> (string \<Rightarrow> byte list option) \<Rightarrow> result_leaf list \<Rightarrow> byte list res" where
  "resultsRoot H dec leaves =
     (if length leaves = 0 then Inr (EMPTY_SEASON_ROOT H)
      else rbind (traverse (hashResultLeaf H dec) leaves) (merkleRoot H))"

definition resultsRootHex ::
  "(byte list \<Rightarrow> byte list) \<Rightarrow> (string \<Rightarrow> byte list option) \<Rightarrow> result_leaf list \<Rightarrow> string res" where
  "resultsRootHex H dec leaves = rbind (resultsRoot H dec leaves) (\<lambda>r. Inr (toHex r))"

section \<open>The document of a finalized season\<close>

record entrant =
  en_standing :: standing
  en_accumulator :: string

record finalization_input =
  fi_seasonOrdinal :: int
  fi_rulesetHash :: string
  fi_ruleset :: ruleset
  fi_potLamports :: int
  fi_houseBaseLamports :: int
  fi_entrants :: "entrant list"

record finalized_row =
  fr_rank :: int
  fr_trader :: string
  fr_enteredAt :: int
  fr_startingBalance :: int
  fr_finalEquity :: int
  fr_returnBps :: int
  fr_tradeCount :: int
  fr_payoutLamports :: int
  fr_accumulator :: string
  fr_proof :: "proof_step list"

record finalization =
  fz_seasonOrdinal :: int
  fz_rulesetHash :: string
  fz_resultsRoot :: string
  fz_potLamports :: int
  fz_houseBaseLamports :: int
  fz_houseLamports :: int
  fz_distributableLamports :: int
  fz_payouts :: "payout list"
  fz_rows :: "finalized_row list"

definition finalized_rows ::
  "merkle_tree \<Rightarrow> (string \<Rightarrow> string option) \<Rightarrow> ranked_standing list \<Rightarrow> result_leaf list \<Rightarrow> finalized_row list res" where
  "finalized_rows tree accumulators ranked leaves =
     traverse (\<lambda>(index, s).
       case accumulators (st_trader s) of
         None \<Rightarrow> Inl Finalize_error
       | Some accumulator \<Rightarrow>
           rbind (buildProof tree (int index)) (\<lambda>pf.
           Inr \<lparr>fr_rank = st_rank s, fr_trader = st_trader s, fr_enteredAt = st_enteredAt s,
             fr_startingBalance = st_startingBalance s, fr_finalEquity = st_finalEquity s,
             fr_returnBps = st_returnBps s, fr_tradeCount = st_tradeCount s,
             fr_payoutLamports = rl_payoutLamports (leaves ! index), fr_accumulator = accumulator,
             fr_proof = pf\<rparr>)) (enumerate 0 ranked)"

definition buildFinalization ::
  "(byte list \<Rightarrow> byte list) \<Rightarrow> (string \<Rightarrow> byte list option) \<Rightarrow> finalization_input \<Rightarrow> finalization res" where
  "buildFinalization H dec input =
     rbind (distribute (fi_ruleset input) (fi_potLamports input) (int (length (fi_entrants input)))
              (Some (fi_houseBaseLamports input))) (\<lambda>spl.
     let base = \<lparr>fz_seasonOrdinal = fi_seasonOrdinal input, fz_rulesetHash = fi_rulesetHash input,
           fz_resultsRoot = toHex (EMPTY_SEASON_ROOT H), fz_potLamports = fi_potLamports input,
           fz_houseBaseLamports = fi_houseBaseLamports input, fz_houseLamports = d_house spl,
           fz_distributableLamports = d_distributable spl, fz_payouts = d_payouts spl, fz_rows = []\<rparr> in
     if length (fi_entrants input) = 0 then Inr base
     else
       let ranked = rankSeason (map en_standing (fi_entrants input));
           leaves = resultLeaves (fi_seasonOrdinal input) ranked (d_payouts spl);
           accumulators = map_from (map (\<lambda>e. (st_trader (en_standing e), en_accumulator e)) (fi_entrants input)) in
       rbind (traverse (hashResultLeaf H dec) leaves) (\<lambda>hashes.
       rbind (buildTree H hashes) (\<lambda>tree.
       rbind (finalized_rows tree accumulators ranked leaves) (\<lambda>rows.
       Inr (base\<lparr>fz_resultsRoot := toHex (tree_root tree), fz_rows := rows\<rparr>)))))"

text \<open>What can fail to check out. The sentence that names the row is left out.\<close>

datatype finalize_failure = Wrong_ruleset | Wrong_root | Wrong_row_count | Wrong_row nat | Wrong_proof string

record verify_result =
  vr_ok :: bool
  vr_reason :: "finalize_failure option"

definition fail :: "finalize_failure \<Rightarrow> verify_result" where
  "fail reason = \<lparr>vr_ok = False, vr_reason = Some reason\<rparr>"

definition row_entrant :: "finalized_row \<Rightarrow> entrant" where
  "row_entrant row = \<lparr>en_standing = \<lparr>st_trader = fr_trader row, st_enteredAt = fr_enteredAt row,
       st_startingBalance = fr_startingBalance row, st_finalEquity = fr_finalEquity row,
       st_tradeCount = fr_tradeCount row, st_automatedTrades = None\<rparr>, en_accumulator = fr_accumulator row\<rparr>"

definition row_leaf :: "int \<Rightarrow> finalized_row \<Rightarrow> result_leaf" where
  "row_leaf ordinal row = \<lparr>rl_seasonOrdinal = ordinal, rl_rank = fr_rank row, rl_trader = fr_trader row,
     rl_startingBalance = fr_startingBalance row, rl_finalEquity = fr_finalEquity row,
     rl_returnBps = fr_returnBps row, rl_tradeCount = fr_tradeCount row,
     rl_payoutLamports = fr_payoutLamports row\<rparr>"

text \<open>The first row that differs from its derivation, and the first whose proof fails.\<close>

fun first_wrong_row :: "nat \<Rightarrow> finalized_row list \<Rightarrow> finalized_row list \<Rightarrow> nat option" where
  "first_wrong_row i (published # ps) (derived # ds) =
     (if fr_rank published \<noteq> fr_rank derived \<or> fr_trader published \<noteq> fr_trader derived
        \<or> fr_payoutLamports published \<noteq> fr_payoutLamports derived
        \<or> fr_returnBps published \<noteq> fr_returnBps derived
      then Some i else first_wrong_row (Suc i) ps ds)"
| "first_wrong_row i _ _ = None"

fun first_wrong_proof ::
  "(byte list \<Rightarrow> byte list) \<Rightarrow> (string \<Rightarrow> byte list option) \<Rightarrow> int \<Rightarrow> byte list \<Rightarrow> finalized_row list \<Rightarrow> string option res" where
  "first_wrong_proof H dec ordinal root_bytes [] = Inr None"
| "first_wrong_proof H dec ordinal root_bytes (row # rows) =
     rbind (hashResultLeaf H dec (row_leaf ordinal row)) (\<lambda>h.
     if \<not> equalHashes (computeRoot H h (fr_proof row)) root_bytes then Inr (Some (fr_trader row))
     else first_wrong_proof H dec ordinal root_bytes rows)"

definition verifyFinalization ::
  "(byte list \<Rightarrow> byte list) \<Rightarrow> (string \<Rightarrow> byte list option) \<Rightarrow> finalization \<Rightarrow> ruleset \<Rightarrow> verify_result res" where
  "verifyFinalization H dec final r =
     rbind (rulesetHashHex H r) (\<lambda>hash.
     if hash \<noteq> fz_rulesetHash final then Inr (fail Wrong_ruleset)
     else
       rbind (buildFinalization H dec \<lparr>fi_seasonOrdinal = fz_seasonOrdinal final,
         fi_rulesetHash = fz_rulesetHash final, fi_ruleset = r, fi_potLamports = fz_potLamports final,
         fi_houseBaseLamports = fz_houseBaseLamports final,
         fi_entrants = map row_entrant (fz_rows final)\<rparr>) (\<lambda>rebuilt.
       if fz_resultsRoot rebuilt \<noteq> fz_resultsRoot final then Inr (fail Wrong_root)
       else if length (fz_rows rebuilt) \<noteq> length (fz_rows final) then Inr (fail Wrong_row_count)
       else case first_wrong_row 0 (fz_rows final) (fz_rows rebuilt) of
         Some i \<Rightarrow> Inr (fail (Wrong_row i))
       | None \<Rightarrow>
           rbind (fromHex (fz_resultsRoot final)) (\<lambda>root_bytes.
           rbind (first_wrong_proof H dec (fz_seasonOrdinal final) root_bytes (fz_rows final)) (\<lambda>wrong.
           case wrong of Some trader \<Rightarrow> Inr (fail (Wrong_proof trader))
           | None \<Rightarrow> Inr \<lparr>vr_ok = True, vr_reason = None\<rparr>))))"

section \<open>What is built\<close>

definition season_ranking :: "entrant list \<Rightarrow> ranked_standing list" where
  "season_ranking es = rankSeason (map en_standing es)"

definition built_row ::
  "byte list list list \<Rightarrow> (string \<Rightarrow> string option) \<Rightarrow> result_leaf list \<Rightarrow> nat \<times> ranked_standing \<Rightarrow> finalized_row" where
  "built_row lv accumulators leaves p = (case p of (index, s) \<Rightarrow>
     \<lparr>fr_rank = st_rank s, fr_trader = st_trader s, fr_enteredAt = st_enteredAt s,
      fr_startingBalance = st_startingBalance s, fr_finalEquity = st_finalEquity s,
      fr_returnBps = st_returnBps s, fr_tradeCount = st_tradeCount s,
      fr_payoutLamports = rl_payoutLamports (leaves ! index), fr_accumulator = the (accumulators (st_trader s)),
      fr_proof = proof_path lv index\<rparr>)"

definition accumulators_of :: "entrant list \<Rightarrow> string \<Rightarrow> string option" where
  "accumulators_of es = map_from (map (\<lambda>e. (st_trader (en_standing e), en_accumulator e)) es)"

lemma length_season_ranking [simp]: "length (season_ranking es) = length es"
  by (simp add: season_ranking_def)

lemma length_resultLeaves [simp]: "length (resultLeaves n ranked ps) = length ranked"
  by (simp add: resultLeaves_def Let_def)

lemma accumulator_known:
  assumes "s \<in> set (season_ranking es)"
  shows "accumulators_of es (st_trader s) \<noteq> None"
proof -
  obtain i where "i < length es" "s = with_rank (i, ordered (map en_standing es) ! i)"
    using assms by (auto simp: season_ranking_def in_set_conv_nth rankSeason_nth)
  then have "st_trader s \<in> st_trader ` en_standing ` set es"
    using nth_mem [of i "ordered (map en_standing es)"] by auto
  then have "st_trader s \<in> fst ` set (rev (map (\<lambda>e. (st_trader (en_standing e), en_accumulator e)) es))"
    by (auto simp: image_image)
  then show ?thesis unfolding accumulators_of_def map_from_def map_of_eq_None_iff by blast
qed

lemma finalized_rows_built:
  assumes "leafCount tree = length es"
  shows "finalized_rows tree (accumulators_of es) (season_ranking es) leaves
    = Inr (map (built_row (levels tree) (accumulators_of es) leaves) (enumerate 0 (season_ranking es)))"
  unfolding finalized_rows_def
proof (rule traverse_pure)
  fix x assume x: "x \<in> set (enumerate 0 (season_ranking es))"
  obtain i s where xs: "x = (i, s)" by (cases x)
  with x have i: "i < length es" "s \<in> set (season_ranking es)" by (auto simp: in_set_enumerate_eq)
  then obtain a where "accumulators_of es (st_trader s) = Some a" using accumulator_known by blast
  with i assms show "(case x of (index, s) \<Rightarrow> case accumulators_of es (st_trader s) of
         None \<Rightarrow> Inl Finalize_error
       | Some accumulator \<Rightarrow>
           rbind (buildProof tree (int index)) (\<lambda>pf.
           Inr \<lparr>fr_rank = st_rank s, fr_trader = st_trader s, fr_enteredAt = st_enteredAt s,
             fr_startingBalance = st_startingBalance s, fr_finalEquity = st_finalEquity s,
             fr_returnBps = st_returnBps s, fr_tradeCount = st_tradeCount s,
             fr_payoutLamports = rl_payoutLamports (leaves ! index), fr_accumulator = accumulator,
             fr_proof = pf\<rparr>)) = Inr (built_row (levels tree) (accumulators_of es) leaves x)"
    by (simp add: xs buildProof_def built_row_def)
qed

definition season_leaves :: "int \<Rightarrow> entrant list \<Rightarrow> payout list \<Rightarrow> result_leaf list" where
  "season_leaves n es ps = resultLeaves n (season_ranking es) ps"

definition built :: "(byte list \<Rightarrow> byte list) \<Rightarrow> finalization_input \<Rightarrow> distribution \<Rightarrow> byte list list \<Rightarrow> finalization" where
  "built H input spl hashes =
     \<lparr>fz_seasonOrdinal = fi_seasonOrdinal input, fz_rulesetHash = fi_rulesetHash input,
      fz_resultsRoot = toHex (if hashes = [] then EMPTY_SEASON_ROOT H else hd (last (build_levels H hashes))),
      fz_potLamports = fi_potLamports input, fz_houseBaseLamports = fi_houseBaseLamports input,
      fz_houseLamports = d_house spl, fz_distributableLamports = d_distributable spl,
      fz_payouts = d_payouts spl,
      fz_rows = map (built_row (build_levels H hashes) (accumulators_of (fi_entrants input))
          (season_leaves (fi_seasonOrdinal input) (fi_entrants input) (d_payouts spl)))
        (enumerate 0 (season_ranking (fi_entrants input)))\<rparr>"

lemma length_season_leaves [simp]: "length (season_leaves n es ps) = length es"
  by (simp add: season_leaves_def)

lemma buildFinalization_eq:
  "buildFinalization H dec input =
     rbind (distribute (fi_ruleset input) (fi_potLamports input) (int (length (fi_entrants input)))
              (Some (fi_houseBaseLamports input))) (\<lambda>spl.
     rbind (traverse (hashResultLeaf H dec) (season_leaves (fi_seasonOrdinal input) (fi_entrants input) (d_payouts spl)))
       (\<lambda>hashes. Inr (built H input spl hashes)))"
proof (cases "distribute (fi_ruleset input) (fi_potLamports input) (int (length (fi_entrants input)))
              (Some (fi_houseBaseLamports input))")
  case (Inr spl)
  let ?es = "fi_entrants input"
  let ?leaves = "season_leaves (fi_seasonOrdinal input) ?es (d_payouts spl)"
  show ?thesis
  proof (cases "?es = []")
    case True
    then show ?thesis using Inr
      by (simp add: buildFinalization_def Let_def built_def season_leaves_def season_ranking_def
          resultLeaves_def rankSeason_def)
  next
    case False
    show ?thesis
    proof (cases "traverse (hashResultLeaf H dec) ?leaves")
      case (Inl e)
      with False Inr show ?thesis
        by (simp add: buildFinalization_def Let_def flip: season_leaves_def season_ranking_def)
    next
      case (Inr hashes)
      then have len: "length hashes = length ?es" using traverse_length by fastforce
      with False have ne: "hashes \<noteq> []" by auto
      then have tree: "buildTree H hashes = Inr \<lparr>tree_root = hd (last (build_levels H hashes)),
          leafCount = length hashes, levels = build_levels H hashes\<rparr>" by (simp add: buildTree_def Let_def)
      have rows: "finalized_rows \<lparr>tree_root = hd (last (build_levels H hashes)),
          leafCount = length hashes, levels = build_levels H hashes\<rparr>
          (accumulators_of ?es) (season_ranking ?es) ?leaves
        = Inr (map (built_row (build_levels H hashes) (accumulators_of ?es) ?leaves) (enumerate 0 (season_ranking ?es)))"
        using finalized_rows_built [of _ ?es] len by simp
      show ?thesis
        using False \<open>distribute _ _ _ _ = Inr spl\<close> Inr ne tree rows
        by (simp add: buildFinalization_def Let_def built_def flip: season_leaves_def season_ranking_def accumulators_of_def)
    qed
  qed
qed (simp add: buildFinalization_def)

section \<open>Rebuilding from the published rows\<close>

definition clean :: "standing \<Rightarrow> standing" where
  "clean s = s\<lparr>st_automatedTrades := None\<rparr>"

lemma clean_key [simp]: "standing_key (clean s) = standing_key s"
  by (simp add: clean_def standing_key_def)

lemma ordered_clean: "ordered (map clean (ordered xs)) = map clean (ordered xs)"
  unfolding ordered_def [of "map clean (ordered xs)"]
  using ordered_sorted [of xs]
  by (intro by_return.sorted_id) (simp add: compareStandings_le sorted_wrt_map)

lemma season_ranking_nth:
  "i < length es \<Longrightarrow> season_ranking es ! i = with_rank (i, ordered (map en_standing es) ! i)"
  by (simp add: season_ranking_def rankSeason_nth)

definition rows_of :: "byte list list list \<Rightarrow> entrant list \<Rightarrow> result_leaf list \<Rightarrow> finalized_row list" where
  "rows_of lv es leaves = map (built_row lv (accumulators_of es) leaves) (enumerate 0 (season_ranking es))"

lemma length_rows_of [simp]: "length (rows_of lv es leaves) = length es"
  by (simp add: rows_of_def)

lemma rows_of_nth:
  "i < length es \<Longrightarrow> rows_of lv es leaves ! i
     = built_row lv (accumulators_of es) leaves (i, with_rank (i, ordered (map en_standing es) ! i))"
  by (simp add: rows_of_def nth_enumerate_eq season_ranking_nth)

lemma row_standings:
  "map en_standing (map row_entrant (rows_of lv es leaves)) = map clean (ordered (map en_standing es))"
  by (intro nth_equalityI) (simp_all add: rows_of_nth built_row_def row_entrant_def clean_def)

lemma rebuilt_ranking_nth:
  "i < length es \<Longrightarrow> season_ranking (map row_entrant (rows_of lv es leaves)) ! i
     = with_rank (i, clean (ordered (map en_standing es) ! i))"
  using row_standings [of lv es leaves] by (simp add: season_ranking_nth ordered_clean)

lemma season_leaves_nth:
  "i < length es \<Longrightarrow> season_leaves n es ps ! i
     = (let s = season_ranking es ! i in
        \<lparr>rl_seasonOrdinal = n, rl_rank = st_rank s, rl_trader = st_trader s,
         rl_startingBalance = st_startingBalance s, rl_finalEquity = st_finalEquity s,
         rl_returnBps = st_returnBps s, rl_tradeCount = st_tradeCount s,
         rl_payoutLamports = (case map_from (map (\<lambda>p. (place p, lamports p)) ps) (st_rank s) of
             None \<Rightarrow> 0 | Some x \<Rightarrow> x)\<rparr>)"
  by (simp add: season_leaves_def resultLeaves_def Let_def)

lemma clean_fields [simp]:
  "st_trader (clean s) = st_trader s" "st_startingBalance (clean s) = st_startingBalance s"
  "st_finalEquity (clean s) = st_finalEquity s" "st_tradeCount (clean s) = st_tradeCount s"
  "st_enteredAt (clean s) = st_enteredAt s"
  by (simp_all add: clean_def)

lemma rebuilt_leaves:
  "season_leaves n (map row_entrant (rows_of lv es leaves)) ps = season_leaves n es ps"
  by (intro nth_equalityI) (simp_all add: season_leaves_nth rebuilt_ranking_nth season_ranking_nth [of _ es] Let_def)

lemma built_rows: "fz_rows (built H input spl hashes)
    = rows_of (build_levels H hashes) (fi_entrants input)
        (season_leaves (fi_seasonOrdinal input) (fi_entrants input) (d_payouts spl))"
  by (simp add: built_def rows_of_def)

lemma row_leaf_built:
  "i < length es \<Longrightarrow> row_leaf n (rows_of lv es (season_leaves n es ps) ! i) = season_leaves n es ps ! i"
  by (simp add: rows_of_nth built_row_def row_leaf_def season_leaves_nth season_ranking_nth Let_def)

section \<open>What verification checks\<close>

definition row_agrees :: "finalized_row \<Rightarrow> finalized_row \<Rightarrow> bool" where
  "row_agrees p d \<longleftrightarrow> fr_rank p = fr_rank d \<and> fr_trader p = fr_trader d
     \<and> fr_payoutLamports p = fr_payoutLamports d \<and> fr_returnBps p = fr_returnBps d"

lemma first_wrong_row_None:
  "length ps = length ds \<Longrightarrow> first_wrong_row k ps ds = None \<longleftrightarrow> list_all2 row_agrees ps ds"
proof (induction ps arbitrary: k ds)
  case (Cons p ps)
  then show ?case by (cases ds) (auto simp: row_agrees_def)
qed simp

definition proof_ok ::
  "(byte list \<Rightarrow> byte list) \<Rightarrow> (string \<Rightarrow> byte list option) \<Rightarrow> int \<Rightarrow> byte list \<Rightarrow> finalized_row \<Rightarrow> bool" where
  "proof_ok H dec n rt row \<longleftrightarrow>
     (\<exists>h. hashResultLeaf H dec (row_leaf n row) = Inr h \<and> verifyProof H h (fr_proof row) rt)"

lemma first_wrong_proof_None:
  "first_wrong_proof H dec n rt rows = Inr None \<longleftrightarrow> list_all (proof_ok H dec n rt) rows"
  by (induction rows) (auto simp: proof_ok_def verifyProof_def)

definition rebuild_input :: "finalization \<Rightarrow> ruleset \<Rightarrow> finalization_input" where
  "rebuild_input f r = \<lparr>fi_seasonOrdinal = fz_seasonOrdinal f, fi_rulesetHash = fz_rulesetHash f, fi_ruleset = r,
     fi_potLamports = fz_potLamports f, fi_houseBaseLamports = fz_houseBaseLamports f,
     fi_entrants = map row_entrant (fz_rows f)\<rparr>"

lemma verifies_iff:
  "verifyFinalization H dec f r = Inr \<lparr>vr_ok = True, vr_reason = None\<rparr> \<longleftrightarrow>
     rulesetHashHex H r = Inr (fz_rulesetHash f)
   \<and> (\<exists>g rt. buildFinalization H dec (rebuild_input f r) = Inr g
        \<and> fz_resultsRoot g = fz_resultsRoot f \<and> list_all2 row_agrees (fz_rows f) (fz_rows g)
        \<and> fromHex (fz_resultsRoot f) = Inr rt \<and> list_all (proof_ok H dec (fz_seasonOrdinal f) rt) (fz_rows f))"
proof (cases "rulesetHashHex H r = Inr (fz_rulesetHash f)")
  case False
  then show ?thesis by (cases "rulesetHashHex H r") (auto simp: verifyFinalization_def fail_def)
next
  case hash: True
  have v: "verifyFinalization H dec f r = rbind (buildFinalization H dec (rebuild_input f r)) (\<lambda>rebuilt.
       if fz_resultsRoot rebuilt \<noteq> fz_resultsRoot f then Inr (fail Wrong_root)
       else if length (fz_rows rebuilt) \<noteq> length (fz_rows f) then Inr (fail Wrong_row_count)
       else case first_wrong_row 0 (fz_rows f) (fz_rows rebuilt) of
         Some i \<Rightarrow> Inr (fail (Wrong_row i))
       | None \<Rightarrow>
           rbind (fromHex (fz_resultsRoot f)) (\<lambda>root_bytes.
           rbind (first_wrong_proof H dec (fz_seasonOrdinal f) root_bytes (fz_rows f)) (\<lambda>wrong.
           case wrong of Some trader \<Rightarrow> Inr (fail (Wrong_proof trader))
           | None \<Rightarrow> Inr \<lparr>vr_ok = True, vr_reason = None\<rparr>)))"
    by (simp add: verifyFinalization_def hash rebuild_input_def)
  show ?thesis
  proof (cases "buildFinalization H dec (rebuild_input f r)")
    case (Inr g)
    show ?thesis
    proof (cases "fz_resultsRoot g = fz_resultsRoot f \<and> length (fz_rows f) = length (fz_rows g)")
      case False
      then show ?thesis by (auto simp: v hash Inr fail_def dest: list_all2_lengthD)
    next
      case same: True
      show ?thesis
      proof (cases "first_wrong_row 0 (fz_rows f) (fz_rows g)")
        case None
        with same have "list_all2 row_agrees (fz_rows f) (fz_rows g)" by (simp add: first_wrong_row_None)
        with same None show ?thesis
          by (auto simp: v hash Inr fail_def first_wrong_proof_None [symmetric] split: option.splits)
      next
        case (Some i)
        then have "\<not> list_all2 row_agrees (fz_rows f) (fz_rows g)"
          using same first_wrong_row_None by (metis option.distinct(1))
        with same Some show ?thesis by (simp add: v hash Inr fail_def)
      qed
    qed
  qed (simp add: v hash)
qed

section \<open>The encoding of a result\<close>

lemma writeResultUint_Inr [simp]:
  "writeResultUint v n = Inr b \<longleftrightarrow> 0 \<le> v \<and> v < 256 ^ n \<and> b = be_bytes n v"
  by (simp add: writeResultUint_def)

definition result_parts :: "(string \<Rightarrow> byte list option) \<Rightarrow> result_leaf \<Rightarrow> byte list list" where
  "result_parts dec l =
     [be_bytes 2 (rl_seasonOrdinal l), be_bytes 4 (rl_rank l), the (dec (rl_trader l)),
      be_bytes AMOUNT_BYTES (rl_startingBalance l), be_bytes AMOUNT_BYTES (rl_finalEquity l),
      be_bytes 4 (rl_returnBps l), be_bytes 4 (rl_tradeCount l), be_bytes AMOUNT_BYTES (rl_payoutLamports l)]"

definition result_ok :: "(string \<Rightarrow> byte list option) \<Rightarrow> result_leaf \<Rightarrow> bool" where
  "result_ok dec l \<longleftrightarrow> 1 \<le> rl_rank l \<and> (\<exists>k. dec (rl_trader l) = Some k \<and> length k = PUBKEY_BYTES)
     \<and> amount_ok (rl_startingBalance l) \<and> amount_ok (rl_finalEquity l) \<and> amount_ok (rl_payoutLamports l)"

lemma encodeResultLeaf_Inr: "encodeResultLeaf dec l = Inr b \<longleftrightarrow> result_ok dec l \<and> b = concat (result_parts dec l)"
  by (cases "dec (rl_trader l)")
    (auto simp: encodeResultLeaf_def result_ok_def result_parts_def amount_ok_def)

lemma result_parts_widths: "result_ok dec l \<Longrightarrow> map length (result_parts dec l) = [2, 4, 32, 16, 16, 4, 4, 16]"
  by (auto simp: result_ok_def result_parts_def PUBKEY_BYTES_def AMOUNT_BYTES_def)

lemma encodeResultLeaf_length:
  assumes "encodeResultLeaf dec l = Inr b"
  shows "length b = RESULT_LEAF_BYTES"
proof -
  have "result_ok dec l" "b = concat (result_parts dec l)" using assms by (simp_all add: encodeResultLeaf_Inr)
  then show ?thesis
    by (simp add: length_concat result_parts_widths RESULT_LEAF_BYTES_def PUBKEY_BYTES_def AMOUNT_BYTES_def)
qed

definition result_fits :: "result_leaf \<Rightarrow> bool" where
  "result_fits l \<longleftrightarrow> - 32768 \<le> rl_seasonOrdinal l \<and> rl_seasonOrdinal l < 32768 \<and> fits 4 (rl_rank l)
     \<and> - 2147483648 \<le> rl_returnBps l \<and> rl_returnBps l < 2147483648 \<and> fits 4 (rl_tradeCount l)"

lemma return_inj:
  assumes "be_bytes 4 v = be_bytes 4 w" "- 2147483648 \<le> v" "v < 2147483648" "- 2147483648 \<le> w" "w < 2147483648"
  shows "v = w"
proof -
  have "v mod 4294967296 = w mod 4294967296" using assms(1) by (simp add: be_bytes_eq_iff)
  then have "(v + 2147483648) mod 4294967296 = (w + 2147483648) mod 4294967296" by (rule mod_add_cong) simp
  moreover have "(v + 2147483648) mod 4294967296 = v + 2147483648" "(w + 2147483648) mod 4294967296 = w + 2147483648"
    using assms by (simp_all add: mod_pos_pos_trivial)
  ultimately show ?thesis by simp
qed

text \<open>The same result for the same key, whatever text names the key.\<close>

definition same_result :: "(string \<Rightarrow> byte list option) \<Rightarrow> result_leaf \<Rightarrow> result_leaf \<Rightarrow> bool" where
  "same_result dec l l' \<longleftrightarrow> dec (rl_trader l) = dec (rl_trader l') \<and> l'\<lparr>rl_trader := rl_trader l\<rparr> = l"

lemma encodeResultLeaf_inj:
  assumes e: "encodeResultLeaf dec l = Inr b" "encodeResultLeaf dec l' = Inr b"
    and f: "result_fits l" "result_fits l'"
  shows "same_result dec l l'"
proof -
  have ok: "result_ok dec l" "result_ok dec l'" and c: "concat (result_parts dec l) = concat (result_parts dec l')"
    using e by (simp_all add: encodeResultLeaf_Inr)
  then have "result_parts dec l = result_parts dec l'"
    by (intro concat_same_widths [OF c]) (simp add: result_parts_widths)
  note p = this [unfolded result_parts_def list.inject]
  have am: "be_bytes AMOUNT_BYTES v = be_bytes AMOUNT_BYTES w \<Longrightarrow> amount_ok v \<Longrightarrow> amount_ok w \<Longrightarrow> v = w" for v w
    by (simp add: amount_ok_def be_bytes_inj)
  have "dec (rl_trader l) = dec (rl_trader l')" using p ok by (auto simp: result_ok_def)
  moreover have "rl_startingBalance l = rl_startingBalance l'" "rl_finalEquity l = rl_finalEquity l'"
    "rl_payoutLamports l = rl_payoutLamports l'"
    using p ok [unfolded result_ok_def] by (simp_all add: am)
  moreover have "rl_seasonOrdinal l = rl_seasonOrdinal l'" "rl_rank l = rl_rank l'" "rl_tradeCount l = rl_tradeCount l'"
    "rl_returnBps l = rl_returnBps l'"
  proof -
    have q: "be_bytes 2 (rl_seasonOrdinal l) = be_bytes 2 (rl_seasonOrdinal l')"
      "be_bytes 4 (rl_rank l) = be_bytes 4 (rl_rank l')" "be_bytes 4 (rl_tradeCount l) = be_bytes 4 (rl_tradeCount l')"
      "be_bytes 4 (rl_returnBps l) = be_bytes 4 (rl_returnBps l')"
      using p by simp_all
    show "rl_seasonOrdinal l = rl_seasonOrdinal l'" "rl_rank l = rl_rank l'" "rl_tradeCount l = rl_tradeCount l'"
      "rl_returnBps l = rl_returnBps l'"
      using f [unfolded result_fits_def]
      by (auto intro: ordinal_inj [OF q(1)] fits_inj [OF q(2)] fits_inj [OF q(3)] return_inj [OF q(4)])
  qed
  ultimately show ?thesis by (simp add: same_result_def)
qed

section \<open>What the rows pay\<close>

lemma map_from_distinct: "distinct (map fst ps) \<Longrightarrow> map_from ps = map_of ps"
  unfolding map_from_def by (rule map_of_inject_set [THEN iffD2]) (simp_all add: rev_map [symmetric])

lemma paid_at_place:
  assumes "map place ps = map (\<lambda>i. int i + 1) [0..<length ps]"
  shows "(case map_from (map (\<lambda>p. (place p, lamports p)) ps) (int i + 1) of None \<Rightarrow> 0 | Some x \<Rightarrow> x)
    = (if i < length ps then lamports (ps ! i) else 0)"
proof -
  have places: "place (ps ! j) = int j + 1" if "j < length ps" for j
    using arg_cong [OF assms, of "\<lambda>xs. xs ! j"] that by simp
  have d: "distinct (map fst (map (\<lambda>p. (place p, lamports p)) ps))"
    using assms by (simp add: comp_def distinct_map inj_on_def)
  then have m: "map_from (map (\<lambda>p. (place p, lamports p)) ps) = map_of (map (\<lambda>p. (place p, lamports p)) ps)"
    by (rule map_from_distinct)
  show ?thesis
  proof (cases "i < length ps")
    case True
    then have "(int i + 1, lamports (ps ! i)) \<in> set (map (\<lambda>p. (place p, lamports p)) ps)"
      using places [OF True] by (force simp: in_set_conv_nth)
    with d have "map_of (map (\<lambda>p. (place p, lamports p)) ps) (int i + 1) = Some (lamports (ps ! i))"
      by (rule map_of_is_SomeI)
    with True m show ?thesis by simp
  next
    case False
    then have "int i + 1 \<notin> fst ` set (map (\<lambda>p. (place p, lamports p)) ps)"
      using places by (auto simp: in_set_conv_nth)
    then have "map_of (map (\<lambda>p. (place p, lamports p)) ps) (int i + 1) = None" by (simp add: map_of_eq_None_iff)
    with False m show ?thesis by simp
  qed
qed

lemma sum_padded:
  "length ys \<le> n \<Longrightarrow> sum_list (map (\<lambda>i. if i < length ys then ys ! i else 0) [0..<n]) = (sum_list ys :: int)"
proof -
  assume "length ys \<le> n"
  then have "[0..<n] = [0..<length ys] @ [length ys..<n]" using upt_add_eq_append [of 0 "length ys" "n - length ys"] by simp
  moreover have "map (\<lambda>i. if i < length ys then ys ! i else 0) [0..<length ys] = ys"
    by (intro nth_equalityI) simp_all
  moreover have "map (\<lambda>i. if i < length ys then ys ! i else 0) [length ys..<n] = replicate (n - length ys) 0"
    by (intro nth_equalityI) simp_all
  then have "sum_list (map (\<lambda>i. if i < length ys then ys ! i else 0) [length ys..<n]) = 0"
    by (simp add: sum_list_replicate)
  ultimately show ?thesis by simp
qed

lemma paid_sum:
  assumes "map place ps = map (\<lambda>i. int i + 1) [0..<length ps]" "length ps \<le> length es"
  shows "sum_list (map fr_payoutLamports (rows_of lv es (season_leaves n es ps))) = sum_list (map lamports ps)"
proof -
  have "fr_payoutLamports (rows_of lv es (season_leaves n es ps) ! i)
      = (if i < length (map lamports ps) then map lamports ps ! i else 0)" if "i < length es" for i
    using that paid_at_place [OF assms(1), of i]
    by (simp add: rows_of_nth built_row_def season_leaves_nth season_ranking_nth Let_def split: if_splits)
  then have "map fr_payoutLamports (rows_of lv es (season_leaves n es ps))
      = map (\<lambda>i. if i < length (map lamports ps) then map lamports ps ! i else 0) [0..<length es]"
    by (intro nth_equalityI) simp_all
  then show ?thesis using sum_padded [of "map lamports ps" "length es"] assms(2) by simp
qed

section \<open>Properties\<close>

lemma build_parts:
  assumes "buildFinalization H dec input = Inr f"
  obtains spl hashes where
    "distribute (fi_ruleset input) (fi_potLamports input) (int (length (fi_entrants input)))
       (Some (fi_houseBaseLamports input)) = Inr spl"
    "traverse (hashResultLeaf H dec) (season_leaves (fi_seasonOrdinal input) (fi_entrants input) (d_payouts spl))
       = Inr hashes"
    "f = built H input spl hashes" "length hashes = length (fi_entrants input)"
proof -
  obtain spl hashes where p: "distribute (fi_ruleset input) (fi_potLamports input) (int (length (fi_entrants input)))
       (Some (fi_houseBaseLamports input)) = Inr spl"
    "traverse (hashResultLeaf H dec) (season_leaves (fi_seasonOrdinal input) (fi_entrants input) (d_payouts spl))
       = Inr hashes"
    "f = built H input spl hashes"
    using assms by (auto simp: buildFinalization_eq)
  with traverse_length [OF p(2)] that show thesis by simp
qed

lemma built_proofs:
  assumes t: "traverse (hashResultLeaf H dec) (season_leaves n es ps) = Inr hashes" and i: "i < length es"
  shows "proof_ok H dec n (hd (last (build_levels H hashes)))
    (rows_of (build_levels H hashes) es (season_leaves n es ps) ! i)"
proof -
  have len: "length hashes = length es" using traverse_length [OF t] by simp
  have "hashResultLeaf H dec (season_leaves n es ps ! i) = Inr (hashes ! i)"
    using traverse_nth [OF t] i by simp
  moreover have "fr_proof (rows_of (build_levels H hashes) es (season_leaves n es ps) ! i)
      = proof_path (build_levels H hashes) i"
    using i by (simp add: rows_of_nth built_row_def)
  ultimately show ?thesis
    using i len by (simp add: proof_ok_def row_leaf_built verifyProof_def path_reaches_root)
qed

lemma built_verifies:
  assumes b: "buildFinalization H dec input = Inr f"
    and hash: "rulesetHashHex H (fi_ruleset input) = Inr (fi_rulesetHash input)"
  shows "verifyFinalization H dec f (fi_ruleset input) = Inr \<lparr>vr_ok = True, vr_reason = None\<rparr>"
proof -
  let ?es = "fi_entrants input" and ?n = "fi_seasonOrdinal input"
  obtain spl hashes where d: "distribute (fi_ruleset input) (fi_potLamports input) (int (length ?es))
       (Some (fi_houseBaseLamports input)) = Inr spl"
    and t: "traverse (hashResultLeaf H dec) (season_leaves ?n ?es (d_payouts spl)) = Inr hashes"
    and f: "f = built H input spl hashes" and len: "length hashes = length ?es"
    by (rule build_parts [OF b])
  let ?leaves = "season_leaves ?n ?es (d_payouts spl)" and ?lv = "build_levels H hashes"
  have rows: "fz_rows f = rows_of ?lv ?es ?leaves" by (simp add: f built_rows)
  have same: "fz_seasonOrdinal f = ?n" "fz_rulesetHash f = fi_rulesetHash input" "fz_potLamports f = fi_potLamports input"
    "fz_houseBaseLamports f = fi_houseBaseLamports input"
    by (simp_all add: f built_def)
  define g where "g = built H (rebuild_input f (fi_ruleset input)) spl hashes"
  have again: "buildFinalization H dec (rebuild_input f (fi_ruleset input)) = Inr g"
    using d t by (simp add: buildFinalization_eq rebuild_input_def same rows rebuilt_leaves)
      (simp add: g_def rebuild_input_def same rows)
  have root: "fz_resultsRoot g = fz_resultsRoot f" by (simp add: g_def f built_def)
  have grows: "fz_rows g = rows_of ?lv (map row_entrant (fz_rows f)) ?leaves"
    by (simp add: g_def built_rows rebuild_input_def same rows rebuilt_leaves)
  have "row_agrees (fz_rows f ! i) (fz_rows g ! i)" if "i < length ?es" for i
    using that row_standings [of ?lv ?es ?leaves]
    by (simp add: grows rows rows_of_nth built_row_def row_agrees_def ordered_clean del: map_map)
  then have agree: "list_all2 row_agrees (fz_rows f) (fz_rows g)"
    by (simp add: list_all2_conv_all_nth grows rows)
  define rt where "rt = (if hashes = [] then EMPTY_SEASON_ROOT H else hd (last ?lv))"
  have "fromHex (fz_resultsRoot f) = Inr rt" by (simp add: f built_def rt_def fromHex_toHex)
  moreover have "list_all (proof_ok H dec (fz_seasonOrdinal f) rt) (fz_rows f)"
    using built_proofs [OF t] len by (auto simp: list_all_length rows same rt_def)
  ultimately show ?thesis using again root agree hash same(2) verifies_iff by metis
qed

text \<open>
  C17: a season finalized honestly verifies. Whatever entrants it had, in whatever order, the
  document built for a season passes its own verification when it names the hash of the rules
  it was split by, empty seasons and places without a prize included.
\<close>

theorem honest_finalization_verifies:
  assumes b: "buildFinalization H dec input = Inr f"
    and hash: "rulesetHashHex H (fi_ruleset input) = Inr (fi_rulesetHash input)"
  shows "verifyFinalization H dec f (fi_ruleset input) = Inr \<lparr>vr_ok = True, vr_reason = None\<rparr>"
  using assms by (rule built_verifies)


text \<open>The bytes of a row's result, and what is hashed when a claim is checked against a season.\<close>

definition row_bytes :: "(string \<Rightarrow> byte list option) \<Rightarrow> int \<Rightarrow> finalized_row \<Rightarrow> byte list" where
  "row_bytes dec n row = (case encodeResultLeaf dec (row_leaf n row) of Inl _ \<Rightarrow> [] | Inr e \<Rightarrow> e)"

definition claim_inputs ::
  "(byte list \<Rightarrow> byte list) \<Rightarrow> (string \<Rightarrow> byte list option) \<Rightarrow> finalization \<Rightarrow> byte list \<Rightarrow> proof_step list \<Rightarrow> byte list set" where
  "claim_inputs H dec f e p =
     (let es = map (row_bytes dec (fz_seasonOrdinal f)) (fz_rows f) in
      tagged RESULT_LEAF_PREFIX ` set es \<union> {tagged RESULT_LEAF_PREFIX e}
      \<union> set (node_inputs H (map (\<lambda>e. H (tagged RESULT_LEAF_PREFIX e)) es))
      \<union> set (path_inputs H (H (tagged RESULT_LEAF_PREFIX e)) p))"

lemma built_hashes:
  assumes t: "traverse (hashResultLeaf H dec) (season_leaves n es ps) = Inr hashes"
  shows "hashes = map (\<lambda>e. H (tagged RESULT_LEAF_PREFIX e))
    (map (row_bytes dec n) (rows_of lv es (season_leaves n es ps)))"
proof (rule nth_equalityI)
  show len: "length hashes = length (map (\<lambda>e. H (tagged RESULT_LEAF_PREFIX e))
    (map (row_bytes dec n) (rows_of lv es (season_leaves n es ps))))" using traverse_length [OF t] by simp
  fix i assume "i < length hashes"
  then have i: "i < length es" using len by simp
  then have "hashResultLeaf H dec (season_leaves n es ps ! i) = Inr (hashes ! i)" using traverse_nth [OF t] by simp
  with i show "hashes ! i = map (\<lambda>e. H (tagged RESULT_LEAF_PREFIX e))
    (map (row_bytes dec n) (rows_of lv es (season_leaves n es ps))) ! i"
    by (auto simp: hashResultLeaf_def row_bytes_def row_leaf_built)
qed

lemma built_row_bytes:
  assumes "traverse (hashResultLeaf H dec) (season_leaves n es ps) = Inr hashes"
    and "row \<in> set (rows_of lv es (season_leaves n es ps))"
  shows "encodeResultLeaf dec (row_leaf n row) = Inr (row_bytes dec n row)"
proof -
  obtain i where i: "i < length es" "row = rows_of lv es (season_leaves n es ps) ! i"
    using assms(2) by (auto simp: in_set_conv_nth)
  then have "hashResultLeaf H dec (row_leaf n row) = Inr (hashes ! i)"
    using traverse_nth [OF assms(1)] by (simp add: row_leaf_built)
  then show ?thesis by (auto simp: hashResultLeaf_def row_bytes_def)
qed

text \<open>
  C16: only a published result can be claimed. If a result checks against the root of a
  season that was finalized, by a proof of any length, and the hash has 32-byte digests and
  does not collide on the strings hashed to build the season's tree and to check the proof,
  then the result is one of the season's rows: the same place, key, balances, return and
  payout. An inner node, or a trade leaf, never passes for a result.
\<close>

theorem only_published_results_can_be_claimed:
  assumes b: "buildFinalization H dec input = Inr f" and some: "fz_rows f \<noteq> []"
    and rt: "fromHex (fz_resultsRoot f) = Inr rt"
    and e: "encodeResultLeaf dec l = Inr e" and p: "verifyProof H (H (tagged RESULT_LEAF_PREFIX e)) p rt"
    and ok: "sound_on H (claim_inputs H dec f e p)"
    and fits: "result_fits l" "\<And>row. row \<in> set (fz_rows f) \<Longrightarrow> result_fits (row_leaf (fz_seasonOrdinal f) row)"
  shows "\<exists>row \<in> set (fz_rows f). same_result dec (row_leaf (fz_seasonOrdinal f) row) l"
proof -
  let ?es = "fi_entrants input" and ?n = "fi_seasonOrdinal input"
  obtain spl hashes where t: "traverse (hashResultLeaf H dec) (season_leaves ?n ?es (d_payouts spl)) = Inr hashes"
    and f: "f = built H input spl hashes" and len: "length hashes = length ?es"
    by (rule build_parts [OF b])
  have rows: "fz_rows f = rows_of (build_levels H hashes) ?es (season_leaves ?n ?es (d_payouts spl))"
    by (simp add: f built_rows)
  have n: "fz_seasonOrdinal f = ?n" by (simp add: f built_def)
  have hs: "hashes = map (\<lambda>e. H (tagged RESULT_LEAF_PREFIX e)) (map (row_bytes dec ?n) (fz_rows f))"
    unfolding rows by (rule built_hashes [OF t])
  with some have ne: "hashes \<noteq> []" by auto
  then have "rt = hd (last (build_levels H hashes))" using rt by (simp add: f built_def fromHex_toHex)
  with ne have "merkleRoot H hashes = Inr rt" by (simp add: merkleRoot_def buildTree_def Let_def)
  then have "e \<in> set (map (row_bytes dec ?n) (fz_rows f))"
    using p ok [unfolded claim_inputs_def Let_def n] unfolding hs
    by (intro tagged_root_binds [of H RESULT_LEAF_PREFIX _ rt e p]) (simp_all add: RESULT_LEAF_PREFIX_def NODE_PREFIX_def)
  then obtain row where row: "row \<in> set (fz_rows f)" "e = row_bytes dec ?n row" by auto
  then have "encodeResultLeaf dec (row_leaf ?n row) = Inr e" using built_row_bytes [OF t] rows by simp
  then have "same_result dec (row_leaf ?n row) l" using e fits row(1) n by (intro encodeResultLeaf_inj) auto
  with row(1) n show ?thesis by auto
qed

text \<open>
  the split that is printed is not the split that is checked. Verification reads none of
  the house cut, the distributable amount and the list of payouts of the document: a document
  that verifies still verifies when they are replaced by anything.
\<close>

theorem printed_split_is_not_checked:
  "verifyFinalization H dec (f\<lparr>fz_houseLamports := h, fz_distributableLamports := d, fz_payouts := ps\<rparr>) r
    = verifyFinalization H dec f r"
proof -
  let ?g = "f\<lparr>fz_houseLamports := h, fz_distributableLamports := d, fz_payouts := ps\<rparr>"
  have read: "fz_seasonOrdinal ?g = fz_seasonOrdinal f" "fz_rulesetHash ?g = fz_rulesetHash f"
    "fz_resultsRoot ?g = fz_resultsRoot f" "fz_potLamports ?g = fz_potLamports f"
    "fz_houseBaseLamports ?g = fz_houseBaseLamports f" "fz_rows ?g = fz_rows f"
    by simp_all
  show ?thesis unfolding verifyFinalization_def read ..
qed

section \<open>A season\<close>

definition sample_entrants :: "entrant list" where
  "sample_entrants = map (\<lambda>s. \<lparr>en_standing = s, en_accumulator = st_trader s\<rparr>) sample_field"

definition sample_rules_hash :: string where
  "sample_rules_hash = toHex (toy_hash (concat (ruleset_parts (rulesetFor 1))))"

definition sample_season :: finalization_input where
  "sample_season = \<lparr>fi_seasonOrdinal = 1, fi_rulesetHash = sample_rules_hash, fi_ruleset = rulesetFor 1,
     fi_potLamports = 150000000, fi_houseBaseLamports = 150000000, fi_entrants = sample_entrants\<rparr>"

definition sample_split :: distribution where
  "sample_split = \<lparr>d_pot = 150000000, d_house = 0, d_distributable = 150000000,
     d_payouts = [\<lparr>place = 1, lamports = 150000000\<rparr>], d_band = \<lparr>minPotLamports = 0, sharesBps = [10000]\<rparr>,
     d_paidPlaces = 1\<rparr>"

lemma sample_split: "distribute (rulesetFor 1) 150000000 3 (Some 150000000) = Inr sample_split"
  by code_simp

definition sample_leaves :: "result_leaf list" where
  "sample_leaves = [
     \<lparr>rl_seasonOrdinal = 1, rl_rank = 1, rl_trader = ''bob'', rl_startingBalance = 10000000000,
      rl_finalEquity = 12000000001, rl_returnBps = 2000, rl_tradeCount = 3, rl_payoutLamports = 150000000\<rparr>,
     \<lparr>rl_seasonOrdinal = 1, rl_rank = 2, rl_trader = ''cid'', rl_startingBalance = 10000000000,
      rl_finalEquity = 12000000000, rl_returnBps = 2000, rl_tradeCount = 3, rl_payoutLamports = 0\<rparr>,
     \<lparr>rl_seasonOrdinal = 1, rl_rank = 3, rl_trader = ''ann'', rl_startingBalance = 10000000000,
      rl_finalEquity = 9000000000, rl_returnBps = - 1000, rl_tradeCount = 3, rl_payoutLamports = 0\<rparr>]"

lemma sample_leaves: "season_leaves 1 sample_entrants (d_payouts sample_split) = sample_leaves"
  by code_simp

lemma sample_leaf_bytes: "l \<in> set sample_leaves \<Longrightarrow> encodeResultLeaf key_of l = Inr (concat (result_parts key_of l))"
  by (auto simp: sample_leaves_def encodeResultLeaf_Inr result_ok_def key_of_def amount_ok_def AMOUNT_BYTES_def
      PUBKEY_BYTES_def)

definition sample_result_hashes :: "byte list list" where
  "sample_result_hashes = map (\<lambda>l. toy_hash (tagged RESULT_LEAF_PREFIX (concat (result_parts key_of l)))) sample_leaves"

lemma sample_result_hashes: "traverse (hashResultLeaf toy_hash key_of) sample_leaves = Inr sample_result_hashes"
  unfolding sample_result_hashes_def
  by (rule traverse_pure) (simp add: hashResultLeaf_def sample_leaf_bytes)

definition sample_final :: finalization where
  "sample_final = built toy_hash sample_season sample_split sample_result_hashes"

lemma sample_build: "buildFinalization toy_hash key_of sample_season = Inr sample_final"
proof -
  have "length sample_entrants = 3" by (simp add: sample_entrants_def sample_field_def)
  then show ?thesis
    by (simp add: buildFinalization_eq sample_season_def sample_split sample_leaves sample_result_hashes)
      (simp add: sample_final_def sample_season_def)
qed

lemma sample_rules_hash: "rulesetHashHex toy_hash (fi_ruleset sample_season) = Inr (fi_rulesetHash sample_season)"
  by (simp add: sample_season_def rulesetHashHex_def rulesetHash_def published_rules_encode sample_rules_hash_def)

theorem honest_finalization_verifies_witness:
  "verifyFinalization toy_hash key_of sample_final (rulesetFor 1) = Inr \<lparr>vr_ok = True, vr_reason = None\<rparr>"
  using honest_finalization_verifies [OF sample_build sample_rules_hash] by (simp add: sample_season_def)

lemma sample_final_verifies:
  "verifyFinalization toy_hash key_of sample_final (rulesetFor 1) = Inr \<lparr>vr_ok = True, vr_reason = None\<rparr>"
  using built_verifies [OF sample_build sample_rules_hash] by (simp add: sample_season_def)

lemma length_sample_rows [simp]: "length (fz_rows sample_final) = 3"
  by (simp add: sample_final_def built_rows sample_season_def sample_entrants_def sample_field_def)


lemma length_sample_leaves [simp]: "length sample_leaves = 3"
  by (simp add: sample_leaves_def)

lemma sample_rows_bytes:
  "map (row_bytes key_of 1) (fz_rows sample_final) = map (\<lambda>l. concat (result_parts key_of l)) sample_leaves"
proof (rule nth_equalityI)
  have n: "length (map en_standing sample_entrants) = 3" by (simp add: sample_entrants_def sample_field_def)
  show "length (map (row_bytes key_of 1) (fz_rows sample_final))
      = length (map (\<lambda>l. concat (result_parts key_of l)) sample_leaves)" by simp
  fix i assume "i < length (map (row_bytes key_of 1) (fz_rows sample_final))"
  then have i: "i < 3" by simp
  have "fz_rows sample_final = rows_of (build_levels toy_hash sample_result_hashes) sample_entrants sample_leaves"
    by (simp add: sample_final_def built_rows sample_season_def sample_leaves)
  moreover have "row_leaf 1 (rows_of (build_levels toy_hash sample_result_hashes) sample_entrants sample_leaves ! i) = sample_leaves ! i"
    using row_leaf_built [of i sample_entrants 1 _ "d_payouts sample_split"] i n by (simp add: sample_leaves)
  moreover have "sample_leaves ! i \<in> set sample_leaves" using i by (intro nth_mem) simp
  ultimately show "map (row_bytes key_of 1) (fz_rows sample_final) ! i
      = map (\<lambda>l. concat (result_parts key_of l)) sample_leaves ! i"
    using i n by (simp add: row_bytes_def sample_leaf_bytes)
qed

lemma sound_on_list:
  "distinct (map H xs) \<Longrightarrow> list_all (\<lambda>b. length (H b) = 32) xs \<Longrightarrow> S \<subseteq> set xs \<Longrightarrow> sound_on H S"
  by (auto simp: sound_on_def distinct_map list_all_iff intro: inj_on_subset)

definition sample_path :: "proof_step list" where
  "sample_path = proof_path (build_levels toy_hash sample_result_hashes) 2"

definition sample_inputs :: "byte list list" where
  "sample_inputs = map (\<lambda>l. tagged RESULT_LEAF_PREFIX (concat (result_parts key_of l))) sample_leaves
     @ node_inputs toy_hash sample_result_hashes"

lemma sample_inputs_sound: "distinct (map toy_hash sample_inputs)"
  by code_simp

lemma sample_path_inputs:
  "list_all (\<lambda>b. b \<in> set sample_inputs) (path_inputs toy_hash (sample_result_hashes ! 2) sample_path)"
  by code_simp

lemma sample_row_leaf: "row \<in> set (fz_rows sample_final) \<Longrightarrow> row_leaf 1 row \<in> set sample_leaves"
proof -
  have rows: "fz_rows sample_final = rows_of (build_levels toy_hash sample_result_hashes) sample_entrants sample_leaves"
    by (simp add: sample_final_def built_rows sample_season_def sample_leaves)
  have n: "length sample_entrants = 3" by (simp add: sample_entrants_def sample_field_def)
  assume "row \<in> set (fz_rows sample_final)"
  then obtain i where i: "i < 3" "row = rows_of (build_levels toy_hash sample_result_hashes) sample_entrants sample_leaves ! i"
    unfolding rows using n by (auto simp: in_set_conv_nth)
  then have "row_leaf 1 row = sample_leaves ! i"
    using row_leaf_built [of i sample_entrants 1 _ "d_payouts sample_split"] n by (simp add: sample_leaves)
  with i show ?thesis by simp
qed

lemma sample_claim_sound:
  "sound_on toy_hash (claim_inputs toy_hash key_of sample_final (concat (result_parts key_of (sample_leaves ! 2))) sample_path)"
proof (rule sound_on_list [OF sample_inputs_sound])
  show "list_all (\<lambda>b. length (toy_hash b) = 32) sample_inputs" by (simp add: list_all_iff toy_hash_def)
  have h2: "sample_result_hashes ! 2 = toy_hash (tagged RESULT_LEAF_PREFIX (concat (result_parts key_of (sample_leaves ! 2))))"
    by (simp add: sample_result_hashes_def)
  have o1: "fz_seasonOrdinal sample_final = 1" by (simp add: sample_final_def built_def sample_season_def)
  have hs: "map (\<lambda>e. toy_hash (tagged RESULT_LEAF_PREFIX e)) (map (\<lambda>l. concat (result_parts key_of l)) sample_leaves)
      = sample_result_hashes" by (simp add: sample_result_hashes_def)
  have "sample_leaves ! 2 \<in> set sample_leaves" by (intro nth_mem) simp
  then show "claim_inputs toy_hash key_of sample_final (concat (result_parts key_of (sample_leaves ! 2))) sample_path
      \<subseteq> set sample_inputs"
    using sample_path_inputs unfolding claim_inputs_def Let_def o1 sample_rows_bytes hs h2 [symmetric]
    by (auto simp: sample_inputs_def list_all_iff image_image)
qed

theorem only_published_results_can_be_claimed_witness:
  "\<exists>row \<in> set (fz_rows sample_final). same_result key_of (row_leaf 1 row) (sample_leaves ! 2)"
proof -
  have o1: "fz_seasonOrdinal sample_final = 1" by (simp add: sample_final_def built_def sample_season_def)
  have ne: "fz_rows sample_final \<noteq> []" using length_sample_rows by (metis list.size(3) zero_neq_numeral)
  have hne: "sample_result_hashes \<noteq> []" by (simp add: sample_result_hashes_def sample_leaves_def)
  have rt: "fromHex (fz_resultsRoot sample_final) = Inr (hd (last (build_levels toy_hash sample_result_hashes)))"
    by (simp add: sample_final_def built_def hne fromHex_toHex)
  have mem: "sample_leaves ! 2 \<in> set sample_leaves" by (intro nth_mem) simp
  have pf: "verifyProof toy_hash (toy_hash (tagged RESULT_LEAF_PREFIX (concat (result_parts key_of (sample_leaves ! 2)))))
      sample_path (hd (last (build_levels toy_hash sample_result_hashes)))"
    using path_reaches_root [of 2 sample_result_hashes toy_hash]
    by (simp add: verifyProof_def sample_path_def) (simp add: sample_result_hashes_def)
  have fits: "result_fits l" if "l \<in> set sample_leaves" for l
    using that by (auto simp: sample_leaves_def result_fits_def fits_def)
  show ?thesis
    using only_published_results_can_be_claimed [OF sample_build ne rt sample_leaf_bytes [OF mem] pf
        sample_claim_sound fits [OF mem] fits] sample_row_leaf o1 by simp
qed

end
