(* ===== verification/Ledger.thy ===== *)
theory Ledger
  imports Trading Execution Merkle Rollover
begin

text \<open>
  The tables a trade changes and every operation on them (packages/db/src/trading.ts), and
  the order path above them (app/lib/execute-trade.ts). A table is the list of its rows in
  the order of their ids. Amounts are stored as canonical digit strings; they are whole
  numbers here, so a comparison of stored text is a comparison of amounts. A transaction that
  throws rolls back: its result is \<open>Inl\<close> and carries no ledger.
\<close>

section \<open>The tables\<close>

text \<open>The columns of a season's row that the ledger reads.\<close>

record season_terms =
  te_id :: int
  te_ordinal :: int
  te_name :: string
  te_ranked :: bool
  te_startingBalance :: int
  te_latencyMs :: int
  te_maxPriceImpactBps :: int
  te_engineVersion :: int
  te_sponsorLamports :: int

record stored_account =
  acc_id :: int
  acc_seasonId :: int
  acc_user :: string
  acc_generation :: int
  acc_balance :: int
  acc_createdAt :: int
  acc_updatedAt :: int

record stored_position =
  po_id :: int
  po_accountId :: int
  po_mint :: string
  po_tokenAmount :: int
  po_costBasis :: int
  po_realizedPnl :: int
  po_openedAt :: int
  po_closedAt :: "int option"
  po_updatedAt :: int

datatype trade_source = Web | Telegram | Form | Api

record trade_write =
  tw_accountId :: int
  tw_seasonId :: int
  tw_user :: string
  tw_mint :: string
  tw_side :: side
  tw_solAmount :: int
  tw_tokenAmount :: int
  tw_fee :: int
  tw_priceImpactBps :: int
  tw_partial :: bool
  tw_poolSource :: pool_source
  tw_clickedAtSlot :: int
  tw_filledAtSlot :: int
  tw_latencyMs :: int
  tw_engineVersion :: int
  tw_source :: trade_source

record stored_trade =
  tr_id :: int
  tr_write :: trade_write
  tr_snapshotId :: int
  tr_leafHash :: string
  tr_sequence :: int
  tr_createdAt :: int

record snapshot_write =
  sw_mint :: string
  sw_solReserve :: int
  sw_tokenReserve :: int
  sw_deliverableTokens :: int
  sw_tokenDecimals :: int
  sw_feeBps :: int
  sw_source :: pool_source
  sw_slot :: int

record stored_snapshot =
  ss_id :: int
  ss_write :: snapshot_write
  ss_observedAt :: int

record ledger =
  seasons :: "season_terms list"
  accounts :: "stored_account list"
  positions :: "stored_position list"
  trades :: "stored_trade list"
  snapshots :: "stored_snapshot list"

text \<open>The id the next row of a table gets.\<close>

definition next_id :: "int list \<Rightarrow> int" where
  "next_id ids = foldl max 0 ids + 1"

section \<open>Accounts\<close>

definition FREE_PLAY_ORDINAL :: int where "FREE_PLAY_ORDINAL = - 1"

record account_view =
  av_id :: int
  av_seasonId :: int
  av_seasonOrdinal :: int
  av_user :: string
  av_generation :: int
  av_solBalance :: int
  av_startingBalance :: int
  av_latencyMs :: int
  av_maxPriceImpactBps :: int
  av_engineVersion :: int

definition season_of :: "'a ledger_scheme \<Rightarrow> int \<Rightarrow> season_terms option" where
  "season_of L i = List.find (\<lambda>s. te_id s = i) (seasons L)"

definition account_in :: "season_terms \<Rightarrow> stored_account \<Rightarrow> account_view" where
  "account_in s r = \<lparr>av_id = acc_id r, av_seasonId = acc_seasonId r, av_seasonOrdinal = te_ordinal s,
     av_user = acc_user r, av_generation = acc_generation r, av_solBalance = acc_balance r,
     av_startingBalance = te_startingBalance s, av_latencyMs = te_latencyMs s,
     av_maxPriceImpactBps = te_maxPriceImpactBps s, av_engineVersion = te_engineVersion s\<rparr>"

definition latest_account :: "'a ledger_scheme \<Rightarrow> int \<Rightarrow> string \<Rightarrow> stored_account option" where
  "latest_account L seasonId user =
     top_by acc_generation (filter (\<lambda>r. acc_seasonId r = seasonId \<and> acc_user r = user) (accounts L))"

definition accountFor :: "'a ledger_scheme \<Rightarrow> int \<Rightarrow> string \<Rightarrow> account_view option" where
  "accountFor L seasonId user = (case latest_account L seasonId user of
       None \<Rightarrow> None
     | Some r \<Rightarrow> (case season_of L (acc_seasonId r) of None \<Rightarrow> None | Some s \<Rightarrow> Some (account_in s r)))"

text \<open>
  An insert of an account, \<open>ON CONFLICT (season, user, generation) DO NOTHING\<close>.
\<close>

definition insert_account :: "int \<Rightarrow> string \<Rightarrow> int \<Rightarrow> int \<Rightarrow> int \<Rightarrow> 'a ledger_scheme \<Rightarrow> 'a ledger_scheme res" where
  "insert_account seasonId user generation balance now L =
     rbind (ensure (0 \<le> balance) Db_error) (\<lambda>_.
     if list_ex (\<lambda>r. acc_seasonId r = seasonId \<and> acc_user r = user \<and> acc_generation r = generation) (accounts L)
     then Inr L
     else Inr (L\<lparr>accounts := accounts L @ [\<lparr>acc_id = next_id (map acc_id (accounts L)), acc_seasonId = seasonId,
       acc_user = user, acc_generation = generation, acc_balance = balance, acc_createdAt = now,
       acc_updatedAt = now\<rparr>]\<rparr>))"

definition ensureFreePlaySeason :: "'a ledger_scheme \<Rightarrow> int \<times> 'a ledger_scheme" where
  "ensureFreePlaySeason L = (case List.find (\<lambda>s. te_ordinal s = FREE_PLAY_ORDINAL) (seasons L) of
       Some s \<Rightarrow> (te_id s, L)
     | None \<Rightarrow> let i = next_id (map te_id (seasons L)) in
         (i, L\<lparr>seasons := seasons L @ [\<lparr>te_id = i, te_ordinal = FREE_PLAY_ORDINAL, te_name = ''Free play'', te_ranked = False,
           te_startingBalance = 10000000000, te_latencyMs = 600, te_maxPriceImpactBps = 5000,
           te_engineVersion = 1, te_sponsorLamports = 0\<rparr>]\<rparr>))"

definition ensureAccount :: "int \<Rightarrow> string \<Rightarrow> int \<Rightarrow> 'a ledger_scheme \<Rightarrow> (account_view \<times> 'a ledger_scheme) res" where
  "ensureAccount seasonId user now L = (case season_of L seasonId of
       None \<Rightarrow> Inl Plain_error
     | Some s \<Rightarrow> (case latest_account L seasonId user of
         Some r \<Rightarrow> Inr (account_in s r, L)
       | None \<Rightarrow>
           rbind (insert_account seasonId user 0 (te_startingBalance s) now L) (\<lambda>L'.
           case latest_account L' seasonId user of
             None \<Rightarrow> Inl Plain_error
           | Some r \<Rightarrow> Inr (account_in s r, L'))))"

definition startOver :: "int \<Rightarrow> string \<Rightarrow> int \<Rightarrow> 'a ledger_scheme \<Rightarrow> (account_view \<times> 'a ledger_scheme) res" where
  "startOver seasonId user now L = (case season_of L seasonId of
       None \<Rightarrow> Inl Plain_error
     | Some s \<Rightarrow>
         rbind (ensure (te_ordinal s = FREE_PLAY_ORDINAL) Plain_error) (\<lambda>_.
         let generation = (case latest_account L seasonId user of None \<Rightarrow> - 1 | Some r \<Rightarrow> acc_generation r) + 1 in
         rbind (insert_account seasonId user generation (te_startingBalance s) now L) (\<lambda>L'.
         ensureAccount seasonId user now L')))"

section \<open>Positions\<close>

abbreviation open_in :: "int \<Rightarrow> string \<Rightarrow> stored_position \<Rightarrow> bool" where
  "open_in a m r \<equiv> po_accountId r = a \<and> po_mint r = m \<and> po_closedAt r = None"

definition openPosition :: "'a ledger_scheme \<Rightarrow> int \<Rightarrow> string \<Rightarrow> stored_position option" where
  "openPosition L accountId m = top_by po_openedAt (filter (open_in accountId m) (positions L))"

definition openPositions :: "'a ledger_scheme \<Rightarrow> int \<Rightarrow> stored_position list" where
  "openPositions L accountId = js_sort (\<lambda>l r. po_openedAt r - po_openedAt l)
     (filter (\<lambda>r. po_accountId r = accountId \<and> po_closedAt r = None \<and> po_tokenAmount r \<noteq> 0) (positions L))"

definition totalRealizedPnl :: "'a ledger_scheme \<Rightarrow> int \<Rightarrow> int" where
  "totalRealizedPnl L accountId =
     foldl (\<lambda>sum r. sum + po_realizedPnl r) 0 (filter (\<lambda>r. po_accountId r = accountId) (positions L))"

definition isRankedSeason :: "'a ledger_scheme \<Rightarrow> int \<Rightarrow> bool" where
  "isRankedSeason L seasonId = (case season_of L seasonId of None \<Rightarrow> False | Some s \<Rightarrow> te_ranked s)"

definition heldMints :: "'a ledger_scheme \<Rightarrow> string list" where
  "heldMints L = remdups (map po_mint (filter (\<lambda>r. po_closedAt r = None \<and> po_tokenAmount r \<noteq> 0) (positions L)))"

definition isSpent :: "'a ledger_scheme \<Rightarrow> int \<Rightarrow> int \<Rightarrow> bool" where
  "isSpent L accountId lowest = (case List.find (\<lambda>r. acc_id r = accountId) (accounts L) of
       None \<Rightarrow> False
     | Some r \<Rightarrow> \<not> acc_balance r \<ge> lowest
         \<and> filter (\<lambda>p. po_accountId p = accountId \<and> po_closedAt p = None \<and> po_tokenAmount p \<noteq> 0) (positions L) = [])"

definition trades_of :: "'a ledger_scheme \<Rightarrow> int \<Rightarrow> stored_trade list" where
  "trades_of L accountId = filter (\<lambda>t. tw_accountId (tr_write t) = accountId) (trades L)"

definition allTrades :: "'a ledger_scheme \<Rightarrow> int \<Rightarrow> stored_trade list" where
  "allTrades L accountId = js_sort (\<lambda>l r. if tr_sequence l \<noteq> tr_sequence r then tr_sequence l - tr_sequence r
     else tr_id l - tr_id r) (trades_of L accountId)"

definition tradeHistory :: "'a ledger_scheme \<Rightarrow> int \<Rightarrow> nat \<Rightarrow> string option \<Rightarrow> stored_trade list" where
  "tradeHistory L accountId limit m = take limit (js_sort (\<lambda>l r. tr_id r - tr_id l)
     (filter (\<lambda>t. case m of None \<Rightarrow> True | Some x \<Rightarrow> x = [] \<or> tw_mint (tr_write t) = x) (trades_of L accountId)))"

section \<open>Recording a trade\<close>

record position_write =
  pw_accountId :: int
  pw_mint :: string
  pw_tokenAmount :: int
  pw_costBasis :: int
  pw_realizedPnl :: int
  pw_closed :: bool

record trade_input =
  ti_snapshot :: snapshot_write
  ti_trade :: trade_write
  ti_position :: position_write
  ti_expectedBalance :: int
  ti_expectedTokens :: "int option"
  ti_newBalance :: int
  ti_leafHashFor :: "int \<Rightarrow> string res"
  ti_now :: int

definition put_snapshot :: "snapshot_write \<Rightarrow> int \<Rightarrow> 'a ledger_scheme \<Rightarrow> (int \<times> 'a ledger_scheme) res" where
  "put_snapshot w now L =
     rbind (ensure (0 \<le> sw_solReserve w \<and> 0 \<le> sw_tokenReserve w \<and> 0 \<le> sw_deliverableTokens w) Db_error) (\<lambda>_.
     case List.find (\<lambda>s. sw_mint (ss_write s) = sw_mint w \<and> sw_slot (ss_write s) = sw_slot w) (snapshots L) of
       Some s \<Rightarrow> Inr (ss_id s, L)
     | None \<Rightarrow> let i = next_id (map ss_id (snapshots L))
         in Inr (i, L\<lparr>snapshots := snapshots L @ [\<lparr>ss_id = i, ss_write = w, ss_observedAt = now\<rparr>]\<rparr>))"

definition next_sequence :: "'a ledger_scheme \<Rightarrow> int \<Rightarrow> int" where
  "next_sequence L accountId = foldl max 0 (map tr_sequence (trades_of L accountId)) + 1"

definition insert_trade :: "trade_write \<Rightarrow> int \<Rightarrow> string \<Rightarrow> int \<Rightarrow> int \<Rightarrow> 'a ledger_scheme \<Rightarrow> (int \<times> 'a ledger_scheme) res" where
  "insert_trade w snapshotId leaf sequence now L =
     rbind (ensure (0 \<le> tw_solAmount w \<and> 0 \<le> tw_tokenAmount w \<and> 0 \<le> tw_fee w) Db_error) (\<lambda>_.
     let i = next_id (map tr_id (trades L)) in
     Inr (i, L\<lparr>trades := trades L @ [\<lparr>tr_id = i, tr_write = w, tr_snapshotId = snapshotId, tr_leafHash = leaf,
       tr_sequence = sequence, tr_createdAt = now\<rparr>]\<rparr>))"

text \<open>\<open>UPDATE accounts \<dots> WHERE id = ? AND sol_balance = ?\<close>, and the check of the rows it hit.\<close>

definition swap_balance :: "int \<Rightarrow> int \<Rightarrow> int \<Rightarrow> int \<Rightarrow> 'a ledger_scheme \<Rightarrow> 'a ledger_scheme res" where
  "swap_balance accountId expected_balance new_balance now L =
     (let hit = (\<lambda>r. acc_id r = accountId \<and> acc_balance r = expected_balance) in
      rbind (ensure (list_ex hit (accounts L) \<longrightarrow> 0 \<le> new_balance) Db_error) (\<lambda>_.
      rbind (ensure (length (filter hit (accounts L)) = 1) (Concurrent_trade On_balance)) (\<lambda>_.
      Inr (L\<lparr>accounts := map (\<lambda>r. if hit r then r\<lparr>acc_balance := new_balance, acc_updatedAt := now\<rparr> else r)
        (accounts L)\<rparr>))))"

definition write_position :: "position_write \<Rightarrow> int \<Rightarrow> stored_position \<Rightarrow> stored_position" where
  "write_position w now r = r\<lparr>po_tokenAmount := pw_tokenAmount w, po_costBasis := pw_costBasis w,
     po_realizedPnl := pw_realizedPnl w, po_closedAt := (if pw_closed w then Some now else None),
     po_updatedAt := now\<rparr>"

definition update_position :: "position_write \<Rightarrow> stored_position \<Rightarrow> int \<Rightarrow> int \<Rightarrow> 'a ledger_scheme \<Rightarrow> 'a ledger_scheme res" where
  "update_position w existing expected_tokens now L =
     (let hit = (\<lambda>r. po_id r = po_id existing \<and> po_tokenAmount r = expected_tokens) in
      rbind (ensure (list_ex hit (positions L) \<longrightarrow> 0 \<le> pw_tokenAmount w \<and> 0 \<le> pw_costBasis w) Db_error) (\<lambda>_.
      rbind (ensure (length (filter hit (positions L)) = 1) (Concurrent_trade On_position)) (\<lambda>_.
      Inr (L\<lparr>positions := map (\<lambda>r. if hit r then write_position w now r else r) (positions L)\<rparr>))))"

definition insert_position :: "position_write \<Rightarrow> int \<Rightarrow> 'a ledger_scheme \<Rightarrow> 'a ledger_scheme res" where
  "insert_position w now L =
     rbind (ensure (0 \<le> pw_tokenAmount w \<and> 0 \<le> pw_costBasis w) Db_error) (\<lambda>_.
     rbind (ensure (\<not> list_ex (\<lambda>r. po_accountId r = pw_accountId w \<and> po_mint r = pw_mint w \<and> po_openedAt r = now)
       (positions L)) Db_error) (\<lambda>_.
     Inr (L\<lparr>positions := positions L @ [\<lparr>po_id = next_id (map po_id (positions L)),
       po_accountId = pw_accountId w, po_mint = pw_mint w, po_tokenAmount = pw_tokenAmount w,
       po_costBasis = pw_costBasis w, po_realizedPnl = pw_realizedPnl w, po_openedAt = now,
       po_closedAt = (if pw_closed w then Some now else None), po_updatedAt = now\<rparr>]\<rparr>)))"

definition put_position :: "position_write \<Rightarrow> int option \<Rightarrow> int \<Rightarrow> 'a ledger_scheme \<Rightarrow> 'a ledger_scheme res" where
  "put_position w expected_tokens now L = (case openPosition L (pw_accountId w) (pw_mint w) of
       Some existing \<Rightarrow>
         update_position w existing (case expected_tokens of None \<Rightarrow> 0 | Some t \<Rightarrow> t) now L
     | None \<Rightarrow>
         rbind (ensure (\<not> (expected_tokens \<noteq> None \<and> expected_tokens \<noteq> Some 0)) (Concurrent_trade On_position)) (\<lambda>_.
         insert_position w now L))"

definition recordTrade :: "trade_input \<Rightarrow> 'a ledger_scheme \<Rightarrow> (int \<times> int \<times> 'a ledger_scheme) res" where
  "recordTrade i L =
     rbind (put_snapshot (ti_snapshot i) (ti_now i) L) (\<lambda>(snapshotId, L1).
     let sequence = next_sequence L1 (tw_accountId (ti_trade i)) in
     rbind (ti_leafHashFor i sequence) (\<lambda>leaf.
     rbind (insert_trade (ti_trade i) snapshotId leaf sequence (ti_now i) L1) (\<lambda>(tradeId, L2).
     rbind (swap_balance (tw_accountId (ti_trade i)) (ti_expectedBalance i) (ti_newBalance i) (ti_now i) L2) (\<lambda>L3.
     rbind (put_position (ti_position i) (ti_expectedTokens i) (ti_now i) L3) (\<lambda>L4.
     Inr (tradeId, sequence, L4))))))"

section \<open>Placing an order\<close>

text \<open>
  A reading of the market: the read fails, or it resolves to a pool, if the token has one, at
  a slot. \<open>PUMPFUN_TOKEN_DECIMALS\<close> stands in for a pool that names no decimals.
\<close>

datatype market_read = Unreadable | Resolved "pool_state option" int

definition PUMPFUN_TOKEN_DECIMALS :: int where "PUMPFUN_TOKEN_DECIMALS = 6"

record trade_request =
  rq_account :: account_view
  rq_seasonId :: int
  rq_user :: string
  rq_mint :: string
  rq_side :: side
  rq_size :: int
  rq_slippageBps :: "int option"
  rq_source :: "trade_source option"
  rq_now :: int

datatype refusal =
    Not_enough_sol | Not_enough_tokens | Market_disappeared
  | Engine_rejection reject_reason | Account_rejection trading_code | Raced

record filled_trade =
  fl_tradeId :: int
  fl_sequence :: int
  fl_side :: side
  fl_mint :: string
  fl_expected :: quote
  fl_filled :: quote
  fl_slippageBps :: int
  fl_latencyMs :: int
  fl_balance :: int
  fl_position :: position
  fl_realized :: int

datatype trade_outcome =
    Trade_filled filled_trade
  | Trade_rejected refusal "quote option"
  | Trade_suspended
  | Trade_degraded
  | Trade_unlisted

definition held_state :: "account_view \<Rightarrow> stored_position option \<Rightarrow> account_state" where
  "held_state a p = \<lparr>solBalance = av_solBalance a,
     pos = (case p of None \<Rightarrow> None
       | Some r \<Rightarrow> Some \<lparr>pmint = po_mint r, ptokens = po_tokenAmount r, costBasis = po_costBasis r,
           realizedPnl = po_realizedPnl r\<rparr>)\<rparr>"

definition order_rules :: "trade_request \<Rightarrow> execution_rules" where
  "order_rules rq = \<lparr>latencyMs = av_latencyMs (rq_account rq),
     rslippageBps = (case rq_slippageBps rq of None \<Rightarrow> rslippageBps DEFAULT_RULES | Some b \<Rightarrow> b),
     maxPriceImpactBps = av_maxPriceImpactBps (rq_account rq), allowPartialFills = True\<rparr>"

definition order_leaf :: "trade_request \<Rightarrow> quote \<Rightarrow> pool_state \<Rightarrow> int \<Rightarrow> int \<Rightarrow> trade_leaf" where
  "order_leaf rq q pool clickSlot sequence = \<lparr>leaf_sequence = sequence,
     leaf_seasonOrdinal = av_seasonOrdinal (rq_account rq), leaf_trader = rq_user rq, leaf_mint = rq_mint rq,
     leaf_side = rq_side rq, leaf_solAmount = solAmount q, leaf_tokenAmount = tokenAmount q,
     leaf_feeLamports = feeLamports q, leaf_solReserve = solReserve pool, leaf_tokenReserve = tokenReserve pool,
     leaf_deliverableTokens = deliverableTokens pool, leaf_feeBps = totalFeeBps (fees pool),
     leaf_poolSource = source pool, leaf_priceImpactBps = priceImpactBps q, leaf_partial = partial q,
     leaf_clickedAtSlot = clickSlot, leaf_filledAtSlot = slot pool,
     leaf_latencyMs = av_latencyMs (rq_account rq), leaf_engineVersion = engineVersion q,
     leaf_createdAt = rq_now rq\<rparr>"

definition order_snapshot :: "trade_request \<Rightarrow> pool_state \<Rightarrow> snapshot_write" where
  "order_snapshot rq pool = \<lparr>sw_mint = rq_mint rq, sw_solReserve = solReserve pool,
     sw_tokenReserve = tokenReserve pool, sw_deliverableTokens = deliverableTokens pool,
     sw_tokenDecimals = (if tokenDecimals pool = 0 then PUMPFUN_TOKEN_DECIMALS else tokenDecimals pool),
     sw_feeBps = totalFeeBps (fees pool), sw_source = source pool, sw_slot = slot pool\<rparr>"

definition order_trade :: "trade_request \<Rightarrow> quote \<Rightarrow> pool_state \<Rightarrow> int \<Rightarrow> trade_write" where
  "order_trade rq q pool clickSlot = \<lparr>tw_accountId = av_id (rq_account rq), tw_seasonId = rq_seasonId rq,
     tw_user = rq_user rq, tw_mint = rq_mint rq, tw_side = rq_side rq, tw_solAmount = solAmount q,
     tw_tokenAmount = tokenAmount q, tw_fee = feeLamports q, tw_priceImpactBps = priceImpactBps q,
     tw_partial = partial q, tw_poolSource = source pool, tw_clickedAtSlot = clickSlot,
     tw_filledAtSlot = slot pool, tw_latencyMs = av_latencyMs (rq_account rq),
     tw_engineVersion = engineVersion q,
     tw_source = (case rq_source rq of None \<Rightarrow> Web | Some s \<Rightarrow> s)\<rparr>"

definition next_position :: "fill_application \<Rightarrow> string \<Rightarrow> position" where
  "next_position f m = (case pos (account f) of None \<Rightarrow> emptyPosition m | Some p \<Rightarrow> p)"

definition order_position :: "trade_request \<Rightarrow> fill_application \<Rightarrow> position_write" where
  "order_position rq f = (let p = next_position f (rq_mint rq) in
     \<lparr>pw_accountId = av_id (rq_account rq), pw_mint = rq_mint rq, pw_tokenAmount = ptokens p,
      pw_costBasis = costBasis p, pw_realizedPnl = realizedPnl p, pw_closed = closed f\<rparr>)"

definition order_write :: "(byte list \<Rightarrow> byte list) \<Rightarrow> (string \<Rightarrow> byte list option) \<Rightarrow> trade_request
    \<Rightarrow> stored_position option \<Rightarrow> quote \<Rightarrow> fill_application \<Rightarrow> pool_state \<Rightarrow> int \<Rightarrow> trade_input" where
  "order_write H dec rq p q f pool clickSlot = \<lparr>ti_snapshot = order_snapshot rq pool,
     ti_trade = order_trade rq q pool clickSlot, ti_position = order_position rq f,
     ti_expectedBalance = av_solBalance (rq_account rq), ti_expectedTokens = map_option po_tokenAmount p,
     ti_newBalance = solBalance (account f),
     ti_leafHashFor = (\<lambda>sequence. rbind (hashLeaf H dec (order_leaf rq q pool clickSlot sequence)) (\<lambda>h. Inr (toHex h))),
     ti_now = rq_now rq\<rparr>"

text \<open>
  Everything before the write: \<open>Inl\<close> a refusal, or what to write and what the trader is told
  once it is written. The position is the row read after the wait.
\<close>

definition decide_order :: "(byte list \<Rightarrow> byte list) \<Rightarrow> (string \<Rightarrow> byte list option) \<Rightarrow> bool \<Rightarrow> trade_request
    \<Rightarrow> market_read \<Rightarrow> market_read \<Rightarrow> stored_position option \<Rightarrow> (trade_outcome + trade_input \<times> filled_trade) res" where
  "decide_order H dec suspended rq click fill p =
     (if suspended then Inr (Inl Trade_suspended)
      else case click of
        Unreadable \<Rightarrow> Inr (Inl Trade_degraded)
      | Resolved None _ \<Rightarrow> Inr (Inl Trade_unlisted)
      | Resolved (Some clickPool) clickSlot \<Rightarrow> (case fill of
          Unreadable \<Rightarrow> Inr (Inl Trade_degraded)
        | Resolved None _ \<Rightarrow> Inr (Inl (Trade_rejected Market_disappeared None))
        | Resolved (Some pool) _ \<Rightarrow>
            let st = held_state (rq_account rq) p in
            if rq_side rq = Buy \<and> rq_size rq > solBalance st then Inr (Inl (Trade_rejected Not_enough_sol None))
            else if rq_side rq = Sell \<and> rq_size rq > (case pos st of None \<Rightarrow> 0 | Some x \<Rightarrow> ptokens x)
            then Inr (Inl (Trade_rejected Not_enough_tokens None))
            else rbind (simulateFill \<lparr>rside = rq_side rq, rsize = rq_size rq, atClick = clickPool, atFill = pool,
                          rules = order_rules rq\<rparr>) (\<lambda>outcome.
              case outcome of
                Rejected reason shown \<Rightarrow> Inr (Inl (Trade_rejected (Engine_rejection reason) shown))
              | Filled fo \<Rightarrow> (case applyFill st (fquote fo) (rq_mint rq) of
                  Inl (Trading_error c) \<Rightarrow> Inr (Inl (Trade_rejected (Account_rejection c) None))
                | Inl e \<Rightarrow> Inl e
                | Inr f \<Rightarrow> Inr (Inr (order_write H dec rq p (fquote fo) f pool clickSlot,
                    \<lparr>fl_tradeId = 0, fl_sequence = 0, fl_side = rq_side rq, fl_mint = rq_mint rq,
                     fl_expected = expected fo, fl_filled = fquote fo, fl_slippageBps = fslippageBps fo,
                     fl_latencyMs = flatencyMs fo, fl_balance = solBalance (account f),
                     fl_position = next_position f (rq_mint rq), fl_realized = realized f\<rparr>))))))"

text \<open>
  The order: the account was read at some earlier time (it travels in the request), the
  position in the ledger \<open>seen\<close> after the wait, and the write lands in the ledger \<open>L\<close>, with
  whatever other orders did in between.
\<close>

definition executeTrade :: "(byte list \<Rightarrow> byte list) \<Rightarrow> (string \<Rightarrow> byte list option) \<Rightarrow> bool \<Rightarrow> trade_request
    \<Rightarrow> market_read \<Rightarrow> market_read \<Rightarrow> 'a ledger_scheme \<Rightarrow> 'a ledger_scheme \<Rightarrow> (trade_outcome \<times> 'a ledger_scheme) res" where
  "executeTrade H dec suspended rq click fill seen L =
     rbind (decide_order H dec suspended rq click fill (openPosition seen (av_id (rq_account rq)) (rq_mint rq))) (\<lambda>d.
     case d of
       Inl refused \<Rightarrow> Inr (refused, L)
     | Inr (w, told) \<Rightarrow> (case recordTrade w L of
         Inl (Concurrent_trade _) \<Rightarrow> Inr (Trade_rejected Raced None, L)
       | Inl e \<Rightarrow> Inl e
       | Inr (i, sequence, L') \<Rightarrow> Inr (Trade_filled (told\<lparr>fl_tradeId := i, fl_sequence := sequence\<rparr>), L')))"

section \<open>What a recorded trade leaves behind\<close>

lemma update_one:
  assumes "distinct (map key xs)" "e \<in> set xs"
  shows "\<exists>ys zs. xs = ys @ e # zs \<and> e \<notin> set ys \<union> set zs
    \<and> (\<forall>P f. map (\<lambda>r. if key r = key e \<and> P r then f r else r) xs = ys @ (if P e then f e else e) # zs)
    \<and> (\<forall>P. filter (\<lambda>r. key r = key e \<and> P r) xs = (if P e then [e] else []))"
proof -
  obtain ys zs where s: "xs = ys @ e # zs" using assms(2) by (auto dest: split_list)
  have "key e \<notin> key ` set ys" "key e \<notin> key ` set zs" using assms(1) by (simp_all add: s)
  then have o: "key y \<noteq> key e" if "y \<in> set ys \<union> set zs" for y
    using that by (metis Un_iff imageI)
  then have "map (\<lambda>r. if key r = key e \<and> P r then f r else r) ys = ys"
    "map (\<lambda>r. if key r = key e \<and> P r then f r else r) zs = zs"
    "filter (\<lambda>r. key r = key e \<and> P r) ys = []" "filter (\<lambda>r. key r = key e \<and> P r) zs = []" for P f
    by (auto intro!: map_idI simp: filter_empty_conv)
  then have "map (\<lambda>r. if key r = key e \<and> P r then f r else r) xs = ys @ (if P e then f e else e) # zs"
    "filter (\<lambda>r. key r = key e \<and> P r) xs = (if P e then [e] else [])" for P f
    unfolding s by simp_all
  moreover have "e \<notin> set ys \<union> set zs" using o by blast
  ultimately show ?thesis using s by blast
qed

lemma next_id_fresh: "x \<in> set xs \<Longrightarrow> x < next_id xs"
proof -
  have "(\<forall>x \<in> set xs. x \<le> foldl max a xs) \<and> a \<le> foldl max a xs" for a :: int
  proof (induction xs arbitrary: a)
    case (Cons x xs)
    from Cons.IH [of "max a x"] show ?case by auto
  qed simp
  then show "x \<in> set xs \<Longrightarrow> x < next_id xs" by (auto simp: next_id_def less_le_trans zle_add1_eq_le)
qed

lemma next_id_new: "next_id xs \<notin> set xs"
  using next_id_fresh by force

definition held :: "'a ledger_scheme \<Rightarrow> int \<Rightarrow> string \<Rightarrow> int" where
  "held L a m = sum_list (map po_tokenAmount (filter (open_in a m) (positions L)))"

text \<open>The shape the tables keep: ids are keys, at most one position is open per account and token.\<close>

definition wf_ledger :: "'a ledger_scheme \<Rightarrow> bool" where
  "wf_ledger L \<longleftrightarrow> distinct (map acc_id (accounts L)) \<and> distinct (map po_id (positions L))
     \<and> (\<forall>a m. length (filter (open_in a m) (positions L)) \<le> 1)
     \<and> (\<forall>t \<in> set (trades L). tw_accountId (tr_write t) \<in> acc_id ` set (accounts L))
     \<and> (\<forall>p \<in> set (positions L). po_accountId p \<in> acc_id ` set (accounts L))"

lemma put_snapshot_Inr [elim]:
  "put_snapshot w now L = Inr (i, L') \<Longrightarrow>
     \<exists>ss. L' = L\<lparr>snapshots := ss\<rparr>"
  by (auto simp: put_snapshot_def Let_def split: option.splits) (metis ledger.surjective ledger.update_convs(5))

lemma swap_balance_Inr:
  assumes "swap_balance a b n now L = Inr L'" "distinct (map acc_id (accounts L))"
  obtains r ys zs where "accounts L = ys @ r # zs" "acc_id r = a" "acc_balance r = b" "0 \<le> n"
    "L' = L\<lparr>accounts := ys @ r\<lparr>acc_balance := n, acc_updatedAt := now\<rparr> # zs\<rparr>"
proof -
  define hit where "hit = (\<lambda>r :: stored_account. acc_id r = a \<and> acc_balance r = b)"
  from assms(1) have one: "length (filter hit (accounts L)) = 1"
    and n: "list_ex hit (accounts L) \<longrightarrow> 0 \<le> n"
    and L': "L' = L\<lparr>accounts := map (\<lambda>r. if hit r then r\<lparr>acc_balance := n, acc_updatedAt := now\<rparr> else r) (accounts L)\<rparr>"
    by (auto simp: swap_balance_def Let_def hit_def)
  from one have "filter hit (accounts L) \<noteq> []" by auto
  then obtain r where r: "r \<in> set (accounts L)" "acc_id r = a" "acc_balance r = b"
    by (auto simp: filter_empty_conv hit_def)
  from update_one [OF assms(2) r(1)] obtain ys zs where s: "accounts L = ys @ r # zs"
    "\<And>P f. map (\<lambda>x. if acc_id x = acc_id r \<and> P x then f x else x) (accounts L) = ys @ (if P r then f r else r) # zs"
    by blast
  have "0 \<le> n" using n r by (auto simp: list_ex_iff hit_def)
  moreover have "map (\<lambda>x. if hit x then x\<lparr>acc_balance := n, acc_updatedAt := now\<rparr> else x) (accounts L)
      = ys @ r\<lparr>acc_balance := n, acc_updatedAt := now\<rparr> # zs"
    using s(2) [of "\<lambda>x. acc_balance x = b" "\<lambda>x. x\<lparr>acc_balance := n, acc_updatedAt := now\<rparr>"] r
    by (simp add: hit_def)
  ultimately show thesis using that [OF s(1) r(2,3)] L' by simp
qed

lemma openPosition_SomeD:
  "openPosition L a m = Some e \<Longrightarrow> e \<in> set (positions L) \<and> po_accountId e = a \<and> po_mint e = m \<and> po_closedAt e = None"
  by (auto simp: openPosition_def dest: top_by_in)

lemma openPosition_None: "openPosition L a m = None \<longleftrightarrow> filter (open_in a m) (positions L) = []"
  by (simp add: openPosition_def)

lemma put_position_Inr:
  assumes "put_position w e now L = Inr L'" "distinct (map po_id (positions L))"
  obtains (update) r ys zs where "positions L = ys @ r # zs" "open_in (pw_accountId w) (pw_mint w) r"
      "po_tokenAmount r = (case e of None \<Rightarrow> 0 | Some t \<Rightarrow> t)"
      "L' = L\<lparr>positions := ys @ write_position w now r # zs\<rparr>"
  | (insert) p where "filter (open_in (pw_accountId w) (pw_mint w)) (positions L) = []" "e = None \<or> e = Some 0"
      "po_accountId p = pw_accountId w" "po_mint p = pw_mint w" "po_tokenAmount p = pw_tokenAmount w"
      "po_closedAt p = (if pw_closed w then Some now else None)" "po_id p = next_id (map po_id (positions L))"
      "L' = L\<lparr>positions := positions L @ [p]\<rparr>"
proof (cases "openPosition L (pw_accountId w) (pw_mint w)")
  case None
  then have none: "filter (open_in (pw_accountId w) (pw_mint w)) (positions L) = []" by (simp add: openPosition_None)
  from None assms(1) have e: "e = None \<or> e = Some 0"
    and i: "insert_position w now L = Inr L'"
    by (auto simp: put_position_def)
  show thesis by (rule insert [OF none e]) (use i in \<open>auto simp: insert_position_def\<close>)
next
  case (Some r)
  define exp_tokens where "exp_tokens = (case e of None \<Rightarrow> 0 | Some t \<Rightarrow> t)"
  define hit where "hit = (\<lambda>x :: stored_position. po_id x = po_id r \<and> po_tokenAmount x = exp_tokens)"
  from Some assms(1) have one: "length (filter hit (positions L)) = 1"
    and L': "L' = L\<lparr>positions := map (\<lambda>x. if hit x then write_position w now x else x) (positions L)\<rparr>"
    by (auto simp: put_position_def update_position_def Let_def hit_def exp_tokens_def)
  have r: "r \<in> set (positions L)" "open_in (pw_accountId w) (pw_mint w) r"
    using openPosition_SomeD [OF Some] by simp_all
  from update_one [OF assms(2) r(1)] obtain ys zs where s: "positions L = ys @ r # zs"
    "\<And>P f. map (\<lambda>x. if po_id x = po_id r \<and> P x then f x else x) (positions L) = ys @ (if P r then f r else r) # zs"
    "\<And>P. filter (\<lambda>x. po_id x = po_id r \<and> P x) (positions L) = (if P r then [r] else [])"
    by blast
  have t: "po_tokenAmount r = exp_tokens"
    using one s(3) [of "\<lambda>x. po_tokenAmount x = exp_tokens"] by (auto simp: hit_def split: if_splits)
  have "map (\<lambda>x. if hit x then write_position w now x else x) (positions L) = ys @ write_position w now r # zs"
    using s(2) [of "\<lambda>x. po_tokenAmount x = exp_tokens" "write_position w now"] t by (simp add: hit_def)
  then show thesis using update [OF s(1) r(2)] t L' by (simp add: exp_tokens_def)
qed

section \<open>Trading one account after another's order\<close>

text \<open>
  The reference: an account is a balance and what it holds of each token, and trades happen
  one at a time. A trade that cannot be afforded has no result.
\<close>

type_synonym holdings = "int \<times> (string \<Rightarrow> int)"

definition replay_trade :: "holdings \<Rightarrow> trade_write \<Rightarrow> holdings option" where
  "replay_trade s t = (case s of (b, h) \<Rightarrow> (case tw_side t of
       Buy \<Rightarrow> if tw_solAmount t \<le> b
              then Some (b - tw_solAmount t, h(tw_mint t := h (tw_mint t) + tw_tokenAmount t)) else None
     | Sell \<Rightarrow> if tw_tokenAmount t \<le> h (tw_mint t)
              then Some (b + tw_solAmount t, h(tw_mint t := h (tw_mint t) - tw_tokenAmount t)) else None))"

fun replay :: "holdings \<Rightarrow> trade_write list \<Rightarrow> holdings option" where
  "replay s [] = Some s"
| "replay s (t # ts) = (case replay_trade s t of None \<Rightarrow> None | Some s' \<Rightarrow> replay s' ts)"

lemma replay_append: "replay s (ts @ us) = (case replay s ts of None \<Rightarrow> None | Some s' \<Rightarrow> replay s' us)"
  by (induction ts arbitrary: s) (auto split: option.splits)

text \<open>What an order writes agrees with what it read: it moves the balance and the holding it expects.\<close>

definition sound_input :: "trade_input \<Rightarrow> bool" where
  "sound_input i \<longleftrightarrow> (let t = ti_trade i; w = ti_position i; e = (case ti_expectedTokens i of None \<Rightarrow> 0 | Some x \<Rightarrow> x) in
     pw_accountId w = tw_accountId t \<and> pw_mint w = tw_mint t
     \<and> (pw_closed w \<longrightarrow> pw_tokenAmount w = 0)
     \<and> (case tw_side t of
          Buy \<Rightarrow> tw_solAmount t \<le> ti_expectedBalance i \<and> ti_newBalance i = ti_expectedBalance i - tw_solAmount t
            \<and> pw_tokenAmount w = e + tw_tokenAmount t
        | Sell \<Rightarrow> tw_tokenAmount t \<le> e \<and> ti_newBalance i = ti_expectedBalance i + tw_solAmount t
            \<and> pw_tokenAmount w = e - tw_tokenAmount t))"

lemma replay_sound:
  assumes "sound_input i" "h (tw_mint (ti_trade i)) = (case ti_expectedTokens i of None \<Rightarrow> 0 | Some x \<Rightarrow> x)"
  shows "replay_trade (ti_expectedBalance i, h) (ti_trade i)
    = Some (ti_newBalance i, h(tw_mint (ti_trade i) := pw_tokenAmount (ti_position i)))"
  using assms by (auto simp: sound_input_def replay_trade_def Let_def split: side.splits)

lemma quote_side_side: "quote_side p s n = Inr q \<Longrightarrow> qside q = s"
  by (cases s) (auto simp: quote_side_def quoteBuy_def quoteSell_def Let_def split: if_splits)

lemma simulateFill_side:
  assumes "simulateFill r = Inr (Filled f)"
  shows "qside (fquote f) = rside r"
  using assms quote_side_side by (auto simp: simulateFill_def split: if_splits sum.splits error.splits)

lemma apply_sound:
  assumes "applyFill (held_state a p) q m = Inr f" and "\<And>r. p = Some r \<Longrightarrow> po_mint r = m"
  shows "(closed f \<longrightarrow> ptokens (next_position f m) = 0)
    \<and> (let e = (case p of None \<Rightarrow> 0 | Some r \<Rightarrow> po_tokenAmount r) in
       case qside q of
         Buy \<Rightarrow> solAmount q \<le> av_solBalance a \<and> solBalance (account f) = av_solBalance a - solAmount q
           \<and> ptokens (next_position f m) = e + tokenAmount q
       | Sell \<Rightarrow> tokenAmount q \<le> e \<and> solBalance (account f) = av_solBalance a + solAmount q
           \<and> ptokens (next_position f m) = e - tokenAmount q)"
proof (cases "qside q")
  case Buy
  with assms show ?thesis
    by (cases p) (auto simp: applyFill_def applyBuy_def held_state_def next_position_def emptyPosition_def Let_def)
next
  case Sell
  with assms(1) have s: "applySell (held_state a p) q m = Inr f" by (simp add: applyFill_def)
  then show ?thesis
  proof (cases rule: applySell_Inr)
    case (1 x c)
    then obtain r where "p = Some r" "ptokens x = po_tokenAmount r" by (auto simp: held_state_def split: option.splits)
    with 1 Sell show ?thesis by (simp add: held_state_def next_position_def)
  qed
qed

lemma decide_sound:
  assumes "decide_order H dec suspended rq click fill p = Inr (Inr (w, told))"
    and "\<And>r. p = Some r \<Longrightarrow> po_mint r = rq_mint rq"
  shows "sound_input w"
proof -
  from assms(1) obtain pool slot r fo f where sim: "simulateFill r = Inr (Filled fo)" "rside r = rq_side rq"
    and f: "applyFill (held_state (rq_account rq) p) (fquote fo) (rq_mint rq) = Inr f"
    and w: "w = order_write H dec rq p (fquote fo) f pool slot"
    by (fastforce simp: decide_order_def Let_def split: if_splits market_read.splits option.splits
        fill_outcome.splits sum.splits error.splits)
  show ?thesis
    using apply_sound [OF f assms(2)] simulateFill_side [OF sim(1)] sim(2)
    by (cases p) (auto simp: w sound_input_def order_write_def order_trade_def order_position_def Let_def
        split: side.splits)
qed

section \<open>The books are explained by the log\<close>

definition opened_with :: "'a ledger_scheme \<Rightarrow> stored_account \<Rightarrow> int" where
  "opened_with L r = (case season_of L (acc_seasonId r) of None \<Rightarrow> 0 | Some s \<Rightarrow> te_startingBalance s)"

definition log_of :: "'a ledger_scheme \<Rightarrow> int \<Rightarrow> trade_write list" where
  "log_of L a = map tr_write (trades_of L a)"

definition explained :: "'a ledger_scheme \<Rightarrow> stored_account \<Rightarrow> bool" where
  "explained L r \<longleftrightarrow> replay (opened_with L r, \<lambda>_. 0) (log_of L (acc_id r)) = Some (acc_balance r, held L (acc_id r))
     \<and> map tr_sequence (trades_of L (acc_id r)) = map (\<lambda>i. int i + 1) [0..<length (trades_of L (acc_id r))]"

definition sound_ledger :: "'a ledger_scheme \<Rightarrow> bool" where
  "sound_ledger L \<longleftrightarrow> wf_ledger L \<and> (\<forall>r \<in> set (accounts L). season_of L (acc_seasonId r) \<noteq> None \<and> explained L r)"

lemma held_open:
  assumes "length (filter (open_in a m) (positions L)) \<le> 1" "positions L = ys @ r # zs" "open_in a m r"
  shows "filter (open_in a m) ys = []" "filter (open_in a m) zs = []" "held L a m = po_tokenAmount r"
proof -
  show f: "filter (open_in a m) ys = []" "filter (open_in a m) zs = []"
    using assms by (auto simp: le_Suc_eq)
  show "held L a m = po_tokenAmount r" using f assms(3) by (simp add: held_def assms(2))
qed

lemma held_swap [simp]: "held (L\<lparr>accounts := as\<rparr>) = held L" "held (L\<lparr>trades := ts\<rparr>) = held L"
  "held (L\<lparr>snapshots := ss\<rparr>) = held L"
  by (simp_all add: held_def fun_eq_iff)

text \<open>A written position holds what the order expected, and changes no other holding.\<close>

lemma put_position_held:
  assumes "put_position w e now L = Inr L'" "wf_ledger L" "pw_closed w \<longrightarrow> pw_tokenAmount w = 0"
  shows "held L (pw_accountId w) (pw_mint w) = (case e of None \<Rightarrow> 0 | Some t \<Rightarrow> t)"
    and "held L' a m = (if a = pw_accountId w \<and> m = pw_mint w then pw_tokenAmount w else held L a m)"
    and "length (filter (open_in a m) (positions L')) \<le> 1"
    and "\<exists>ps. L' = L\<lparr>positions := ps\<rparr> \<and> distinct (map po_id ps)
      \<and> po_accountId ` set ps \<subseteq> insert (pw_accountId w) (po_accountId ` set (positions L))"
proof -
  let ?a = "pw_accountId w" and ?m = "pw_mint w"
  have wf: "length (filter (open_in a m) (positions L)) \<le> 1" "distinct (map po_id (positions L))" for a m
    using assms(2) by (auto simp: wf_ledger_def)
  from assms(1) wf(2) have all: "held L ?a ?m = (case e of None \<Rightarrow> 0 | Some t \<Rightarrow> t)
    \<and> held L' a m = (if a = ?a \<and> m = ?m then pw_tokenAmount w else held L a m)
    \<and> length (filter (open_in a m) (positions L')) \<le> 1
    \<and> (\<exists>ps. L' = L\<lparr>positions := ps\<rparr> \<and> distinct (map po_id ps)
      \<and> po_accountId ` set ps \<subseteq> insert ?a (po_accountId ` set (positions L)))"
  proof (cases rule: put_position_Inr)
    case (update r ys zs)
    note none = held_open [OF wf(1) update(1,2)]
    have r: "po_accountId r = ?a" "po_mint r = ?m" "po_closedAt r = None" using update(2) by simp_all
    have "held L' a m = (if a = ?a \<and> m = ?m then pw_tokenAmount w else held L a m)
      \<and> length (filter (open_in a m) (positions L')) \<le> 1"
    proof (cases "a = ?a \<and> m = ?m")
      case True
      with none(1,2) r assms(3) show ?thesis by (simp add: held_def update(4) write_position_def)
    next
      case False
      then have "filter (open_in a m) (positions L') = filter (open_in a m) (positions L)"
        using r by (auto simp: update(1,4) write_position_def)
      with False wf(1) [of a m] show ?thesis by (auto simp: held_def)
    qed
    moreover have ids: "map po_id (ys @ write_position w now r # zs) = map po_id (positions L)"
      "po_accountId ` set (ys @ write_position w now r # zs) = po_accountId ` set (positions L)"
      by (simp_all add: update(1) write_position_def)
    from ids have "\<exists>ps. L' = L\<lparr>positions := ps\<rparr> \<and> distinct (map po_id ps)
        \<and> po_accountId ` set ps \<subseteq> insert ?a (po_accountId ` set (positions L))"
      using update(4) wf(2) by (intro exI [of _ "ys @ write_position w now r # zs"]) (metis subset_insertI)
    moreover have "held L ?a ?m = (case e of None \<Rightarrow> 0 | Some t \<Rightarrow> t)" using none(3) update(3) by simp
    ultimately show ?thesis by blast
  next
    case (insert p)
    have "held L ?a ?m = 0" using insert(1) by (simp add: held_def)
    moreover have "held L' a m = (if a = ?a \<and> m = ?m then pw_tokenAmount w else held L a m)"
      using insert assms(3) by (auto simp: held_def)
    moreover have "length (filter (open_in a m) (positions L')) \<le> 1"
      using wf(1) [of a m] insert by auto
    moreover have "distinct (map po_id (positions L @ [p]))"
      using wf(2) next_id_new [of "map po_id (positions L)"] insert(7) by simp
    then have "\<exists>ps. L' = L\<lparr>positions := ps\<rparr> \<and> distinct (map po_id ps)
        \<and> po_accountId ` set ps \<subseteq> insert ?a (po_accountId ` set (positions L))"
      using insert(3,8) by (intro exI [of _ "positions L @ [p]"]) auto
    moreover have "(case e of None \<Rightarrow> 0 | Some t \<Rightarrow> t) = (0 :: int)" using insert(2) by auto
    ultimately show ?thesis by presburger
  qed
  then show "held L ?a ?m = (case e of None \<Rightarrow> 0 | Some t \<Rightarrow> t)"
    "held L' a m = (if a = ?a \<and> m = ?m then pw_tokenAmount w else held L a m)"
    "length (filter (open_in a m) (positions L')) \<le> 1"
    "\<exists>ps. L' = L\<lparr>positions := ps\<rparr> \<and> distinct (map po_id ps)
      \<and> po_accountId ` set ps \<subseteq> insert ?a (po_accountId ` set (positions L))"
    by blast+
qed

lemma foldl_max_upt: "foldl max 0 (map (\<lambda>i. int i + 1) [0..<n]) = int n"
  by (induction n) auto

lemma recordTrade_InrE:
  assumes "recordTrade i L = Inr (tid, sequence, L')" "distinct (map acc_id (accounts L))"
  obtains ss t r ys zs L3 where
    "accounts L = ys @ r # zs" "acc_id r = tw_accountId (ti_trade i)" "acc_balance r = ti_expectedBalance i"
    "tr_write t = ti_trade i" "tr_sequence t = next_sequence L (tw_accountId (ti_trade i))"
    "sequence = tr_sequence t" "ti_leafHashFor i sequence = Inr (tr_leafHash t)" "0 \<le> ti_newBalance i"
    "L3 = L\<lparr>snapshots := ss, trades := trades L @ [t],
       accounts := ys @ r\<lparr>acc_balance := ti_newBalance i, acc_updatedAt := ti_now i\<rparr> # zs\<rparr>"
    "put_position (ti_position i) (ti_expectedTokens i) (ti_now i) L3 = Inr L'"
proof -
  from assms(1) obtain sid L1 leaf L2 L3 where
      p: "put_snapshot (ti_snapshot i) (ti_now i) L = Inr (sid, L1)"
    and sq: "sequence = next_sequence L1 (tw_accountId (ti_trade i))"
    and leaf: "ti_leafHashFor i sequence = Inr leaf"
    and t: "insert_trade (ti_trade i) sid leaf sequence (ti_now i) L1 = Inr (tid, L2)"
    and b: "swap_balance (tw_accountId (ti_trade i)) (ti_expectedBalance i) (ti_newBalance i) (ti_now i) L2 = Inr L3"
    and w: "put_position (ti_position i) (ti_expectedTokens i) (ti_now i) L3 = Inr L'"
    by (auto simp: recordTrade_def Let_def)
  from p obtain ss where L1: "L1 = L\<lparr>snapshots := ss\<rparr>" by (auto dest: put_snapshot_Inr)
  from t obtain t where L2: "L2 = L1\<lparr>trades := trades L @ [t]\<rparr>" "tr_write t = ti_trade i"
      "tr_sequence t = sequence" "tr_leafHash t = leaf"
    by (auto simp: insert_trade_def Let_def L1)
  have sq': "sequence = next_sequence L (tw_accountId (ti_trade i))"
    by (simp add: sq L1 next_sequence_def trades_of_def)
  have "distinct (map acc_id (accounts L2))" using assms(2) by (simp add: L1 L2(1))
  with b show thesis
  proof (cases rule: swap_balance_Inr)
    case (1 r ys zs)
    show thesis
      by (rule that [of ys r zs t L3 ss, OF _ 1(2,3) L2(2) _ _ _ 1(4) _ w])
        (use 1 L2 sq' leaf in \<open>simp_all add: L1\<close>)
  qed
qed

lemma season_of_swap [simp]: "season_of (L\<lparr>accounts := as\<rparr>) = season_of L" "season_of (L\<lparr>trades := ts\<rparr>) = season_of L"
  "season_of (L\<lparr>snapshots := ss\<rparr>) = season_of L" "season_of (L\<lparr>positions := ps\<rparr>) = season_of L"
  by (simp_all add: season_of_def fun_eq_iff)

lemma trades_of_swap [simp]: "trades_of (L\<lparr>accounts := as\<rparr>) = trades_of L"
  "trades_of (L\<lparr>snapshots := ss\<rparr>) = trades_of L" "trades_of (L\<lparr>positions := ps\<rparr>) = trades_of L"
  "trades_of (L\<lparr>trades := ts @ [t]\<rparr>) a
     = filter (\<lambda>t. tw_accountId (tr_write t) = a) ts @ (if tw_accountId (tr_write t) = a then [t] else [])"
  by (simp_all add: trades_of_def fun_eq_iff)

text \<open>Everything a recorded trade changes, on tables of the right shape.\<close>

lemma recordTrade_effect:
  assumes rec: "recordTrade i L = Inr (tid, sequence, L')" and wf: "wf_ledger L" and i: "sound_input i"
  obtains t r r' ys zs ss ps where
    "accounts L = ys @ r # zs" "acc_id r = tw_accountId (ti_trade i)" "acc_balance r = ti_expectedBalance i"
    "r' = r\<lparr>acc_balance := ti_newBalance i, acc_updatedAt := ti_now i\<rparr>"
    "tr_write t = ti_trade i" "tr_sequence t = next_sequence L (tw_accountId (ti_trade i))"
    "L' = L\<lparr>accounts := ys @ r' # zs, positions := ps, trades := trades L @ [t], snapshots := ss\<rparr>" "wf_ledger L'"
    "held L (tw_accountId (ti_trade i)) (tw_mint (ti_trade i)) = (case ti_expectedTokens i of None \<Rightarrow> 0 | Some x \<Rightarrow> x)"
    "\<And>a m. held L' a m = (if a = tw_accountId (ti_trade i) \<and> m = tw_mint (ti_trade i)
       then pw_tokenAmount (ti_position i) else held L a m)"
proof -
  let ?a = "tw_accountId (ti_trade i)" and ?m = "tw_mint (ti_trade i)"
  have d: "distinct (map acc_id (accounts L))" using wf by (simp add: wf_ledger_def)
  from rec d show thesis
  proof (cases rule: recordTrade_InrE)
    case (1 ss t r ys zs L3)
    have acc: "map acc_id (accounts L3) = map acc_id (accounts L)" by (simp add: 1(1,9))
    then have accs: "acc_id ` set (accounts L3) = acc_id ` set (accounts L)" by (metis list.set_map)
    have wf3: "wf_ledger L3"
      using wf 1(1,2,4) accs acc by (auto simp: wf_ledger_def 1(9))
    have pw: "pw_accountId (ti_position i) = ?a" "pw_mint (ti_position i) = ?m"
      "pw_closed (ti_position i) \<longrightarrow> pw_tokenAmount (ti_position i) = 0"
      using i by (auto simp: sound_input_def Let_def)
    note put = put_position_held [OF 1(10) wf3 pw(3), unfolded pw(1,2)]
    from put(4) obtain ps where L': "L' = L3\<lparr>positions := ps\<rparr>" "distinct (map po_id ps)"
      "po_accountId ` set ps \<subseteq> insert ?a (po_accountId ` set (positions L3))" by blast
    have "?a \<in> acc_id ` set (accounts L)" by (simp add: 1(1,2))
    moreover have "po_accountId ` set (positions L3) \<subseteq> acc_id ` set (accounts L)"
      using wf by (auto simp: wf_ledger_def 1(9))
    ultimately have "insert ?a (po_accountId ` set (positions L3)) \<subseteq> acc_id ` set (accounts L3)"
      unfolding accs by (simp only: insert_subset)
    with L'(3) have "po_accountId ` set ps \<subseteq> acc_id ` set (accounts L3)" by (rule order_trans)
    then have "\<forall>p \<in> set ps. po_accountId p \<in> acc_id ` set (accounts L3)" by (simp only: image_subset_iff)
    moreover have "\<forall>a m. length (filter (open_in a m) ps) \<le> 1" using put(3) by (simp add: L'(1))
    ultimately have wf': "wf_ledger L'" using wf3 L'(2) unfolding wf_ledger_def L'(1) by simp
    have h: "held L3 = held L" by (simp add: 1(9))
    have eq: "L' = L\<lparr>accounts := ys @ r\<lparr>acc_balance := ti_newBalance i, acc_updatedAt := ti_now i\<rparr> # zs,
        positions := ps, trades := trades L @ [t], snapshots := ss\<rparr>"
      by (simp add: L'(1) 1(9))
    show thesis
      by (rule that [OF 1(1-3) refl 1(4,5) eq wf']) (simp_all only: put(1,2) h [symmetric])
  qed
qed

text \<open>A recorded trade extends the log of its account and explains the new books.\<close>

lemma recordTrade_sound:
  assumes rec: "recordTrade i L = Inr (tid, sequence, L')" and L: "sound_ledger L" and i: "sound_input i"
  shows "sound_ledger L'"
proof -
  let ?a = "tw_accountId (ti_trade i)" and ?m = "tw_mint (ti_trade i)"
  have wf: "wf_ledger L" "distinct (map acc_id (accounts L))"
    and ex: "\<And>r. r \<in> set (accounts L) \<Longrightarrow> explained L r"
    and terms: "\<And>r. r \<in> set (accounts L) \<Longrightarrow> season_of L (acc_seasonId r) \<noteq> None"
    using L by (auto simp: sound_ledger_def wf_ledger_def)
  from rec wf(1) i show ?thesis
  proof (cases rule: recordTrade_effect)
    case (1 t r r' ys zs ss ps)
    have same: "season_of L' = season_of L" by (simp add: 1(7))
    have logs: "trades_of L' a = trades_of L a @ (if a = ?a then [t] else [])" for a
      using 1(5) by (simp add: 1(7) trades_of_def)
    have "explained L' x" if x: "x \<in> set (accounts L')" for x
    proof (cases "acc_id x = ?a")
      case True
      have "x = r'" using x True wf(2) by (auto simp: 1(1,2,7) image_iff)
      moreover have "explained L r" using ex 1(1) by simp
      moreover have "held L' ?a = (held L ?a)(?m := pw_tokenAmount (ti_position i))"
        using 1(10) by (auto simp: fun_eq_iff)
      moreover have "replay_trade (acc_balance r, held L ?a) (ti_trade i)
          = Some (ti_newBalance i, (held L ?a)(?m := pw_tokenAmount (ti_position i)))"
        using replay_sound [OF i, of "held L ?a"] 1(3,9) by simp
      ultimately show ?thesis
        using 1(2,4-6) by (simp add: explained_def opened_with_def log_of_def logs same replay_append
            next_sequence_def foldl_max_upt)
    next
      case False
      then have "x \<in> set (accounts L)" using x 1(2,4) by (auto simp: 1(1,7))
      moreover have "held L' (acc_id x) = held L (acc_id x)" using 1(10) False by (simp add: fun_eq_iff)
      ultimately show ?thesis using ex [of x] False
        by (simp add: explained_def opened_with_def log_of_def logs same)
    qed
    moreover have "season_of L' (acc_seasonId x) \<noteq> None" if "x \<in> set (accounts L')" for x
    proof -
      have "season_of L (acc_seasonId r) \<noteq> None" using terms 1(1) by simp
      then show ?thesis using that terms [of x] 1(1,4) unfolding same by (auto simp: 1(7))
    qed
    ultimately show ?thesis using 1(8) by (simp add: sound_ledger_def)
  qed
qed

section \<open>Every operation keeps the books explained\<close>

lemma find_append: "List.find P (xs @ ys) = (case List.find P xs of None \<Rightarrow> List.find P ys | Some x \<Rightarrow> Some x)"
  by (induction xs) auto

lemma ensureFreePlaySeason_sound:
  assumes "ensureFreePlaySeason L = (i, L')" "sound_ledger L"
  shows "sound_ledger L'"
proof (cases "List.find (\<lambda>s. te_ordinal s = FREE_PLAY_ORDINAL) (seasons L)")
  case None
  with assms(1) obtain s where L': "L' = L\<lparr>seasons := seasons L @ [s]\<rparr>"
    by (auto simp: ensureFreePlaySeason_def Let_def)
  have "season_of L' x = season_of L x" if "season_of L x \<noteq> None" for x
    using that by (auto simp: season_of_def L' find_append)
  moreover have "trades_of L' = trades_of L" "held L' = held L"
    by (simp_all add: L' trades_of_def held_def fun_eq_iff)
  ultimately show ?thesis using assms(2)
    by (auto simp: sound_ledger_def wf_ledger_def explained_def opened_with_def log_of_def L')
next
  case (Some s)
  with assms show ?thesis by (simp add: ensureFreePlaySeason_def)
qed

lemma insert_account_sound:
  assumes "insert_account seasonId user g b now L = Inr L'" "sound_ledger L"
    and "season_of L seasonId = Some s" "b = te_startingBalance s"
  shows "sound_ledger L'"
proof (cases "L' = L")
  case False
  with assms(1) obtain r where r: "L' = L\<lparr>accounts := accounts L @ [r]\<rparr>" "acc_seasonId r = seasonId"
      "acc_balance r = b" "acc_id r = next_id (map acc_id (accounts L))"
    by (auto simp: insert_account_def split: if_splits)
  then have new: "acc_id r \<notin> acc_id ` set (accounts L)" using next_id_new by (metis list.set_map)
  have wf: "wf_ledger L" using assms(2) by (simp add: sound_ledger_def)
  then have own: "\<forall>t \<in> set (trades L). tw_accountId (tr_write t) \<noteq> acc_id r"
    "\<forall>p \<in> set (positions L). po_accountId p \<noteq> acc_id r"
    using new unfolding wf_ledger_def by metis+
  then have "trades_of L (acc_id r) = []" by (simp add: trades_of_def filter_empty_conv)
  moreover have "filter (open_in (acc_id r) m) (positions L) = []" for m
    using own(2) by (simp add: filter_empty_conv)
  then have "held L (acc_id r) = (\<lambda>_. 0)" by (simp add: held_def fun_eq_iff)
  ultimately have "explained L' r"
    using r assms(3,4) by (simp add: explained_def opened_with_def log_of_def)
  moreover have "wf_ledger L'" using wf new by (auto simp: wf_ledger_def r(1))
  moreover have "explained L' x" if "x \<in> set (accounts L)" for x
    using that assms(2) by (simp add: sound_ledger_def explained_def opened_with_def log_of_def r(1))
  ultimately show ?thesis using assms(2,3) r(2) by (auto simp: sound_ledger_def r(1))
qed (use assms in simp)

lemma ensureAccount_sound:
  assumes "ensureAccount seasonId user now L = Inr (v, L')" "sound_ledger L"
  shows "sound_ledger L'"
  using assms insert_account_sound [OF _ assms(2)]
  by (auto simp: ensureAccount_def split: option.splits)

lemma startOver_sound:
  assumes "startOver seasonId user now L = Inr (v, L')" "sound_ledger L"
  shows "sound_ledger L'"
proof -
  from assms(1) obtain s g L1 where "season_of L seasonId = Some s"
    "insert_account seasonId user g (te_startingBalance s) now L = Inr L1"
    and e: "ensureAccount seasonId user now L1 = Inr (v, L')"
    by (auto simp: startOver_def Let_def split: option.splits)
  then have "sound_ledger L1" using insert_account_sound assms(2) by blast
  with e show ?thesis by (rule ensureAccount_sound)
qed

lemma executeTrade_sound:
  assumes "executeTrade H dec suspended rq click fill seen L = Inr (out, L')" "sound_ledger L"
  shows "sound_ledger L'"
proof -
  let ?p = "openPosition seen (av_id (rq_account rq)) (rq_mint rq)"
  from assms(1) obtain d where d: "decide_order H dec suspended rq click fill ?p = Inr d"
    by (auto simp: executeTrade_def)
  show ?thesis
  proof (cases d)
    case (Inl refused)
    with d assms show ?thesis by (simp add: executeTrade_def)
  next
    case (Inr wt)
    then obtain w told where wt: "d = Inr (w, told)" by (cases wt) auto
    then have "sound_input w" using d decide_sound openPosition_SomeD by blast
    with wt d assms show ?thesis
      by (auto simp: executeTrade_def intro: recordTrade_sound split: sum.splits error.splits prod.splits)
  qed
qed

text \<open>
  A client of the ledger: every request is one of these, in whatever order they reach it. An
  order carries the ledger its position was read in, which may be any earlier one, and the
  account it read before that. A request that fails leaves the ledger as it was.
\<close>

datatype ledger_op =
    Open_free_play
  | Visit int string int
  | Start_over int string int
  | Place_order bool trade_request market_read market_read ledger

definition run_op :: "(byte list \<Rightarrow> byte list) \<Rightarrow> (string \<Rightarrow> byte list option) \<Rightarrow> ledger \<Rightarrow> ledger_op \<Rightarrow> ledger" where
  "run_op H dec L op = (case op of
       Open_free_play \<Rightarrow> snd (ensureFreePlaySeason L)
     | Visit seasonId user now \<Rightarrow> (case ensureAccount seasonId user now L of Inl _ \<Rightarrow> L | Inr (_, L') \<Rightarrow> L')
     | Start_over seasonId user now \<Rightarrow> (case startOver seasonId user now L of Inl _ \<Rightarrow> L | Inr (_, L') \<Rightarrow> L')
     | Place_order suspended rq click fill seen \<Rightarrow>
         (case executeTrade H dec suspended rq click fill seen L of Inl _ \<Rightarrow> L | Inr (_, L') \<Rightarrow> L'))"

definition new_ledger :: "season_terms list \<Rightarrow> ledger" where
  "new_ledger ss = \<lparr>seasons = ss, accounts = [], positions = [], trades = [], snapshots = []\<rparr>"

interpretation books: loop "run_op H dec" "\<lambda>_. True" sound_ledger for H dec
proof
  fix L :: ledger and op
  assume L: "sound_ledger L"
  show "sound_ledger (run_op H dec L op)"
  proof (cases op)
    case Open_free_play
    with L show ?thesis by (simp add: run_op_def ensureFreePlaySeason_sound [of L _ "snd (ensureFreePlaySeason L)"] prod_eq_iff)
  next
    case (Visit s u now)
    with L show ?thesis by (auto simp: run_op_def intro: ensureAccount_sound split: sum.splits)
  next
    case (Start_over s u now)
    with L show ?thesis by (auto simp: run_op_def intro: startOver_sound split: sum.splits)
  next
    case (Place_order suspended rq click fill seen)
    with L show ?thesis by (auto simp: run_op_def intro: executeTrade_sound split: sum.splits)
  qed
qed

lemma new_ledger_sound: "sound_ledger (new_ledger ss)"
  by (simp add: new_ledger_def sound_ledger_def wf_ledger_def)

lemma ledger_after: "sound_ledger (foldl (run_op H dec) (new_ledger ss) ops)"
  by (rule books.fold_inv) (simp_all add: new_ledger_sound list_all_iff)

interpretation by_sequence: comparator "\<lambda>l r. if tr_sequence l \<noteq> tr_sequence r then tr_sequence l - tr_sequence r
    else tr_id l - tr_id r"
  by unfold_locales (auto split: if_splits)

lemma explained_log:
  assumes "explained L r"
  shows "allTrades L (acc_id r) = trades_of L (acc_id r)"
proof -
  let ?ts = "trades_of L (acc_id r)"
  have sq: "tr_sequence (?ts ! i) = int i + 1" if "i < length ?ts" for i
  proof -
    have "map tr_sequence ?ts ! i = map (\<lambda>i. int i + 1) [0..<length ?ts] ! i"
      using assms by (simp add: explained_def)
    with that show ?thesis by simp
  qed
  have "sorted_wrt (\<lambda>l r. (if tr_sequence l \<noteq> tr_sequence r then tr_sequence l - tr_sequence r
    else tr_id l - tr_id r) \<le> 0) ?ts"
    unfolding sorted_wrt_iff_nth_less by (intro allI impI) (simp add: sq)
  then show ?thesis unfolding allTrades_def by (rule by_sequence.sorted_id)
qed

section \<open>Properties\<close>


text \<open>
  A short history: a wallet arrives at free play and buys; two orders then race, both decided
  on the account as it stood after that buy, so the second of them is refused; last it sells
  a part of what it holds.
\<close>

definition ann_account :: "int \<Rightarrow> account_view" where
  "ann_account b = \<lparr>av_id = 1, av_seasonId = 1, av_seasonOrdinal = - 1, av_user = ''ann'', av_generation = 0,
     av_solBalance = b, av_startingBalance = 10000000000, av_latencyMs = 600, av_maxPriceImpactBps = 5000,
     av_engineVersion = 1\<rparr>"

definition ann_order :: "int \<Rightarrow> side \<Rightarrow> int \<Rightarrow> int \<Rightarrow> trade_request" where
  "ann_order b s n now = \<lparr>rq_account = ann_account b, rq_seasonId = 1, rq_user = ''ann'', rq_mint = ''mint'',
     rq_side = s, rq_size = n, rq_slippageBps = None, rq_source = None, rq_now = now\<rparr>"

definition calm_market :: market_read where
  "calm_market = Resolved (Some launch_pool) 400000000"

definition place :: "trade_request \<Rightarrow> ledger \<Rightarrow> ledger_op" where
  "place rq seen = Place_order False rq calm_market calm_market seen"

abbreviation run_ann :: "ledger \<Rightarrow> ledger_op \<Rightarrow> ledger" where
  "run_ann \<equiv> run_op (\<lambda>_. []) key_of"

definition ann_arrives :: "ledger_op list" where
  "ann_arrives = [Open_free_play, Visit 1 ''ann'' 5, place (ann_order 10000000000 Buy 1000000000 10) (new_ledger [])]"

definition ann_bought :: ledger where
  "ann_bought = foldl run_ann (new_ledger []) ann_arrives"

definition ann_races :: "ledger_op list" where
  "ann_races = ann_arrives @ [place (ann_order 9000000000 Buy 2000000000 20) ann_bought,
     place (ann_order 9000000000 Buy 3000000000 21) ann_bought, place (ann_order 7000000000 Sell 1000000000000 30) ann_bought]"

definition ann_ledger :: ledger where
  "ann_ledger = foldl run_ann (new_ledger []) ann_races"

definition ann_row :: stored_account where
  "ann_row = \<lparr>acc_id = 1, acc_seasonId = 1, acc_user = ''ann'', acc_generation = 0, acc_balance = 7000000000,
     acc_createdAt = 5, acc_updatedAt = 20\<rparr>"

lemma ann_ledger_values:
  "accounts ann_ledger = [ann_row]" "held ann_ledger 1 ''mint'' = 100484917377664"
  "map tr_sequence (allTrades ann_ledger 1) = [1, 2]"
  by code_simp+


text \<open>What an account looks like from outside: its balance and its open holdings.\<close>

definition account_at :: "'a ledger_scheme \<Rightarrow> int \<Rightarrow> holdings option" where
  "account_at L a = map_option (\<lambda>r. (acc_balance r, held L a)) (List.find (\<lambda>r. acc_id r = a) (accounts L))"

lemma account_at_explained:
  assumes "sound_ledger L" "account_at L a = Some s"
  shows "\<exists>r \<in> set (accounts L). acc_id r = a \<and> replay (opened_with L r, \<lambda>_. 0) (log_of L a) = Some s"
proof -
  from assms(2) obtain r where r: "List.find (\<lambda>r. acc_id r = a) (accounts L) = Some r"
    and s: "s = (acc_balance r, held L a)" by (auto simp: account_at_def)
  then have "r \<in> set (accounts L)" "acc_id r = a" by (auto simp: find_Some_iff)
  moreover from this have "explained L r" using assms(1) by (simp add: sound_ledger_def)
  ultimately show ?thesis using s by (auto simp: explained_def)
qed

lemma find_at:
  "distinct (map acc_id xs) \<Longrightarrow> r \<in> set xs \<Longrightarrow> List.find (\<lambda>x. acc_id x = acc_id r) xs = Some r"
  by (induction xs) auto

lemma recordTrade_shape:
  assumes "recordTrade i L = Inr (tid, sequence, L')" "sound_ledger L" "sound_input i"
  shows "\<exists>t. trades L' = trades L @ [t] \<and> tr_write t = ti_trade i"
    and "\<exists>ys zs r r'. accounts L = ys @ r # zs \<and> accounts L' = ys @ r' # zs \<and> acc_id r = tw_accountId (ti_trade i)
      \<and> acc_id r' = acc_id r \<and> acc_seasonId r' = acc_seasonId r
      \<and> acc_balance r = ti_expectedBalance i \<and> acc_balance r' = ti_newBalance i"
    and "seasons L' = seasons L"
proof -
  have wf: "wf_ledger L" using assms(2) by (simp add: sound_ledger_def)
  from assms(1) wf assms(3) obtain t r r' ys zs ss ps where
    e: "accounts L = ys @ r # zs" "acc_id r = tw_accountId (ti_trade i)" "acc_balance r = ti_expectedBalance i"
      "r' = r\<lparr>acc_balance := ti_newBalance i, acc_updatedAt := ti_now i\<rparr>" "tr_write t = ti_trade i"
      "L' = L\<lparr>accounts := ys @ r' # zs, positions := ps, trades := trades L @ [t], snapshots := ss\<rparr>"
    by (rule recordTrade_effect)
  show "\<exists>t. trades L' = trades L @ [t] \<and> tr_write t = ti_trade i" using e(5) by (simp add: e(6))
  show "\<exists>ys zs r r'. accounts L = ys @ r # zs \<and> accounts L' = ys @ r' # zs \<and> acc_id r = tw_accountId (ti_trade i)
      \<and> acc_id r' = acc_id r \<and> acc_seasonId r' = acc_seasonId r
      \<and> acc_balance r = ti_expectedBalance i \<and> acc_balance r' = ti_newBalance i"
    using e by (intro exI [of _ ys] exI [of _ zs] exI [of _ r] exI [of _ r']) simp
  show "seasons L' = seasons L" by (simp add: e(6))
qed

lemma trade_extends:
  assumes "sound_ledger L" "sound_ledger L'" "trades L' = trades L @ [t]" "tw_accountId (tr_write t) = a"
    and "accounts L = ys @ r # zs" "accounts L' = ys @ r' # zs" "acc_id r = a" "acc_id r' = acc_id r"
    and "acc_seasonId r' = acc_seasonId r" "seasons L' = seasons L"
  shows "\<exists>s. account_at L a = Some s \<and> replay_trade s (tr_write t) = account_at L' a"
    and "account_at L' a = Some (acc_balance r', held L' a)"
    and "b \<noteq> a \<Longrightarrow> account_at L' b = account_at L b"
proof -
  have d: "distinct (map acc_id (accounts L))" "distinct (map acc_id (accounts L'))"
    using assms(1,2) by (simp_all add: sound_ledger_def wf_ledger_def)
  have find: "List.find (\<lambda>x. acc_id x = a) (accounts L) = Some r" "List.find (\<lambda>x. acc_id x = a) (accounts L') = Some r'"
    using find_at [OF d(1), of r] find_at [OF d(2), of r'] assms(5-8) by simp_all
  then have at: "account_at L a = Some (acc_balance r, held L a)" "account_at L' a = Some (acc_balance r', held L' a)"
    by (simp_all add: account_at_def)
  then show "account_at L' a = Some (acc_balance r', held L' a)" by simp
  have ex: "explained L r" "explained L' r'" using assms(1,2,5,6) by (auto simp: sound_ledger_def)
  have "opened_with L' r' = opened_with L r" using assms(9,10) by (simp add: opened_with_def season_of_def)
  moreover have "log_of L' a = log_of L a @ [tr_write t]" using assms(3,4) by (simp add: log_of_def trades_of_def)
  ultimately have "replay_trade (acc_balance r, held L a) (tr_write t) = Some (acc_balance r', held L' a)"
    using ex assms(7,8) by (auto simp: explained_def replay_append split: option.splits)
  with at show "\<exists>s. account_at L a = Some s \<and> replay_trade s (tr_write t) = account_at L' a" by simp
  show "account_at L' b = account_at L b" if b: "b \<noteq> a"
  proof -
    have same: "List.find (\<lambda>x. acc_id x = b) (accounts L') = List.find (\<lambda>x. acc_id x = b) (accounts L)"
      using b assms(5-8) by (auto simp: find_append split: option.split)
    show ?thesis
    proof (cases "List.find (\<lambda>x. acc_id x = b) (accounts L)")
      case (Some x)
      then have x: "x \<in> set (accounts L)" "acc_id x = b" by (auto simp: find_Some_iff)
      then have "x \<in> set (accounts L')" using b assms(5-8) by auto
      then have "explained L x" "explained L' x" using x assms(1,2) by (auto simp: sound_ledger_def)
      moreover have "opened_with L' x = opened_with L x" using assms(10) by (simp add: opened_with_def season_of_def)
      moreover have "log_of L' b = log_of L b" using assms(3,4) b by (simp add: log_of_def trades_of_def)
      ultimately have "held L' b = held L b" using x(2) by (simp add: explained_def)
      then show ?thesis using same by (simp add: account_at_def)
    qed (simp add: account_at_def same)
  qed
qed

lemma executeTrade_filled:
  assumes "executeTrade H dec suspended rq click fill seen L = Inr (Trade_filled f, L')"
  obtains w told tid sequence where
    "decide_order H dec suspended rq click fill (openPosition seen (av_id (rq_account rq)) (rq_mint rq)) = Inr (Inr (w, told))"
    "recordTrade w L = Inr (tid, sequence, L')" "f = told\<lparr>fl_tradeId := tid, fl_sequence := sequence\<rparr>" "sound_input w"
proof -
  let ?p = "openPosition seen (av_id (rq_account rq)) (rq_mint rq)"
  from assms obtain d where d: "decide_order H dec suspended rq click fill ?p = Inr d"
    by (auto simp: executeTrade_def)
  show thesis
  proof (cases d)
    case (Inl refused)
    then have "refused = Trade_filled f" using d assms by (simp add: executeTrade_def)
    with d Inl show thesis
      by (auto simp: decide_order_def Let_def split: if_splits market_read.splits option.splits
        fill_outcome.splits sum.splits error.splits)
  next
    case (Inr wt)
    then obtain w told where wt: "d = Inr (w, told)" by (cases wt) auto
    then have "sound_input w" using d decide_sound openPosition_SomeD by blast
    with wt d assms that show thesis
      by (auto simp: executeTrade_def split: sum.splits error.splits prod.splits)
  qed
qed

lemma executeTrade_refused:
  assumes "executeTrade H dec suspended rq click fill seen L = Inr (out, L')" "\<And>f. out \<noteq> Trade_filled f"
  shows "L' = L"
proof -
  let ?p = "openPosition seen (av_id (rq_account rq)) (rq_mint rq)"
  from assms(1) obtain d where d: "decide_order H dec suspended rq click fill ?p = Inr d"
    by (auto simp: executeTrade_def)
  show ?thesis
  proof (cases d)
    case (Inl refused)
    with d assms(1) show ?thesis by (simp add: executeTrade_def)
  next
    case (Inr wt)
    then obtain w told where wt: "d = Inr (w, told)" by (cases wt) auto
    show ?thesis
    proof (cases "recordTrade w L")
      case (Inl e)
      with wt d assms(1) show ?thesis by (cases e) (simp_all add: executeTrade_def)
    next
      case (Inr r)
      with wt d assms show ?thesis by (cases r) (auto simp: executeTrade_def)
    qed
  qed
qed

lemma decide_told:
  assumes "decide_order H dec suspended rq click fill p = Inr (Inr (w, told))"
  shows "tw_accountId (ti_trade w) = av_id (rq_account rq) \<and> tw_mint (ti_trade w) = rq_mint rq
    \<and> tw_side (ti_trade w) = rq_side rq \<and> tw_solAmount (ti_trade w) = solAmount (fl_filled told)
    \<and> tw_tokenAmount (ti_trade w) = tokenAmount (fl_filled told) \<and> ti_newBalance w = fl_balance told
    \<and> ti_expectedBalance w = av_solBalance (rq_account rq)"
  using assms by (auto simp: decide_order_def Let_def order_write_def order_trade_def
      split: if_splits market_read.splits option.splits fill_outcome.splits sum.splits error.splits)

text \<open>
  C2: concurrent orders behave as if they came one at a time. An order decided on readings of
  any age either changes nothing at all, or it is one step of the reference account: the
  account as it stands when the write lands could afford the trade, moves by exactly the
  amounts the trader is told, ends with the balance the trader is told, and every other
  account is left alone.
\<close>

theorem orders_happen_one_at_a_time:
  assumes "L = foldl (run_op H dec) (new_ledger ss) ops"
    and "executeTrade H dec suspended rq click fill seen L = Inr (out, L')"
  shows "case out of
      Trade_filled f \<Rightarrow> (\<exists>s t h. account_at L (av_id (rq_account rq)) = Some s
        \<and> replay_trade s t = Some (fl_balance f, h) \<and> account_at L' (av_id (rq_account rq)) = Some (fl_balance f, h)
        \<and> tw_side t = rq_side rq \<and> tw_mint t = rq_mint rq \<and> tw_solAmount t = solAmount (fl_filled f)
        \<and> tw_tokenAmount t = tokenAmount (fl_filled f) \<and> map tr_write (trades L') = map tr_write (trades L) @ [t])
        \<and> (\<forall>b. b = av_id (rq_account rq) \<or> account_at L' b = account_at L b)
    | _ \<Rightarrow> L' = L"
proof (cases "\<exists>f. out = Trade_filled f")
  case False
  with executeTrade_refused [OF assms(2)] show ?thesis by (cases out) auto
next
  case True
  then obtain f where f: "out = Trade_filled f" by blast
  from assms(2) [unfolded f] show ?thesis
  proof (cases rule: executeTrade_filled)
    case (1 w told tid sequence)
    have L: "sound_ledger L" unfolding assms(1) by (rule ledger_after)
    have L': "sound_ledger L'" using 1(2) L 1(4) by (rule recordTrade_sound)
    note w = decide_told [OF 1(1)]
    obtain t where t: "trades L' = trades L @ [t]" "tr_write t = ti_trade w"
      using recordTrade_shape(1) [OF 1(2) L 1(4)] by blast
    obtain ys zs r r' where r: "accounts L = ys @ r # zs" "accounts L' = ys @ r' # zs"
        "acc_id r = av_id (rq_account rq)" "acc_id r' = acc_id r" "acc_seasonId r' = acc_seasonId r"
        "acc_balance r' = ti_newBalance w"
      using recordTrade_shape(2) [OF 1(2) L 1(4)] w by metis
    note ext = trade_extends [OF L L' t(1) _ r(1-5) recordTrade_shape(3) [OF 1(2) L 1(4)]]
    have "\<exists>s. account_at L (av_id (rq_account rq)) = Some s
        \<and> replay_trade s (ti_trade w) = account_at L' (av_id (rq_account rq))"
      using ext(1) w t(2) by simp
    moreover have "account_at L' (av_id (rq_account rq)) = Some (fl_balance f, held L' (av_id (rq_account rq)))"
      using ext(2) w t(2) r(6) 1(3) by simp
    moreover have "b = av_id (rq_account rq) \<or> account_at L' b = account_at L b" for b
      using ext(3) [of b] w t(2) by auto
    ultimately show ?thesis using f w t 1(3) by auto
  qed
qed

definition ann_second :: "(trade_outcome \<times> ledger) res" where
  "ann_second = executeTrade (\<lambda>_. []) key_of False (ann_order 9000000000 Buy 2000000000 20) calm_market calm_market
     ann_bought ann_bought"

lemma ann_second_fills:
  obtains f L where "ann_second = Inr (Trade_filled f, L)" "fl_balance f = 7000000000" "fl_sequence f = 2"
    "solAmount (fl_filled f) = 2000000000"
proof -
  have "case ann_second of Inr (Trade_filled f, L) \<Rightarrow> fl_balance f = 7000000000 \<and> fl_sequence f = 2
    \<and> solAmount (fl_filled f) = 2000000000 | _ \<Rightarrow> False"
    by code_simp
  then show thesis by (auto split: sum.splits prod.splits trade_outcome.splits intro: that)
qed

theorem orders_happen_one_at_a_time_witness:
  "\<exists>f L s t h. ann_second = Inr (Trade_filled f, L) \<and> account_at ann_bought 1 = Some s
     \<and> replay_trade s t = Some (7000000000, h) \<and> tw_solAmount t = 2000000000
     \<and> account_at L 1 = Some (7000000000, h)"
proof -
  obtain f L where f: "ann_second = Inr (Trade_filled f, L)" "fl_balance f = 7000000000"
    "solAmount (fl_filled f) = 2000000000"
    by (rule ann_second_fills)
  have a: "av_id (rq_account (ann_order 9000000000 Buy 2000000000 20)) = 1" by (simp add: ann_order_def ann_account_def)
  from orders_happen_one_at_a_time [OF ann_bought_def f(1) [unfolded ann_second_def]]
  have "\<exists>s t h. account_at ann_bought 1 = Some s \<and> replay_trade s t = Some (7000000000, h)
      \<and> tw_solAmount t = 2000000000 \<and> account_at L 1 = Some (7000000000, h)"
    unfolding a trade_outcome.case f(2,3) by blast
  with f(1) show ?thesis by blast
qed


definition ann_third :: "ledger \<Rightarrow> (trade_outcome \<times> ledger) res" where
  "ann_third L = executeTrade (\<lambda>_. []) key_of False (ann_order 9000000000 Buy 3000000000 21) calm_market calm_market
     ann_bought L"


lemma top_by_append_last:
  assumes "\<And>y. y \<in> set xs \<Longrightarrow> key y < key x"
  shows "top_by key (xs @ [x]) = Some x"
  using assms
proof (induction xs)
  case (Cons y xs)
  then have "top_by key (xs @ [x]) = Some x" "key y < key x" by auto
  then show ?case by simp
qed simp

text \<open>
  starting over adds an account and touches nothing else. It is refused outside free play;
  there it appends one account, a generation above every earlier one and holding the opening
  balance, with no trades of its own, and from then on it is the account the trader is given.
\<close>

theorem starting_over_adds_a_fresh_account:
  assumes "startOver seasonId user now L = Inr (v, L')" and "L = foldl (run_op H dec) (new_ledger ss) ops"
  shows "\<exists>s r. season_of L seasonId = Some s \<and> te_ordinal s = FREE_PLAY_ORDINAL
    \<and> L' = L\<lparr>accounts := accounts L @ [r]\<rparr> \<and> acc_balance r = te_startingBalance s
    \<and> acc_user r = user \<and> acc_seasonId r = seasonId
    \<and> (\<forall>x \<in> set (accounts L). acc_seasonId x = seasonId \<and> acc_user x = user \<longrightarrow> acc_generation x < acc_generation r)
    \<and> allTrades L' (acc_id r) = [] \<and> accountFor L' seasonId user = Some v \<and> av_id v = acc_id r"
proof -
  let ?mine = "\<lambda>r. acc_seasonId r = seasonId \<and> acc_user r = user"
  define g where "g = (case latest_account L seasonId user of None \<Rightarrow> - 1 | Some r \<Rightarrow> acc_generation r) + 1"
  from assms(1) obtain s L1 where s: "season_of L seasonId = Some s" "te_ordinal s = FREE_PLAY_ORDINAL"
    and ins: "insert_account seasonId user g (te_startingBalance s) now L = Inr L1"
    and e: "ensureAccount seasonId user now L1 = Inr (v, L')"
    by (auto simp: startOver_def Let_def g_def split: option.splits)
  have above: "acc_generation x < g" if "x \<in> set (accounts L)" "?mine x" for x
  proof -
    have "x \<in> set (filter ?mine (accounts L))" using that by simp
    then obtain y where "latest_account L seasonId user = Some y" "acc_generation x \<le> acc_generation y"
      unfolding latest_account_def using top_by_in [of acc_generation "filter ?mine (accounts L)"]
      by (metis (no_types, lifting) filter_empty_conv not_Some_eq top_by_None empty_iff list.set(1))
    then show ?thesis by (simp add: g_def)
  qed
  then have fresh: "\<not> list_ex (\<lambda>r. acc_seasonId r = seasonId \<and> acc_user r = user \<and> acc_generation r = g) (accounts L)"
    by (auto simp: list_ex_iff)
  define r where "r = \<lparr>acc_id = next_id (map acc_id (accounts L)), acc_seasonId = seasonId, acc_user = user,
    acc_generation = g, acc_balance = te_startingBalance s, acc_createdAt = now, acc_updatedAt = now\<rparr>"
  have L1: "L1 = L\<lparr>accounts := accounts L @ [r]\<rparr>" using ins fresh by (simp add: insert_account_def r_def)
  have "top_by acc_generation (filter ?mine (accounts L) @ [r]) = Some r"
    by (rule top_by_append_last) (use above in \<open>simp add: r_def\<close>)
  then have latest: "latest_account L1 seasonId user = Some r" by (simp add: latest_account_def L1 r_def)
  have s1: "season_of L1 seasonId = Some s" using s(1) by (simp add: L1)
  have v: "v = account_in s r" "L' = L1" using e latest s1 by (simp_all add: ensureAccount_def)
  have "accountFor L1 seasonId user = Some (account_in s r)"
    using latest s1 by (simp add: accountFor_def r_def)
  moreover have "allTrades L1 (acc_id r) = []"
  proof -
    have "sound_ledger L" unfolding assms(2) by (rule ledger_after)
    moreover have "acc_id r \<notin> acc_id ` set (accounts L)"
      using next_id_new [of "map acc_id (accounts L)"] by (simp add: r_def)
    ultimately have "\<forall>t \<in> set (trades L). tw_accountId (tr_write t) \<noteq> acc_id r"
      unfolding sound_ledger_def wf_ledger_def by metis
    then show ?thesis by (simp add: allTrades_def trades_of_def L1 filter_False)
  qed
  moreover have "acc_balance r = te_startingBalance s" "acc_user r = user" "acc_seasonId r = seasonId"
    "acc_generation r = g" "av_id (account_in s r) = acc_id r"
    by (simp_all add: r_def account_in_def)
  ultimately show ?thesis using s L1 v above by auto
qed

theorem starting_over_adds_a_fresh_account_witness:
  "\<exists>v L r. startOver 1 ''ann'' 40 ann_ledger = Inr (v, L) \<and> accounts L = [ann_row, r] \<and> acc_balance r = 10000000000
     \<and> accountFor L 1 ''ann'' = Some v"
proof -
  have "case startOver 1 ''ann'' 40 ann_ledger of Inl _ \<Rightarrow> False | Inr _ \<Rightarrow> True" by code_simp
  then obtain v L where L: "startOver 1 ''ann'' 40 ann_ledger = Inr (v, L)" by (auto split: sum.splits)
  have terms: "map_option te_startingBalance (season_of ann_ledger 1) = Some 10000000000" by code_simp
  from starting_over_adds_a_fresh_account [OF L ann_ledger_def] obtain s r where
    "season_of ann_ledger 1 = Some s" "L = ann_ledger\<lparr>accounts := accounts ann_ledger @ [r]\<rparr>"
    "acc_balance r = te_startingBalance s" "accountFor L 1 ''ann'' = Some v" by blast
  then show ?thesis using L terms by (auto simp: ann_ledger_values)
qed

end
