(* ===== verification/Payments.thy ===== *)
theory Payments
  imports Ledger
begin

text \<open>
  Paying: the intent the server asks a wallet to sign (packages/payments/src/intent.ts), what
  is sold (store.ts), the reading of the transaction that landed (verify.ts), and the tables of
  intents, payments and entries with the settlement that credits a payment
  (packages/db/src/payments.ts) under the confirmation route
  (app/app/api/pay/confirm/route.ts). The random reference of an intent is an argument, and
  so is the transaction the chain returns for a signature. The credit of a purchase is added
  to the balance as an exact sum: SQLite does it in 64 bits, which no balance comes near.
\<close>

section \<open>What is sold\<close>

definition LAMPORTS_PER_SOL :: int where "LAMPORTS_PER_SOL = 1000000000"

record practice_tier =
  tier_sol :: int
  tier_priceLamports :: int

definition PRACTICE_TIERS :: "practice_tier list" where
  "PRACTICE_TIERS = [
     \<lparr>tier_sol = 1, tier_priceLamports = 10000000\<rparr>,
     \<lparr>tier_sol = 3, tier_priceLamports = 25000000\<rparr>,
     \<lparr>tier_sol = 10, tier_priceLamports = 60000000\<rparr>,
     \<lparr>tier_sol = 25, tier_priceLamports = 120000000\<rparr>,
     \<lparr>tier_sol = 50, tier_priceLamports = 200000000\<rparr>,
     \<lparr>tier_sol = 100, tier_priceLamports = 350000000\<rparr>]"

definition tierFor :: "int \<Rightarrow> practice_tier option" where
  "tierFor n = List.find (\<lambda>t. tier_sol t = n) PRACTICE_TIERS"

definition creditFor :: "practice_tier \<Rightarrow> int" where
  "creditFor t = tier_sol t * LAMPORTS_PER_SOL"

definition pricePerSol :: "practice_tier \<Rightarrow> int res" where
  "pricePerSol t = big_div (tier_priceLamports t) (tier_sol t)"

section \<open>Intents\<close>

datatype purpose = Season_entry | Coach_upgrade | Practice_sol

record payment_intent =
  in_reference :: string
  in_payer :: string
  in_recipient :: string
  in_lamports :: int
  in_purpose :: purpose
  in_memo :: string
  in_createdAt :: int
  in_expiresAt :: int

definition DEFAULT_TTL_MS :: int where "DEFAULT_TTL_MS = 10 * 60 * 1000"

definition createIntent :: "string \<Rightarrow> string \<Rightarrow> string \<Rightarrow> int \<Rightarrow> purpose \<Rightarrow> int option \<Rightarrow> int \<Rightarrow> int option
    \<Rightarrow> payment_intent res" where
  "createIntent reference payer recipient amount why seasonOrdinal now ttl =
     rbind (ensure (\<not> amount \<le> 0) Plain_error) (\<lambda>_.
     Inr \<lparr>in_reference = reference, in_payer = payer, in_recipient = recipient, in_lamports = amount,
       in_purpose = why,
       in_memo = (if why = Season_entry
         then ''Probatio season '' @ (case seasonOrdinal of None \<Rightarrow> ''?'' | Some n \<Rightarrow> show_int n) @ '' entry''
         else ''Probatio coach''),
       in_createdAt = now, in_expiresAt = now + (case ttl of None \<Rightarrow> DEFAULT_TTL_MS | Some t \<Rightarrow> t)\<rparr>)"

section \<open>What landed\<close>

record confirmed_transaction =
  tx_err :: bool
  tx_accountKeys :: "string list"
  tx_preBalances :: "int list"
  tx_postBalances :: "int list"

datatype verification_failure =
  Not_found | Failed_on_chain | Wrong_payer | Missing_reference | Recipient_absent | Wrong_amount

record expectation =
  xp_payer :: string
  xp_recipient :: string
  xp_lamports :: int
  xp_reference :: string

record verification =
  vr_ok :: bool
  vr_failure :: "verification_failure option"
  vr_received :: "int option"

definition payment_fail :: "verification_failure \<Rightarrow> int option \<Rightarrow> verification" where
  "payment_fail failure received_amount = \<lparr>vr_ok = False, vr_failure = Some failure, vr_received = received_amount\<rparr>"

text \<open>Reading an array: \<open>xs[i]\<close> out of range is undefined.\<close>

definition at_index :: "'a list \<Rightarrow> nat \<Rightarrow> 'a option" where
  "at_index xs i = (if i < length xs then Some (xs ! i) else None)"

fun index_of :: "'a list \<Rightarrow> 'a \<Rightarrow> nat option" where
  "index_of [] x = None"
| "index_of (y # ys) x = (if y = x then Some 0 else map_option Suc (index_of ys x))"

definition verifyPayment :: "confirmed_transaction option \<Rightarrow> expectation \<Rightarrow> verification" where
  "verifyPayment transaction x = (case transaction of
       None \<Rightarrow> payment_fail Not_found None
     | Some t \<Rightarrow>
         if tx_err t then payment_fail Failed_on_chain None
         else if at_index (tx_accountKeys t) 0 \<noteq> Some (xp_payer x) then payment_fail Wrong_payer None
         else if xp_reference x \<notin> set (tx_accountKeys t) then payment_fail Missing_reference None
         else case index_of (tx_accountKeys t) (xp_recipient x) of
           None \<Rightarrow> payment_fail Recipient_absent None
         | Some i \<Rightarrow> (case (at_index (tx_preBalances t) i, at_index (tx_postBalances t) i) of
               (Some before, Some after) \<Rightarrow>
                 let gained = after - before in
                 if gained \<noteq> xp_lamports x then payment_fail Wrong_amount (Some gained)
                 else \<lparr>vr_ok = True, vr_failure = None, vr_received = Some gained\<rparr>
             | _ \<Rightarrow> payment_fail Recipient_absent None))"

section \<open>The tables\<close>

record wallet_evidence =
  ev_funder :: "string option"
  ev_walletFirstSeenAt :: "int option"
  ev_walletSignatureCount :: "int option"
  ev_flags :: "string list"

record intent_row =
  pi_id :: int
  pi_reference :: string
  pi_user :: string
  pi_seasonId :: "int option"
  pi_purpose :: purpose
  pi_recipient :: string
  pi_amount :: int
  pi_createdAt :: int
  pi_expiresAt :: int
  pi_paymentId :: "int option"
  pi_evidence :: wallet_evidence

text \<open>The status is text, constrained to pending, verified and failed.\<close>

record payment_row =
  pm_id :: int
  pm_user :: string
  pm_seasonId :: "int option"
  pm_purpose :: purpose
  pm_amount :: int
  pm_txSignature :: string
  pm_status :: string
  pm_createdAt :: int
  pm_verifiedAt :: "int option"

text \<open>The columns of an entry that are read by name; its result is written at settlement.\<close>

record entry_row =
  en_id :: int
  en_seasonId :: int
  en_user :: string
  en_paymentId :: "int option"
  en_enteredAt :: int
  en_evidence :: wallet_evidence
  en_payout :: "int option"
  en_payoutTx :: "string option"
  en_claimedAt :: "int option"
  en_refundedAt :: "int option"

record bank = ledger +
  intents :: "intent_row list"
  payments :: "payment_row list"
  entries :: "entry_row list"

definition no_evidence :: wallet_evidence where
  "no_evidence = \<lparr>ev_funder = None, ev_walletFirstSeenAt = None, ev_walletSignatureCount = None, ev_flags = []\<rparr>"

record intent_write =
  iw_reference :: string
  iw_user :: string
  iw_seasonId :: "int option"
  iw_purpose :: purpose
  iw_recipient :: string
  iw_amount :: int
  iw_expiresAt :: int

definition createPaymentIntent :: "intent_write \<Rightarrow> int \<Rightarrow> bank \<Rightarrow> (intent_row \<times> bank) res" where
  "createPaymentIntent w now B =
     rbind (ensure (0 \<le> iw_amount w) Db_error) (\<lambda>_.
     rbind (ensure (\<not> list_ex (\<lambda>r. pi_reference r = iw_reference w) (intents B)) Db_error) (\<lambda>_.
     let r = \<lparr>pi_id = next_id (map pi_id (intents B)), pi_reference = iw_reference w, pi_user = iw_user w,
           pi_seasonId = iw_seasonId w, pi_purpose = iw_purpose w, pi_recipient = iw_recipient w,
           pi_amount = iw_amount w, pi_createdAt = now, pi_expiresAt = iw_expiresAt w, pi_paymentId = None,
           pi_evidence = no_evidence\<rparr>
     in Inr (r, B\<lparr>intents := intents B @ [r]\<rparr>)))"

definition getPaymentIntent :: "bank \<Rightarrow> string \<Rightarrow> intent_row option" where
  "getPaymentIntent B reference = List.find (\<lambda>r. pi_reference r = reference) (intents B)"

definition intentEvidence :: "bank \<Rightarrow> string \<Rightarrow> wallet_evidence option" where
  "intentEvidence B reference = map_option pi_evidence (getPaymentIntent B reference)"

definition openPaymentIntents :: "bank \<Rightarrow> int \<Rightarrow> nat \<Rightarrow> intent_row list" where
  "openPaymentIntents B now limit = take limit (js_sort (\<lambda>l r. pi_createdAt l - pi_createdAt r)
     (filter (\<lambda>r. pi_paymentId r = None \<and> pi_expiresAt r > now) (intents B)))"

definition recordIntentEvidence :: "string \<Rightarrow> wallet_evidence \<Rightarrow> bank \<Rightarrow> bank" where
  "recordIntentEvidence reference e B = B\<lparr>intents :=
     map (\<lambda>r. if pi_reference r = reference then r\<lparr>pi_evidence := e\<rparr> else r) (intents B)\<rparr>"

definition entriesFromFunder :: "bank \<Rightarrow> int \<Rightarrow> string \<Rightarrow> int \<Rightarrow> nat" where
  "entriesFromFunder B seasonId funder now =
     length (filter (\<lambda>e. en_seasonId e = seasonId \<and> ev_funder (en_evidence e) = Some funder) (entries B))
     + length (filter (\<lambda>r. pi_seasonId r = Some seasonId \<and> ev_funder (pi_evidence r) = Some funder
         \<and> pi_paymentId r = None \<and> pi_expiresAt r > now) (intents B))"

definition entry_of :: "bank \<Rightarrow> int \<Rightarrow> string \<Rightarrow> entry_row option" where
  "entry_of B seasonId user = List.find (\<lambda>e. en_seasonId e = seasonId \<and> en_user e = user) (entries B)"

definition hasEntered :: "bank \<Rightarrow> int \<Rightarrow> string \<Rightarrow> bool" where
  "hasEntered B seasonId user \<longleftrightarrow> entry_of B seasonId user \<noteq> None"

definition paymentsFor :: "bank \<Rightarrow> string \<Rightarrow> payment_row list" where
  "paymentsFor B user = js_sort (\<lambda>l r. pm_createdAt r - pm_createdAt l) (filter (\<lambda>r. pm_user r = user) (payments B))"

text \<open>\<open>INSERT INTO entries \<dots> ON CONFLICT (season, user) DO NOTHING RETURNING id\<close>.\<close>

definition insert_entry :: "int \<Rightarrow> string \<Rightarrow> int option \<Rightarrow> int \<Rightarrow> wallet_evidence \<Rightarrow> bank \<Rightarrow> int option \<times> bank" where
  "insert_entry seasonId user paymentId now e B =
     (if hasEntered B seasonId user then (None, B)
      else let i = next_id (map en_id (entries B)) in
        (Some i, B\<lparr>entries := entries B @ [\<lparr>en_id = i, en_seasonId = seasonId, en_user = user,
           en_paymentId = paymentId, en_enteredAt = now, en_evidence = e, en_payout = None, en_payoutTx = None,
           en_claimedAt = None, en_refundedAt = None\<rparr>]\<rparr>))"

definition enterFreeSeason :: "int \<Rightarrow> string \<Rightarrow> wallet_evidence \<Rightarrow> int \<Rightarrow> bank \<Rightarrow> (int option \<times> bool) \<times> bank" where
  "enterFreeSeason seasonId user e now B = (case entry_of B seasonId user of
       Some r \<Rightarrow> ((Some (en_id r), True), B)
     | None \<Rightarrow> (case insert_entry seasonId user None now e B of
         (Some i, B') \<Rightarrow> ((Some i, False), B')
       | (None, B') \<Rightarrow> ((map_option en_id (entry_of B' seasonId user), True), B')))"

section \<open>Settling a payment\<close>

record settle_input =
  se_reference :: string
  se_txSignature :: string
  se_user :: string
  se_seasonId :: "int option"
  se_purpose :: purpose
  se_amount :: int
  se_amountCredited :: "int option"
  se_now :: int

record settlement =
  sl_payment :: payment_row
  sl_fresh :: bool
  sl_entryId :: "int option"

definition payment_signed :: "bank \<Rightarrow> string \<Rightarrow> payment_row option" where
  "payment_signed B signature = List.find (\<lambda>p. pm_txSignature p = signature) (payments B)"

definition findEntry :: "bank \<Rightarrow> payment_row \<Rightarrow> int option" where
  "findEntry B p = (case pm_seasonId p of None \<Rightarrow> None | Some s \<Rightarrow> map_option en_id (entry_of B s (pm_user p)))"

definition already_settled :: "bank \<Rightarrow> payment_row \<Rightarrow> settlement" where
  "already_settled B p = \<lparr>sl_payment = p, sl_fresh = False, sl_entryId = findEntry B p\<rparr>"

definition new_payment :: "settle_input \<Rightarrow> bank \<Rightarrow> payment_row" where
  "new_payment i B = \<lparr>pm_id = next_id (map pm_id (payments B)), pm_user = se_user i, pm_seasonId = se_seasonId i,
     pm_purpose = se_purpose i, pm_amount = se_amount i, pm_txSignature = se_txSignature i,
     pm_status = ''verified'', pm_createdAt = se_now i, pm_verifiedAt = Some (se_now i)\<rparr>"

definition link_intent :: "string \<Rightarrow> int \<Rightarrow> bank \<Rightarrow> bank" where
  "link_intent reference paymentId B = B\<lparr>intents := map (\<lambda>r. if pi_reference r = reference \<and> pi_paymentId r = None
     then r\<lparr>pi_paymentId := Some paymentId\<rparr> else r) (intents B)\<rparr>"

definition settle_entry :: "settle_input \<Rightarrow> payment_row \<Rightarrow> bank \<Rightarrow> (int option \<times> bank) res" where
  "settle_entry i p B = (case (se_purpose i, se_seasonId i) of
       (Season_entry, Some seasonId) \<Rightarrow> (case getPaymentIntent B (se_reference i) of
           Some intent \<Rightarrow> Inr (insert_entry seasonId (se_user i) (Some (pm_id p)) (se_now i) (pi_evidence intent) B)
         | None \<Rightarrow> rbind (ensure (hasEntered B seasonId (se_user i)) Plain_error) (\<lambda>_. Inr (None, B)))
     | _ \<Rightarrow> Inr (None, B))"

definition free_play_season :: "'a ledger_scheme \<Rightarrow> season_terms option" where
  "free_play_season L = List.find (\<lambda>s. te_ordinal s = FREE_PLAY_ORDINAL) (seasons L)"

definition credited_account :: "'a ledger_scheme \<Rightarrow> string \<Rightarrow> stored_account \<Rightarrow> bool" where
  "credited_account L user r \<longleftrightarrow> acc_user r = user \<and> Some (acc_seasonId r) = map_option te_id (free_play_season L)"

definition credit_practice :: "settle_input \<Rightarrow> bank \<Rightarrow> bank res" where
  "credit_practice i B =
     (if se_purpose i \<noteq> Practice_sol then Inr B
      else
        let hit = credited_account B (se_user i);
            amount = (case se_amountCredited i of None \<Rightarrow> 0 | Some a \<Rightarrow> a) in
        rbind (ensure (list_all (\<lambda>r. hit r \<longrightarrow> 0 \<le> acc_balance r + amount) (accounts B)) Db_error) (\<lambda>_.
        rbind (ensure (length (filter hit (accounts B)) = 1) Plain_error) (\<lambda>_.
        Inr (B\<lparr>accounts := map (\<lambda>r. if hit r then r\<lparr>acc_balance := acc_balance r + amount, acc_updatedAt := se_now i\<rparr>
          else r) (accounts B)\<rparr>))))"

text \<open>
  The transaction. A signature that is already there fails its unique index, which rolls the
  transaction back and reads the other settlement.
\<close>

definition settle_fresh :: "settle_input \<Rightarrow> bank \<Rightarrow> (settlement \<times> bank) res" where
  "settle_fresh i B =
     rbind (ensure (0 \<le> se_amount i) Db_error) (\<lambda>_.
     case payment_signed B (se_txSignature i) of
       Some p \<Rightarrow> Inr (already_settled B p, B)
     | None \<Rightarrow>
         let p = new_payment i B; B1 = link_intent (se_reference i) (pm_id p) (B\<lparr>payments := payments B @ [p]\<rparr>) in
         rbind (settle_entry i p B1) (\<lambda>(entryId, B2).
         rbind (credit_practice i B2) (\<lambda>B3.
         Inr (\<lparr>sl_payment = p, sl_fresh = True, sl_entryId = entryId\<rparr>, B3))))"

text \<open>The check before the transaction reads \<open>seen\<close>, an earlier state of the tables.\<close>

definition settlePayment :: "settle_input \<Rightarrow> bank \<Rightarrow> bank \<Rightarrow> (settlement \<times> bank) res" where
  "settlePayment i seen B = (case payment_signed seen (se_txSignature i) of
       Some p \<Rightarrow> Inr (already_settled seen p, B)
     | None \<Rightarrow> settle_fresh i B)"

section \<open>Confirming a payment\<close>

definition base58_chars :: string where
  "base58_chars = ''123456789ABCDEFGHJKLMNPQRSTUVWXYZabcdefghijkmnopqrstuvwxyz''"

definition signature_ok :: "string \<Rightarrow> bool" where
  "signature_ok s \<longleftrightarrow> 64 \<le> length s \<and> length s \<le> 90 \<and> list_all (\<lambda>c. c \<in> set base58_chars) s"

datatype chain_read = Unreachable | Read "confirmed_transaction option"

datatype confirmation =
    Confirm_refused int
  | Payment_refused int verification_failure
  | Confirmed settlement "practice_tier option"

definition intent_tier :: "intent_row \<Rightarrow> practice_tier option" where
  "intent_tier intent = (if pi_purpose intent = Practice_sol
     then List.find (\<lambda>t. tier_priceLamports t = pi_amount intent) PRACTICE_TIERS else None)"

definition confirm_input :: "intent_row \<Rightarrow> string \<Rightarrow> string \<Rightarrow> int \<Rightarrow> settle_input" where
  "confirm_input intent user signature now = \<lparr>se_reference = pi_reference intent, se_txSignature = signature,
     se_user = user, se_seasonId = pi_seasonId intent, se_purpose = pi_purpose intent,
     se_amount = pi_amount intent, se_amountCredited = map_option creditFor (intent_tier intent), se_now = now\<rparr>"

definition intent_expectation :: "intent_row \<Rightarrow> expectation" where
  "intent_expectation intent = \<lparr>xp_payer = pi_user intent, xp_recipient = pi_recipient intent,
     xp_lamports = pi_amount intent, xp_reference = pi_reference intent\<rparr>"

text \<open>
  The route, from the signed-in user on. \<open>chain\<close> answers the finalized transaction of a
  signature; the intent and the earlier payment are read in \<open>seen\<close>.
\<close>

definition confirmPayment :: "(string \<Rightarrow> chain_read) \<Rightarrow> string option \<Rightarrow> string \<Rightarrow> string \<Rightarrow> int \<Rightarrow> bank \<Rightarrow> bank
    \<Rightarrow> (confirmation \<times> bank) res" where
  "confirmPayment chain signed_in reference signature now seen B = (case signed_in of
       None \<Rightarrow> Inr (Confirm_refused 401, B)
     | Some user \<Rightarrow>
         if \<not> signature_ok signature then Inr (Confirm_refused 400, B)
         else case getPaymentIntent seen reference of
           None \<Rightarrow> Inr (Confirm_refused 404, B)
         | Some intent \<Rightarrow>
             if pi_user intent \<noteq> user then Inr (Confirm_refused 403, B)
             else case chain signature of
               Unreachable \<Rightarrow> Inr (Confirm_refused 502, B)
             | Read transaction \<Rightarrow>
                 let v = verifyPayment transaction (intent_expectation intent) in
                 if \<not> vr_ok v then
                   Inr (Payment_refused (if vr_failure v = Some Not_found then 202 else 400) (the (vr_failure v)), B)
                 else if pi_purpose intent = Practice_sol \<and> intent_tier intent = None
                 then Inr (Confirm_refused 409, B)
                 else rbind (settlePayment (confirm_input intent user signature now) seen B) (\<lambda>(s, B').
                   Inr (Confirmed s (intent_tier intent), B')))"

text \<open>The store's part of an intent: the account that will be credited exists before it.\<close>

definition storeIntent :: "string \<Rightarrow> string \<Rightarrow> string \<Rightarrow> int \<Rightarrow> int \<Rightarrow> bank \<Rightarrow> (intent_row \<times> bank) res option" where
  "storeIntent reference user treasury n now B = (case tierFor n of
       None \<Rightarrow> None
     | Some tier \<Rightarrow>
         let (freePlayId, B1) = ensureFreePlaySeason B in
         Some (rbind (ensureAccount freePlayId user now B1) (\<lambda>(_, B2).
           rbind (createIntent reference user treasury (tier_priceLamports tier) Practice_sol None now None) (\<lambda>intent.
           createPaymentIntent \<lparr>iw_reference = in_reference intent, iw_user = user, iw_seasonId = None,
             iw_purpose = Practice_sol, iw_recipient = treasury, iw_amount = tier_priceLamports tier,
             iw_expiresAt = in_expiresAt intent\<rparr> now B2))))"

section \<open>What the tables keep\<close>

text \<open>
  What an account holds beyond its opening balance and its own trades, and what its owner
  bought in the store.
\<close>

definition net :: "trade_write \<Rightarrow> int" where
  "net t = (case tw_side t of Buy \<Rightarrow> - tw_solAmount t | Sell \<Rightarrow> tw_solAmount t)"

definition surplus :: "'a ledger_scheme \<Rightarrow> stored_account \<Rightarrow> int" where
  "surplus L r = acc_balance r - opened_with L r - sum_list (map net (log_of L (acc_id r)))"

definition bonus :: "'a ledger_scheme \<Rightarrow> string \<Rightarrow> int" where
  "bonus L u = sum_list (map (surplus L) (filter (\<lambda>r. acc_user r = u) (accounts L)))"

definition credit_of :: "payment_row \<Rightarrow> int" where
  "credit_of p = (if pm_purpose p \<noteq> Practice_sol then 0
     else case List.find (\<lambda>t. tier_priceLamports t = pm_amount p) PRACTICE_TIERS of
       None \<Rightarrow> 0 | Some t \<Rightarrow> creditFor t)"

definition bought :: "bank \<Rightarrow> string \<Rightarrow> int" where
  "bought B u = sum_list (map credit_of (filter (\<lambda>p. pm_user p = u) (payments B)))"

definition sound_accounts :: "'a ledger_scheme \<Rightarrow> bool" where
  "sound_accounts L \<longleftrightarrow> wf_ledger L \<and> (\<forall>r \<in> set (accounts L). season_of L (acc_seasonId r) \<noteq> None)"

definition sound_payments :: "bank \<Rightarrow> bool" where
  "sound_payments B \<longleftrightarrow> distinct (map pm_txSignature (payments B)) \<and> (\<forall>p \<in> set (payments B). pm_status p = ''verified'' \<and> 0 \<le> pm_amount p)
     \<and> distinct (map (\<lambda>e. (en_seasonId e, en_user e)) (entries B))
     \<and> (\<forall>p \<in> set (payments B). \<forall>s. pm_purpose p = Season_entry \<and> pm_seasonId p = Some s
          \<longrightarrow> hasEntered B s (pm_user p))"

definition sound_bank :: "bank \<Rightarrow> bool" where
  "sound_bank B \<longleftrightarrow> sound_accounts B \<and> sound_payments B \<and> (\<forall>u. bonus B u = bought B u)"

section \<open>Accounts under the ledger's own operations\<close>

lemma log_of_swap [simp]: "log_of (L\<lparr>accounts := as\<rparr>) = log_of L"
  by (simp add: log_of_def fun_eq_iff)

lemma opened_with_swap [simp]: "opened_with (L\<lparr>accounts := as\<rparr>) = opened_with L"
  by (simp add: opened_with_def fun_eq_iff)

lemma surplus_swap [simp]: "surplus (L\<lparr>accounts := as\<rparr>) = surplus L"
  by (simp add: surplus_def fun_eq_iff)

lemma insert_account_shape:
  assumes "insert_account s u g b now L = Inr L'"
  shows "L' = L \<or> (\<exists>r. L' = L\<lparr>accounts := accounts L @ [r]\<rparr> \<and> acc_id r \<notin> acc_id ` set (accounts L)
    \<and> acc_seasonId r = s \<and> acc_user r = u \<and> acc_balance r = b)"
  using assms next_id_new [of "map acc_id (accounts L)"]
  by (auto simp: insert_account_def split: if_splits)

text \<open>A new account starts with no surplus.\<close>

lemma insert_account_keeps:
  assumes "insert_account s u g (te_startingBalance t) now L = Inr L'" "season_of L s = Some t" "sound_accounts L"
  shows "sound_accounts L' \<and> bonus L' = bonus L"
  using insert_account_shape [OF assms(1)]
proof
  assume "\<exists>r. L' = L\<lparr>accounts := accounts L @ [r]\<rparr> \<and> acc_id r \<notin> acc_id ` set (accounts L)
    \<and> acc_seasonId r = s \<and> acc_user r = u \<and> acc_balance r = te_startingBalance t"
  then obtain r where L': "L' = L\<lparr>accounts := accounts L @ [r]\<rparr>" and new: "acc_id r \<notin> acc_id ` set (accounts L)"
    and r: "acc_seasonId r = s" "acc_balance r = te_startingBalance t" by blast
  have wf: "wf_ledger L" using assms(3) by (simp add: sound_accounts_def)
  then have "\<forall>x \<in> set (trades L). tw_accountId (tr_write x) \<noteq> acc_id r"
    using new unfolding wf_ledger_def by metis
  then have "trades_of L (acc_id r) = []" by (simp add: trades_of_def filter_empty_conv)
  then have "surplus L r = 0" using r assms(2) by (simp add: surplus_def log_of_def opened_with_def)
  then have "bonus L' = bonus L" by (simp add: bonus_def L' fun_eq_iff)
  moreover have "wf_ledger L'" using wf new by (auto simp: wf_ledger_def L')
  ultimately show ?thesis using assms(2,3) r(1) by (auto simp: sound_accounts_def L')
qed (use assms(3) in simp)

lemma ensureAccount_keeps:
  assumes "ensureAccount s u now L = Inr (v, L')" "sound_accounts L"
  shows "sound_accounts L' \<and> bonus L' = bonus L"
  using assms insert_account_keeps [OF _ _ assms(2)]
  by (fastforce simp: ensureAccount_def split: option.splits)

lemma startOver_keeps:
  assumes "startOver s u now L = Inr (v, L')" "sound_accounts L"
  shows "sound_accounts L' \<and> bonus L' = bonus L"
proof -
  from assms(1) obtain t g L1 where t: "season_of L s = Some t"
    and i: "insert_account s u g (te_startingBalance t) now L = Inr L1"
    and e: "ensureAccount s u now L1 = Inr (v, L')"
    by (auto simp: startOver_def Let_def split: option.splits)
  from insert_account_keeps [OF i t assms(2)] ensureAccount_keeps [OF e] show ?thesis by simp
qed

lemma ensureFreePlaySeason_keeps:
  assumes "ensureFreePlaySeason L = (i, L')" "sound_accounts L"
  shows "sound_accounts L' \<and> bonus L' = bonus L"
proof (cases "List.find (\<lambda>s. te_ordinal s = FREE_PLAY_ORDINAL) (seasons L)")
  case None
  with assms(1) obtain s where L': "L' = L\<lparr>seasons := seasons L @ [s]\<rparr>"
    by (auto simp: ensureFreePlaySeason_def Let_def)
  have known: "season_of L' x = season_of L x" if "season_of L x \<noteq> None" for x
    using that by (auto simp: season_of_def L' find_append)
  then have s: "surplus L' r = surplus L r" if "r \<in> set (accounts L)" for r
    using that assms(2) by (auto simp: surplus_def opened_with_def log_of_def trades_of_def sound_accounts_def L')
  have "bonus L' u = bonus L u" for u
    unfolding bonus_def using s by (intro arg_cong [where f = sum_list] map_cong) (simp_all add: L')
  moreover have "wf_ledger L'" using assms(2) by (simp add: sound_accounts_def wf_ledger_def L')
  ultimately show ?thesis using assms(2) known by (auto simp: sound_accounts_def fun_eq_iff L')
next
  case (Some s)
  with assms show ?thesis by (simp add: ensureFreePlaySeason_def)
qed

lemma executeTrade_cases:
  assumes "executeTrade H dec suspended rq click fill seen L = Inr (out, L')"
  obtains "L' = L" | w tid sequence where "recordTrade w L = Inr (tid, sequence, L')" "sound_input w"
proof (cases "\<exists>f. out = Trade_filled f")
  case True
  then obtain f where "out = Trade_filled f" by blast
  with assms have "executeTrade H dec suspended rq click fill seen L = Inr (Trade_filled f, L')" by simp
  then show thesis by (rule executeTrade_filled) (rule that(2))
next
  case False
  with executeTrade_refused [OF assms] that(1) show thesis by blast
qed

text \<open>A trade moves a balance by what its log says, so no surplus changes.\<close>

lemma recordTrade_keeps:
  assumes "recordTrade w L = Inr (tid, sequence, L')" "sound_input w" "sound_accounts L"
  shows "sound_accounts L' \<and> bonus L' = bonus L"
proof -
  have wf: "wf_ledger L" using assms(3) by (simp add: sound_accounts_def)
  from assms(1) wf assms(2) obtain t r r' ys zs ss ps where
    e: "accounts L = ys @ r # zs" "acc_id r = tw_accountId (ti_trade w)" "acc_balance r = ti_expectedBalance w"
      "r' = r\<lparr>acc_balance := ti_newBalance w, acc_updatedAt := ti_now w\<rparr>" "tr_write t = ti_trade w"
      "L' = L\<lparr>accounts := ys @ r' # zs, positions := ps, trades := trades L @ [t], snapshots := ss\<rparr>" "wf_ledger L'"
    by (rule recordTrade_effect)
  have d: "acc_id x \<noteq> acc_id r" if "x \<in> set ys \<union> set zs" for x
  proof -
    have "distinct (map acc_id (accounts L))" using wf by (simp add: wf_ledger_def)
    then have "acc_id r \<notin> acc_id ` set ys" "acc_id r \<notin> acc_id ` set zs" by (simp_all add: e(1))
    with that show ?thesis by (metis Un_iff imageI)
  qed
  have logs: "log_of L' a = log_of L a @ (if a = acc_id r then [ti_trade w] else [])" for a
    using e(2,5) by (simp add: e(6) log_of_def trades_of_def)
  have op: "opened_with L' x = opened_with L x" for x by (simp add: opened_with_def season_of_def e(6))
  have "surplus L' r' = surplus L r"
    using assms(2) e(2-4) logs op by (auto simp: surplus_def sound_input_def Let_def net_def opened_with_def split: side.splits)
  moreover have "surplus L' x = surplus L x" if "x \<in> set ys \<union> set zs" for x
    using d [OF that] logs op by (simp add: surplus_def)
  then have "sum_list (map (surplus L') (filter P ys)) = sum_list (map (surplus L) (filter P ys))"
    "sum_list (map (surplus L') (filter P zs)) = sum_list (map (surplus L) (filter P zs))" for P
    by (intro arg_cong [where f = sum_list] map_cong; simp)+
  moreover have "accounts L' = ys @ r' # zs" "acc_user r' = acc_user r" using e(4) by (simp_all add: e(6))
  ultimately have "bonus L' u = bonus L u" for u
    unfolding bonus_def e(1) by simp
  moreover have "season_of L' (acc_seasonId x) \<noteq> None" if "x \<in> set (accounts L')" for x
    using that assms(3) e(4) by (auto simp: sound_accounts_def e(1,6))
  ultimately show ?thesis using e(7) by (auto simp: sound_accounts_def fun_eq_iff)
qed

section \<open>Settlement keeps the tables\<close>

lemma sum_bumped:
  "sum_list (map (\<lambda>x. f x + (if P x then a else 0)) xs) = sum_list (map f xs) + a * int (length (filter P xs))"
  by (induction xs) (auto simp: distrib_left)

lemma entry_of_None: "entry_of B s u = None \<longleftrightarrow> (s, u) \<notin> (\<lambda>e. (en_seasonId e, en_user e)) ` set (entries B)"
  by (auto simp: entry_of_def find_None_iff)

text \<open>Entries are only ever added, one per season and wallet.\<close>

lemma insert_entry_keeps:
  assumes "insert_entry s u p now e B = (i, B')"
  shows "\<exists>es. B' = B\<lparr>entries := es\<rparr> \<and> hasEntered B' s u \<and> (\<forall>x y. hasEntered B x y \<longrightarrow> hasEntered B' x y)
    \<and> (distinct (map (\<lambda>e. (en_seasonId e, en_user e)) (entries B))
        \<longrightarrow> distinct (map (\<lambda>e. (en_seasonId e, en_user e)) es))"
proof (cases "hasEntered B s u")
  case True
  with assms show ?thesis by (intro exI [of _ "entries B"]) (simp add: insert_entry_def)
next
  case False
  with assms obtain r where r: "B' = B\<lparr>entries := entries B @ [r]\<rparr>" "en_seasonId r = s" "en_user r = u"
    by (auto simp: insert_entry_def Let_def)
  with False show ?thesis
    by (intro exI [of _ "entries B @ [r]"]) (auto simp: hasEntered_def entry_of_def find_append find_None_iff split: option.splits)
qed

lemma settle_entry_keeps:
  assumes "settle_entry i p B = Inr (entryId, B')"
  shows "\<exists>es. B' = B\<lparr>entries := es\<rparr> \<and> (\<forall>x y. hasEntered B x y \<longrightarrow> hasEntered B' x y)
    \<and> (\<forall>s. se_purpose i = Season_entry \<and> se_seasonId i = Some s \<longrightarrow> hasEntered B' s (se_user i))
    \<and> (distinct (map (\<lambda>e. (en_seasonId e, en_user e)) (entries B))
        \<longrightarrow> distinct (map (\<lambda>e. (en_seasonId e, en_user e)) es))"
proof (cases "\<exists>s. se_purpose i = Season_entry \<and> se_seasonId i = Some s")
  case False
  then have "entryId = None \<and> B' = B" using assms by (auto simp: settle_entry_def split: purpose.splits option.splits)
  with False show ?thesis by (intro exI [of _ "entries B"]) auto
next
  case True
  then obtain s where s: "se_purpose i = Season_entry" "se_seasonId i = Some s" by blast
  show ?thesis
  proof (cases "getPaymentIntent B (se_reference i)")
    case None
    with assms s have "B' = B" "hasEntered B s (se_user i)" by (auto simp: settle_entry_def)
    with s show ?thesis by (intro exI [of _ "entries B"]) auto
  next
    case (Some intent)
    with assms s have "insert_entry s (se_user i) (Some (pm_id p)) (se_now i) (pi_evidence intent) B = (entryId, B')"
      by (simp add: settle_entry_def)
    from insert_entry_keeps [OF this] s show ?thesis by auto
  qed
qed

text \<open>The credit goes to one account of the buyer, and raises its surplus by what was bought.\<close>

lemma credit_practice_keeps:
  assumes "credit_practice i B = Inr B'" "sound_accounts B"
  shows "\<exists>as. B' = B\<lparr>accounts := as\<rparr> \<and> sound_accounts B' \<and> (\<forall>u. bonus B' u = bonus B u
    + (if se_purpose i = Practice_sol \<and> u = se_user i then (case se_amountCredited i of None \<Rightarrow> 0 | Some a \<Rightarrow> a) else 0))"
proof (cases "se_purpose i = Practice_sol")
  case False
  with assms show ?thesis by (intro exI [of _ "accounts B"]) (simp add: credit_practice_def)
next
  case True
  define hit where "hit = credited_account B (se_user i)"
  define a where "a = (case se_amountCredited i of None \<Rightarrow> 0 | Some a \<Rightarrow> a)"
  define up where "up = (\<lambda>r. if hit r then r\<lparr>acc_balance := acc_balance r + a, acc_updatedAt := se_now i\<rparr> else r)"
  from assms(1) True have one: "length (filter hit (accounts B)) = 1"
    and B': "B' = B\<lparr>accounts := map up (accounts B)\<rparr>"
    by (auto simp: credit_practice_def Let_def hit_def a_def up_def)
  have [simp]: "acc_id (up r) = acc_id r" "acc_user (up r) = acc_user r" "acc_seasonId (up r) = acc_seasonId r" for r
    by (simp_all add: up_def)
  have s: "surplus B (up r) = surplus B r + (if hit r then a else 0)" for r
    by (simp add: up_def surplus_def opened_with_def)
  have hits: "filter hit (filter (\<lambda>r. acc_user r = u) (accounts B))
      = (if u = se_user i then filter hit (accounts B) else [])" for u
    by (auto simp: hit_def credited_account_def filter_empty_conv intro: filter_cong)
  have "bonus B' u = bonus B u + (if u = se_user i then a else 0)" for u
  proof -
    have "bonus B' u = sum_list (map (\<lambda>r. surplus B r + (if hit r then a else 0)) (filter (\<lambda>r. acc_user r = u) (accounts B)))"
      by (simp add: bonus_def B' filter_map comp_def s)
    also have "\<dots> = bonus B u + (if u = se_user i then a else 0)"
      unfolding sum_bumped hits bonus_def using one by simp
    finally show ?thesis .
  qed
  moreover have "sound_accounts B'"
    using assms(2) by (auto simp: sound_accounts_def wf_ledger_def B' comp_def image_image)
  ultimately show ?thesis using True B' by (auto simp: a_def)
qed

text \<open>A settlement for a purchase credits what the price buys.\<close>

definition priced :: "settle_input \<Rightarrow> bool" where
  "priced i \<longleftrightarrow> (se_purpose i = Practice_sol \<longrightarrow>
     (case se_amountCredited i of None \<Rightarrow> 0 | Some a \<Rightarrow> a) = credit_of (new_payment i \<lparr>seasons = [], accounts = [],
       positions = [], trades = [], snapshots = [], intents = [], payments = [], entries = []\<rparr>))"

lemma credit_of_new: "credit_of (new_payment i B) = credit_of (new_payment i B')"
  by (simp add: credit_of_def new_payment_def)

lemma season_entry_kept:
  assumes "sound_payments B" "\<forall>x y. hasEntered B x y \<longrightarrow> hasEntered B' x y" "p \<in> set (payments B)"
    "pm_purpose p = Season_entry" "pm_seasonId p = Some s"
  shows "hasEntered B' s (pm_user p)"
  using assms by (auto simp: sound_payments_def)

lemma settle_fresh_keeps:
  assumes "settle_fresh i B = Inr (sl, B')" "sound_bank B" "priced i"
  shows "sound_bank B'"
proof (cases "payment_signed B (se_txSignature i)")
  case (Some p)
  with assms show ?thesis by (auto simp: settle_fresh_def)
next
  case None
  define p where "p = new_payment i B"
  define B1 where "B1 = link_intent (se_reference i) (pm_id p) (B\<lparr>payments := payments B @ [p]\<rparr>)"
  from assms(1) None obtain entryId B2 where e: "settle_entry i p B1 = Inr (entryId, B2)"
    and c: "credit_practice i B2 = Inr B'" and amount: "0 \<le> se_amount i"
    by (auto simp: settle_fresh_def Let_def p_def B1_def)
  obtain es where B2: "B2 = B1\<lparr>entries := es\<rparr>" "\<forall>x y. hasEntered B1 x y \<longrightarrow> hasEntered B2 x y"
    "\<forall>s. se_purpose i = Season_entry \<and> se_seasonId i = Some s \<longrightarrow> hasEntered B2 s (se_user i)"
    "distinct (map (\<lambda>e. (en_seasonId e, en_user e)) (entries B1)) \<longrightarrow> distinct (map (\<lambda>e. (en_seasonId e, en_user e)) es)"
    using settle_entry_keeps [OF e] by blast
  have tables1: "accounts B1 = accounts B" "trades B1 = trades B" "positions B1 = positions B"
    "seasons B1 = seasons B" "payments B1 = payments B @ [p]" "entries B1 = entries B"
    unfolding B1_def link_intent_def by simp_all
  then have tables: "accounts B2 = accounts B" "trades B2 = trades B" "positions B2 = positions B"
    "seasons B2 = seasons B" "payments B2 = payments B @ [p]" "entries B1 = entries B"
    unfolding B2(1) by simp_all
  have "surplus B2 = surplus B"
    by (simp add: surplus_def opened_with_def season_of_def log_of_def trades_of_def tables fun_eq_iff)
  then have bonus2: "bonus B2 = bonus B" by (intro ext) (simp only: bonus_def tables)
  have "sound_accounts B2" using assms(2)
    by (simp add: sound_bank_def sound_accounts_def wf_ledger_def season_of_def tables)
  from credit_practice_keeps [OF c this] obtain as where B': "B' = B2\<lparr>accounts := as\<rparr>" "sound_accounts B'"
    "\<forall>u. bonus B' u = bonus B2 u
      + (if se_purpose i = Practice_sol \<and> u = se_user i then (case se_amountCredited i of None \<Rightarrow> 0 | Some a \<Rightarrow> a) else 0)"
    by blast
  have pays: "payments B' = payments B @ [p]" "entries B' = es" by (simp_all add: B'(1) B2(1) tables1)
  have p: "pm_user p = se_user i" "pm_txSignature p = se_txSignature i" "pm_status p = ''verified''"
    "pm_purpose p = se_purpose i" "pm_seasonId p = se_seasonId i" "0 \<le> pm_amount p"
    using amount by (simp_all add: p_def new_payment_def)
  have sp: "sound_payments B" using assms(2) by (simp add: sound_bank_def)
  have grows: "hasEntered B' x y" if "hasEntered B x y" for x y
    using that B2(2) by (auto simp: hasEntered_def entry_of_def B'(1) tables)
  have "hasEntered B' s (pm_user p)" if "pm_purpose p = Season_entry" "pm_seasonId p = Some s" for s
    using that B2(3) p by (simp add: hasEntered_def entry_of_def B'(1))
  moreover have "pm_txSignature p \<notin> pm_txSignature ` set (payments B)"
    using None p(2) by (auto simp: payment_signed_def find_None_iff)
  moreover have "distinct (map (\<lambda>e. (en_seasonId e, en_user e)) es)"
    using B2(4) sp by (simp add: tables sound_payments_def)
  ultimately have "sound_payments B'"
    using sp grows p(3,6) by (auto simp: sound_payments_def pays)
  moreover have "bonus B' u = bought B' u" for u
  proof -
    have "bought B' u = bought B u + (if u = se_user i then credit_of p else 0)"
      using p(1) by (auto simp: bought_def pays)
    moreover have "credit_of p = (if se_purpose i = Practice_sol
        then (case se_amountCredited i of None \<Rightarrow> 0 | Some a \<Rightarrow> a) else 0)"
      using assms(3) credit_of_new [of i B] p(4) by (auto simp: priced_def p_def credit_of_def)
    moreover have "bonus B u = bought B u" using assms(2) by (simp add: sound_bank_def)
    ultimately show ?thesis using B'(3) bonus2 by auto
  qed
  ultimately show ?thesis using B'(2) by (simp add: sound_bank_def)
qed

lemma confirm_priced:
  assumes "pi_purpose intent = Practice_sol \<longrightarrow> intent_tier intent \<noteq> None"
  shows "priced (confirm_input intent user signature now)"
proof (cases "pi_purpose intent = Practice_sol")
  case True
  then obtain t where "List.find (\<lambda>t. tier_priceLamports t = pi_amount intent) PRACTICE_TIERS = Some t"
    using assms by (auto simp: intent_tier_def)
  with True show ?thesis
    by (simp add: priced_def confirm_input_def credit_of_def new_payment_def intent_tier_def)
qed (simp add: priced_def confirm_input_def)

lemma confirmPayment_keeps:
  assumes "confirmPayment chain who reference signature now seen B = Inr (c, B')" "sound_bank B"
  shows "sound_bank B'"
proof (cases "B' = B")
  case False
  with assms(1) obtain user where "who = Some user" by (cases who) (auto simp: confirmPayment_def)
  with False assms(1) obtain intent where "getPaymentIntent seen reference = Some intent"
    by (cases "getPaymentIntent seen reference") (auto simp: confirmPayment_def split: if_splits)
  with \<open>who = Some user\<close> False assms(1) obtain tx where "chain signature = Read tx"
    by (cases "chain signature") (auto simp: confirmPayment_def split: if_splits)
  with \<open>who = Some user\<close> \<open>getPaymentIntent seen reference = Some intent\<close> False assms(1) obtain s where
    t: "\<not> (pi_purpose intent = Practice_sol \<and> intent_tier intent = None)"
    and s: "settlePayment (confirm_input intent user signature now) seen B = Inr (s, B')"
    by (auto simp: confirmPayment_def Let_def split: if_splits)
  from s False have "settle_fresh (confirm_input intent user signature now) B = Inr (s, B')"
    by (auto simp: settlePayment_def split: option.splits)
  moreover have "priced (confirm_input intent user signature now)" using t by (intro confirm_priced) simp
  ultimately show ?thesis using assms(2) settle_fresh_keeps by blast
qed (use assms(2) in simp)

section \<open>A client of the bank\<close>

text \<open>
  Every request that reaches these tables. An order and a confirmation carry the state they
  read first, which may be any earlier one.
\<close>

datatype bank_op =
    Bank_free_play
  | Bank_visit int string int
  | Bank_start_over int string int
  | Bank_order bool trade_request market_read market_read bank
  | Ask_payment intent_write int
  | Ask_store string string string int int
  | Note_evidence string wallet_evidence
  | Enter_free int string wallet_evidence int
  | Confirm_payment "string option" string string int bank

definition state_after :: "bank \<Rightarrow> ('a \<times> bank) res \<Rightarrow> bank" where
  "state_after B r = (case r of Inl _ \<Rightarrow> B | Inr (_, B') \<Rightarrow> B')"

definition run_bank :: "(byte list \<Rightarrow> byte list) \<Rightarrow> (string \<Rightarrow> byte list option) \<Rightarrow> (string \<Rightarrow> chain_read) \<Rightarrow> bank \<Rightarrow> bank_op \<Rightarrow> bank" where
  "run_bank H dec chain B op = (case op of
       Bank_free_play \<Rightarrow> snd (ensureFreePlaySeason B)
     | Bank_visit seasonId user now \<Rightarrow> state_after B (ensureAccount seasonId user now B)
     | Bank_start_over seasonId user now \<Rightarrow> state_after B (startOver seasonId user now B)
     | Bank_order suspended rq click fill seen \<Rightarrow> state_after B (executeTrade H dec suspended rq click fill seen B)
     | Ask_payment w now \<Rightarrow> state_after B (createPaymentIntent w now B)
     | Ask_store reference user treasury n now \<Rightarrow>
         (case storeIntent reference user treasury n now B of None \<Rightarrow> B | Some r \<Rightarrow> state_after B r)
     | Note_evidence reference e \<Rightarrow> recordIntentEvidence reference e B
     | Enter_free seasonId user e now \<Rightarrow> snd (enterFreeSeason seasonId user e now B)
     | Confirm_payment who reference signature now seen \<Rightarrow>
         state_after B (confirmPayment chain who reference signature now seen B))"

definition new_bank :: "season_terms list \<Rightarrow> bank" where
  "new_bank ss = \<lparr>seasons = ss, accounts = [], positions = [], trades = [], snapshots = [], intents = [],
     payments = [], entries = []\<rparr>"

lemma new_bank_sound: "sound_bank (new_bank ss)"
  by (simp add: sound_bank_def sound_accounts_def sound_payments_def wf_ledger_def bonus_def bought_def new_bank_def)

text \<open>An operation that leaves the payments and the entries alone, and the surplus of every account.\<close>

lemma sound_bank_keeps:
  assumes "sound_bank B" "sound_accounts B' \<and> bonus B' = bonus B" "payments B' = payments B" "entries B' = entries B"
  shows "sound_bank B'"
  using assms by (simp add: sound_bank_def sound_payments_def hasEntered_def entry_of_def bought_def)

lemma tables_kept:
  "insert_account s u g b now B = Inr B' \<Longrightarrow> payments B' = payments B \<and> entries B' = entries B"
  "ensureAccount s u now B = Inr (v, B') \<Longrightarrow> payments B' = payments B \<and> entries B' = entries B"
  "startOver s u now B = Inr (v, B') \<Longrightarrow> payments B' = payments B \<and> entries B' = entries B"
  "ensureFreePlaySeason B = (i, B') \<Longrightarrow> payments B' = payments B \<and> entries B' = entries B"
proof -
  show i: "payments B' = payments B \<and> entries B' = entries B" if "insert_account s u g b now B = Inr B'" for s u g b now B B'
    using that by (auto simp: insert_account_def split: if_splits)
  show e: "payments B' = payments B \<and> entries B' = entries B" if "ensureAccount s u now B = Inr (v, B')" for s u now B v B'
    using that i by (fastforce simp: ensureAccount_def split: option.splits)
  show "payments B' = payments B \<and> entries B' = entries B" if "startOver s u now B = Inr (v, B')"
    using that i e by (fastforce simp: startOver_def Let_def split: option.splits)
  show "payments B' = payments B \<and> entries B' = entries B" if "ensureFreePlaySeason B = (i, B')"
    using that by (auto simp: ensureFreePlaySeason_def Let_def split: option.splits)
qed

lemma recordTrade_tables:
  assumes "recordTrade w B = Inr (tid, sequence, B')" "sound_input w" "sound_accounts B"
  shows "payments B' = payments B \<and> entries B' = entries B"
proof -
  have "wf_ledger B" using assms(3) by (simp add: sound_accounts_def)
  from recordTrade_effect [OF assms(1) this assms(2)] show ?thesis by (metis bank.select_convs(2,3) bank.surjective ledger.update_convs)
qed

lemma insert_entry_sound:
  assumes "sound_bank B" "insert_entry s u p now e B = (i, B')"
  shows "sound_bank B'"
proof -
  obtain es where es: "B' = B\<lparr>entries := es\<rparr>" "\<forall>x y. hasEntered B x y \<longrightarrow> hasEntered B' x y"
    "distinct (map (\<lambda>e. (en_seasonId e, en_user e)) (entries B)) \<longrightarrow> distinct (map (\<lambda>e. (en_seasonId e, en_user e)) es)"
    using insert_entry_keeps [OF assms(2)] by blast
  have "surplus B' = surplus B"
    by (simp add: surplus_def opened_with_def season_of_def log_of_def trades_of_def es(1) fun_eq_iff)
  then have "bonus B' = bonus B" by (intro ext) (simp add: bonus_def es(1))
  moreover have "sound_accounts B'" using assms(1)
    by (simp add: sound_bank_def sound_accounts_def wf_ledger_def season_of_def es(1))
  moreover have "bought B' = bought B" by (simp add: bought_def es(1) fun_eq_iff)
  ultimately show ?thesis using assms(1) es(2,3)
    by (auto simp: sound_bank_def sound_payments_def es(1))
qed

lemma intents_sound:
  assumes "sound_bank B"
  shows "sound_bank (B\<lparr>intents := ii\<rparr>)"
proof (rule sound_bank_keeps [OF assms])
  have "surplus (B\<lparr>intents := ii\<rparr>) = surplus B"
    by (simp add: surplus_def opened_with_def season_of_def log_of_def trades_of_def fun_eq_iff)
  then have "bonus (B\<lparr>intents := ii\<rparr>) = bonus B" by (intro ext) (simp add: bonus_def)
  then show "sound_accounts (B\<lparr>intents := ii\<rparr>) \<and> bonus (B\<lparr>intents := ii\<rparr>) = bonus B"
    using assms by (simp add: sound_bank_def sound_accounts_def wf_ledger_def season_of_def)
qed simp_all

lemma createPaymentIntent_sound:
  assumes "createPaymentIntent w now B = Inr (r, B')" "sound_bank B"
  shows "sound_bank B'"
  using assms intents_sound by (auto simp: createPaymentIntent_def Let_def)

lemma storeIntent_sound:
  assumes "storeIntent reference user treasury n now B = Some (Inr (r, B'))" "sound_bank B"
  shows "sound_bank B'"
proof -
  from assms(1) obtain i B1 v B2 w where 1: "ensureFreePlaySeason B = (i, B1)"
    and 2: "ensureAccount i user now B1 = Inr (v, B2)" and 3: "createPaymentIntent w now B2 = Inr (r, B')"
    by (auto simp: storeIntent_def split: option.splits prod.splits)
  have a: "sound_accounts B" using assms(2) by (simp add: sound_bank_def)
  note b = ensureFreePlaySeason_keeps [OF 1 a]
  note c = ensureAccount_keeps [OF 2 conjunct1 [OF b]]
  have "sound_bank B2"
    by (rule sound_bank_keeps [OF assms(2)]) (use b c tables_kept(2) [OF 2] tables_kept(4) [OF 1] in simp_all)
  with 3 show ?thesis by (rule createPaymentIntent_sound)
qed

lemma state_after_sound:
  "sound_bank B \<Longrightarrow> (\<And>x B'. r = Inr (x, B') \<Longrightarrow> sound_bank B') \<Longrightarrow> sound_bank (state_after B r)"
  by (auto simp: state_after_def split: sum.splits)

interpretation tables: loop "run_bank H dec chain" "\<lambda>_. True" sound_bank for H dec chain
proof
  fix B op
  assume B: "sound_bank B"
  then have a: "sound_accounts B" by (simp add: sound_bank_def)
  note after = state_after_sound [OF B]
  show "sound_bank (run_bank H dec chain B op)"
  proof (cases op)
    case Bank_free_play
    obtain i B' where e: "ensureFreePlaySeason B = (i, B')" by fastforce
    with sound_bank_keeps [OF B ensureFreePlaySeason_keeps [OF e a]] tables_kept(4) [OF e] Bank_free_play
    show ?thesis by (simp add: run_bank_def)
  next
    case (Bank_visit s u now)
    have "sound_bank B'" if "ensureAccount s u now B = Inr (x, B')" for x B'
      using sound_bank_keeps [OF B ensureAccount_keeps [OF that a]] tables_kept(2) [OF that] by simp
    then show ?thesis by (auto simp: run_bank_def Bank_visit intro!: after)
  next
    case (Bank_start_over s u now)
    have "sound_bank B'" if "startOver s u now B = Inr (x, B')" for x B'
      using sound_bank_keeps [OF B startOver_keeps [OF that a]] tables_kept(3) [OF that] by simp
    then show ?thesis by (auto simp: run_bank_def Bank_start_over intro!: after)
  next
    case (Bank_order suspended rq click fill seen)
    have "sound_bank B'" if "executeTrade H dec suspended rq click fill seen B = Inr (x, B')" for x B'
      using that
    proof (cases rule: executeTrade_cases)
      case 1
      with B show ?thesis by simp
    next
      case (2 w tid sequence)
      from sound_bank_keeps [OF B recordTrade_keeps [OF 2 a]] recordTrade_tables [OF 2 a] show ?thesis by simp
    qed
    then show ?thesis by (auto simp: run_bank_def Bank_order intro!: after)
  next
    case (Ask_payment w now)
    with B show ?thesis by (auto simp: run_bank_def intro!: after intro: createPaymentIntent_sound)
  next
    case (Ask_store reference user treasury n now)
    with B show ?thesis
      by (auto simp: run_bank_def split: option.split intro!: after intro: storeIntent_sound)
  next
    case (Note_evidence reference e)
    with B show ?thesis by (simp add: run_bank_def recordIntentEvidence_def intents_sound)
  next
    case (Enter_free s u e now)
    obtain i B' where "insert_entry s u None now e B = (i, B')" by fastforce
    with insert_entry_sound [OF B this] B Enter_free show ?thesis
      by (auto simp: run_bank_def enterFreeSeason_def split: option.splits)
  next
    case (Confirm_payment who reference signature now seen)
    with B show ?thesis by (auto simp: run_bank_def intro!: after intro: confirmPayment_keeps)
  qed
qed

lemma bank_after: "sound_bank (foldl (run_bank H dec chain) (new_bank ss) ops)"
  by (rule tables.fold_inv) (simp_all add: new_bank_sound list_all_iff)

section \<open>Properties\<close>

lemma sum_surplus:
  "sum_list (map (surplus L) rs) = sum_list (map acc_balance rs) - sum_list (map (opened_with L) rs)
     - sum_list (map (\<lambda>r. sum_list (map net (log_of L (acc_id r)))) rs)"
  by (induction rs) (simp_all add: surplus_def)

text \<open>
  C8: practice money comes from nowhere else. Whatever visits, orders, resets, intents and
  confirmations happened in whatever order, the balances of a wallet's accounts add up to what
  its seasons opened them with, plus what their own trades brought in, plus the credit of every
  payment the wallet made in the store, each counted once.
\<close>

theorem balances_are_opened_traded_or_bought:
  assumes "B = foldl (run_bank H dec chain) (new_bank ss) ops"
  shows "sum_list (map acc_balance (filter (\<lambda>r. acc_user r = u) (accounts B)))
    = sum_list (map (opened_with B) (filter (\<lambda>r. acc_user r = u) (accounts B)))
      + sum_list (map (\<lambda>r. sum_list (map net (log_of B (acc_id r)))) (filter (\<lambda>r. acc_user r = u) (accounts B)))
      + sum_list (map credit_of (filter (\<lambda>p. pm_user p = u) (payments B)))"
proof -
  have "sound_bank B" unfolding assms by (rule bank_after)
  then have "bonus B u = bought B u" by (simp add: sound_bank_def)
  then show ?thesis by (simp add: bonus_def bought_def sum_surplus)
qed

text \<open>
  C11: a payment is credited once and buys what it was for. In every state the tables reach, no
  two payments share a transaction, every one of them was verified, a wallet has at most one
  entry in a season, and a payment for a season has bought an entry there.
\<close>

theorem payments_are_settled_once:
  assumes "B = foldl (run_bank H dec chain) (new_bank ss) ops"
  shows "distinct (map pm_txSignature (payments B)) \<and> list_all (\<lambda>p. pm_status p = ''verified'') (payments B)
    \<and> distinct (map (\<lambda>e. (en_seasonId e, en_user e)) (entries B))
    \<and> (\<forall>p \<in> set (payments B). \<forall>s. pm_purpose p = Season_entry \<and> pm_seasonId p = Some s \<longrightarrow> hasEntered B s (pm_user p))"
proof -
  have "sound_bank B" unfolding assms by (rule bank_after)
  then show ?thesis by (simp add: sound_bank_def sound_payments_def list_all_iff)
qed

text \<open>What it takes to be credited.\<close>

lemma verifyPayment_ok:
  assumes "vr_ok (verifyPayment transaction x)"
  obtains t i before after where "transaction = Some t" "\<not> tx_err t" "tx_accountKeys t \<noteq> []"
    "hd (tx_accountKeys t) = xp_payer x" "xp_reference x \<in> set (tx_accountKeys t)"
    "index_of (tx_accountKeys t) (xp_recipient x) = Some i"
    "at_index (tx_preBalances t) i = Some before" "at_index (tx_postBalances t) i = Some after"
    "after - before = xp_lamports x"
  using assms
  by (auto simp: verifyPayment_def payment_fail_def Let_def at_index_def hd_conv_nth
      split: option.splits if_splits)

lemma confirmPayment_confirmed:
  assumes "confirmPayment chain who reference signature now seen B = Inr (Confirmed s tier, B')"
  obtains user intent transaction where "who = Some user" "getPaymentIntent seen reference = Some intent"
    "pi_user intent = user" "chain signature = Read transaction"
    "vr_ok (verifyPayment transaction (intent_expectation intent))"
    "pi_purpose intent = Practice_sol \<longrightarrow> intent_tier intent \<noteq> None"
    "settlePayment (confirm_input intent user signature now) seen B = Inr (s, B')"
proof -
  from assms obtain user where u: "who = Some user" by (cases who) (auto simp: confirmPayment_def)
  with assms obtain intent where i: "getPaymentIntent seen reference = Some intent"
    by (cases "getPaymentIntent seen reference") (auto simp: confirmPayment_def split: if_splits)
  with u assms have p: "pi_user intent = user" by (auto simp: confirmPayment_def split: if_splits)
  with u i assms obtain transaction where c: "chain signature = Read transaction"
    by (cases "chain signature") (auto simp: confirmPayment_def split: if_splits)
  with u i p assms show thesis
    by (intro that [OF u i p c]) (auto simp: confirmPayment_def Let_def split: if_splits)
qed

lemma settlePayment_fresh:
  assumes "settlePayment i seen B = Inr (s, B')" "sl_fresh s"
  shows "payment_signed B (se_txSignature i) = None \<and> sl_payment s = new_payment i B
    \<and> payments B' = payments B @ [new_payment i B]"
proof -
  from assms have f: "settle_fresh i B = Inr (s, B')"
    by (auto simp: settlePayment_def already_settled_def split: option.splits)
  have none: "payment_signed B (se_txSignature i) = None"
    using f assms(2) by (auto simp: settle_fresh_def already_settled_def split: option.splits)
  define p where "p = new_payment i B"
  define B1 where "B1 = link_intent (se_reference i) (pm_id p) (B\<lparr>payments := payments B @ [p]\<rparr>)"
  from f none obtain entryId B2 where e: "settle_entry i p B1 = Inr (entryId, B2)"
    and c: "credit_practice i B2 = Inr B'" and s: "sl_payment s = p"
    by (auto simp: settle_fresh_def Let_def p_def B1_def)
  have "payments B2 = payments B @ [p]"
    using settle_entry_keeps [OF e] by (auto simp: B1_def link_intent_def)
  then have "payments B' = payments B @ [p]"
    using c by (auto simp: credit_practice_def Let_def split: if_splits)
  with none s show ?thesis by (simp add: p_def)
qed

text \<open>
  C14: only a transaction that really paid is credited. A confirmation that freshly credits a
  payment names an intent issued to the signed-in wallet, and the transaction of the signature
  it gives is final on chain, succeeded, was paid for by that wallet, carries that intent's
  reference, and left the recipient's balance exactly the quoted amount higher. The payment it
  records is for that amount and purpose, and that signature was not credited before.
\<close>

theorem only_a_real_payment_is_credited:
  assumes "confirmPayment chain who reference signature now seen B = Inr (Confirmed s tier, B')" and "sl_fresh s"
  shows "\<exists>intent t i before. getPaymentIntent seen reference = Some intent \<and> who = Some (pi_user intent)
    \<and> chain signature = Read (Some t) \<and> \<not> tx_err t \<and> hd (tx_accountKeys t) = pi_user intent
    \<and> pi_reference intent \<in> set (tx_accountKeys t) \<and> index_of (tx_accountKeys t) (pi_recipient intent) = Some i
    \<and> at_index (tx_preBalances t) i = Some before \<and> at_index (tx_postBalances t) i = Some (before + pi_amount intent)
    \<and> pm_amount (sl_payment s) = pi_amount intent \<and> pm_user (sl_payment s) = pi_user intent
    \<and> pm_purpose (sl_payment s) = pi_purpose intent
    \<and> signature \<notin> pm_txSignature ` set (payments B) \<and> payments B' = payments B @ [sl_payment s]"
  using assms(1)
proof (cases rule: confirmPayment_confirmed)
  case (1 user intent transaction)
  note new = settlePayment_fresh [OF 1(7) assms(2)]
  then have none: "payment_signed B signature = None" by (simp add: confirm_input_def)
  define p where "p = new_payment (confirm_input intent user signature now) B"
  have s: "sl_payment s = p" and pays: "payments B' = payments B @ [p]" using new by (simp_all add: p_def)
  from 1(5) obtain t i before after where v: "transaction = Some t" "\<not> tx_err t"
    "hd (tx_accountKeys t) = pi_user intent" "pi_reference intent \<in> set (tx_accountKeys t)"
    "index_of (tx_accountKeys t) (pi_recipient intent) = Some i"
    "at_index (tx_preBalances t) i = Some before" "at_index (tx_postBalances t) i = Some after"
    "after - before = pi_amount intent"
    by (rule verifyPayment_ok) (simp add: intent_expectation_def)
  from v(8) have "after = before + pi_amount intent" by simp
  moreover have "signature \<notin> pm_txSignature ` set (payments B)"
    using none by (auto simp: payment_signed_def find_None_iff)
  moreover have "pm_amount p = pi_amount intent" "pm_user p = user" "pm_purpose p = pi_purpose intent"
    by (simp_all add: p_def new_payment_def confirm_input_def)
  ultimately show ?thesis using 1(1-4) v pays s by auto
qed

text \<open>A purchase of ten practice SOL, from the store to the confirmation.\<close>

definition sample_signature :: string where "sample_signature = replicate 64 (CHR ''1'')"

definition sample_transaction :: confirmed_transaction where
  "sample_transaction = \<lparr>tx_err = False, tx_accountKeys = [''ann'', ''treasury'', ''ref''],
     tx_preBalances = [500000000, 7, 0], tx_postBalances = [439995000, 60000007, 0]\<rparr>"

definition sample_chain :: "string \<Rightarrow> chain_read" where
  "sample_chain s = Read (if s = sample_signature then Some sample_transaction else None)"

abbreviation run_sample :: "bank \<Rightarrow> bank_op \<Rightarrow> bank" where
  "run_sample \<equiv> run_bank (\<lambda>_. []) key_of sample_chain"

definition asked_ops :: "bank_op list" where
  "asked_ops = [Ask_store ''ref'' ''ann'' ''treasury'' 10 5]"

definition asked_bank :: bank where "asked_bank = foldl run_sample (new_bank []) asked_ops"

definition paid_ops :: "bank_op list" where
  "paid_ops = asked_ops @ [Confirm_payment (Some ''ann'') ''ref'' sample_signature 9 asked_bank]"

definition paid_bank :: bank where "paid_bank = foldl run_sample (new_bank []) paid_ops"

lemma paid_values:
  "map acc_balance (filter (\<lambda>r. acc_user r = ''ann'') (accounts paid_bank)) = [20000000000]"
  "map (opened_with paid_bank) (filter (\<lambda>r. acc_user r = ''ann'') (accounts paid_bank)) = [10000000000]"
  "map credit_of (filter (\<lambda>p. pm_user p = ''ann'') (payments paid_bank)) = [10000000000]"
  by code_simp+

theorem balances_are_opened_traded_or_bought_witness:
  "sum_list (map (\<lambda>r. sum_list (map net (log_of paid_bank (acc_id r)))) (filter (\<lambda>r. acc_user r = ''ann'') (accounts paid_bank))) = 0
   \<and> map acc_balance (filter (\<lambda>r. acc_user r = ''ann'') (accounts paid_bank)) = [20000000000]"
  using balances_are_opened_traded_or_bought [OF paid_bank_def, of "''ann''"] unfolding paid_values by simp

theorem payments_are_settled_once_witness:
  "distinct (map pm_txSignature (payments paid_bank)) \<and> length (payments paid_bank) = 1 \<and> pm_amount (hd (payments paid_bank)) = 60000000"
proof -
  have "length (payments paid_bank) = 1 \<and> pm_amount (hd (payments paid_bank)) = 60000000" by code_simp
  with payments_are_settled_once [OF paid_bank_def] show ?thesis by blast
qed

definition sample_confirmation :: "(confirmation \<times> bank) res" where
  "sample_confirmation = confirmPayment sample_chain (Some ''ann'') ''ref'' sample_signature 9 asked_bank asked_bank"

lemma sample_confirmation:
  obtains s tier B where "sample_confirmation = Inr (Confirmed s tier, B)" "sl_fresh s"
proof -
  have "case sample_confirmation of Inr (Confirmed s tier, B) \<Rightarrow> sl_fresh s | _ \<Rightarrow> False" by code_simp
  then show thesis by (auto split: sum.splits prod.splits confirmation.splits intro: that)
qed

theorem only_a_real_payment_is_credited_witness:
  "\<exists>s tier B t i before. sample_confirmation = Inr (Confirmed s tier, B) \<and> sample_chain sample_signature = Read (Some t)
     \<and> at_index (tx_preBalances t) i = Some before \<and> at_index (tx_postBalances t) i = Some (before + pm_amount (sl_payment s))"
proof -
  obtain s tier B where s: "sample_confirmation = Inr (Confirmed s tier, B)" "sl_fresh s" by (rule sample_confirmation)
  from only_a_real_payment_is_credited [OF s(1) [unfolded sample_confirmation_def] s(2)]
  obtain t i before where "sample_chain sample_signature = Read (Some t)" "at_index (tx_preBalances t) i = Some before"
    "at_index (tx_postBalances t) i = Some (before + pm_amount (sl_payment s))"
    by auto
  with s(1) show ?thesis by blast
qed

text \<open>
  C37: confirming again changes nothing. After a payment was freshly credited, any confirmation
  with the same transaction, by whomever and for whichever intent, credits nothing and leaves
  the tables as they are.
\<close>

theorem confirming_again_changes_nothing:
  assumes "confirmPayment chain who reference signature now seen B = Inr (Confirmed s tier, B')" and "sl_fresh s"
    and "confirmPayment chain who2 reference2 signature now2 seen2 B' = Inr (Confirmed s2 tier2, B2)"
  shows "\<not> sl_fresh s2 \<and> B2 = B'"
proof -
  have credited: "payment_signed B' signature \<noteq> None"
    using assms(1)
  proof (cases rule: confirmPayment_confirmed)
    case (1 user intent transaction)
    have "payments B' = payments B @ [new_payment (confirm_input intent user signature now) B]"
      using settlePayment_fresh [OF 1(7) assms(2)] by simp
    moreover have "pm_txSignature (new_payment (confirm_input intent user signature now) B) = signature"
      by (simp add: new_payment_def confirm_input_def)
    ultimately show ?thesis by (auto simp: payment_signed_def find_None_iff)
  qed
  from assms(3) show ?thesis
  proof (cases rule: confirmPayment_confirmed)
    case (1 user intent transaction)
    then show ?thesis using credited
      by (auto simp: settlePayment_def settle_fresh_def already_settled_def confirm_input_def split: option.splits)
  qed
qed

theorem confirming_again_changes_nothing_witness:
  "\<exists>s tier B s2 tier2. sample_confirmation = Inr (Confirmed s tier, B) \<and> sl_fresh s
     \<and> confirmPayment sample_chain (Some ''ann'') ''ref'' sample_signature 11 asked_bank B = Inr (Confirmed s2 tier2, B) \<and> \<not> sl_fresh s2"
proof -
  obtain s tier B where s: "sample_confirmation = Inr (Confirmed s tier, B)" "sl_fresh s" by (rule sample_confirmation)
  have "case sample_confirmation of Inr (_, B) \<Rightarrow>
      (case confirmPayment sample_chain (Some ''ann'') ''ref'' sample_signature 11 asked_bank B of
         Inr (Confirmed s2 tier2, B2) \<Rightarrow> True | _ \<Rightarrow> False) | _ \<Rightarrow> False"
    by code_simp
  then obtain s2 tier2 B2 where
    again: "confirmPayment sample_chain (Some ''ann'') ''ref'' sample_signature 11 asked_bank B = Inr (Confirmed s2 tier2, B2)"
    unfolding s(1) by (auto split: sum.splits prod.splits confirmation.splits)
  from confirming_again_changes_nothing [OF s(1) [unfolded sample_confirmation_def] s(2) again]
  have "\<not> sl_fresh s2" "B2 = B" by simp_all
  with again s show ?thesis by blast
qed

text \<open>
  C38: nobody who has started over can buy practice balance. Starting over leaves the wallet
  with two free-play accounts, and a settlement that credits a purchase insists on changing
  exactly one row: the payment is final on chain, and its confirmation fails.
\<close>

theorem restarted_wallet_cannot_be_credited:
  assumes "accountFor B seasonId user \<noteq> None" "startOver seasonId user now B = Inr (v, B1)"
    and "map_option te_id (free_play_season B1) = Some seasonId"
    and "se_purpose i = Practice_sol" "se_user i = user" "payment_signed B1 (se_txSignature i) = None"
  shows "\<exists>e. settle_fresh i B1 = Inl e"
proof -
  let ?mine = "\<lambda>r. acc_seasonId r = seasonId \<and> acc_user r = user"
  from assms(1) obtain r where r: "latest_account B seasonId user = Some r"
    by (auto simp: accountFor_def split: option.splits)
  then have "r \<in> set (filter ?mine (accounts B))" unfolding latest_account_def by (rule top_by_in [THEN conjunct1])
  then have had: "filter ?mine (accounts B) \<noteq> []" by (metis empty_iff list.set(1))
  from assms(2) r obtain s :: season_terms and B2 where ins: "insert_account seasonId user (acc_generation r + 1) (te_startingBalance s) now B = Inr B2"
    and e: "ensureAccount seasonId user now B2 = Inr (v, B1)"
    by (auto simp: startOver_def Let_def split: option.splits)
  have above: "acc_generation x < acc_generation r + 1" if "x \<in> set (accounts B)" "?mine x" for x
    using top_by_in [OF r [unfolded latest_account_def]] that by force
  then have "\<not> list_ex (\<lambda>x. acc_seasonId x = seasonId \<and> acc_user x = user \<and> acc_generation x = acc_generation r + 1) (accounts B)"
    unfolding list_ex_iff by (metis less_irrefl)
  with ins obtain n where n: "accounts B2 = accounts B @ [n]" "?mine n" by (auto simp: insert_account_def)
  have "latest_account B2 seasonId user \<noteq> None" using n by (auto simp: latest_account_def filter_empty_conv)
  with e have "B1 = B2" by (auto simp: ensureAccount_def split: option.splits)
  then have "length (filter ?mine (accounts B1)) \<ge> 2" using had n by (cases "filter ?mine (accounts B)") auto
  moreover have "credited_account B1 user = ?mine" using assms(3) by (auto simp: credited_account_def fun_eq_iff)
  ultimately have two: "length (filter (credited_account B1 user) (accounts B1)) \<noteq> 1" by simp
  define X where "X = link_intent (se_reference i) (pm_id (new_payment i B1)) (B1\<lparr>payments := payments B1 @ [new_payment i B1]\<rparr>)"
  have X: "accounts X = accounts B1" "seasons X = seasons B1" by (simp_all add: X_def link_intent_def)
  then have "credited_account X user = credited_account B1 user"
    by (simp add: credited_account_def free_play_season_def fun_eq_iff)
  then obtain e where e: "credit_practice i X = Inl e"
    using two X assms(4,5) by (cases "credit_practice i X") (auto simp: credit_practice_def Let_def)
  have "settle_entry i (new_payment i B1) X = Inr (None, X)" using assms(4) by (simp add: settle_entry_def)
  then show ?thesis using assms(6) e
    by (cases "0 \<le> se_amount i") (auto simp: settle_fresh_def Let_def ensure_def simp flip: X_def)
qed

definition restarted_bank :: "(account_view \<times> bank) res" where
  "restarted_bank = startOver 1 ''ann'' 6 asked_bank"

theorem restarted_wallet_cannot_be_credited_witness:
  "\<exists>v B intent e. restarted_bank = Inr (v, B) \<and> getPaymentIntent B ''ref'' = Some intent
     \<and> vr_ok (verifyPayment (Some sample_transaction) (intent_expectation intent))
     \<and> settle_fresh (confirm_input intent ''ann'' sample_signature 9) B = Inl e"
proof -
  have "case restarted_bank of Inr (v, B) \<Rightarrow> (case getPaymentIntent B ''ref'' of Some intent \<Rightarrow>
        vr_ok (verifyPayment (Some sample_transaction) (intent_expectation intent)) \<and> pi_purpose intent = Practice_sol
      | None \<Rightarrow> False) \<and> map_option te_id (free_play_season B) = Some 1 \<and> payments B = [] | _ \<Rightarrow> False"
    by code_simp
  then obtain v B intent where B: "restarted_bank = Inr (v, B)" "getPaymentIntent B ''ref'' = Some intent"
    "vr_ok (verifyPayment (Some sample_transaction) (intent_expectation intent))" "pi_purpose intent = Practice_sol"
    "map_option te_id (free_play_season B) = Some 1" "payments B = []"
    by (auto split: sum.splits prod.splits option.splits)
  have "(case accountFor asked_bank 1 ''ann'' of None \<Rightarrow> False | Some _ \<Rightarrow> True)" by code_simp
  then have "accountFor asked_bank 1 ''ann'' \<noteq> None" by (cases "accountFor asked_bank 1 ''ann''") simp_all
  from restarted_wallet_cannot_be_credited [OF this B(1) [unfolded restarted_bank_def] B(5), of "confirm_input intent ''ann'' sample_signature 9"]
  have "\<exists>e. settle_fresh (confirm_input intent ''ann'' sample_signature 9) B = Inl e"
    using B(4,6) by (simp add: confirm_input_def payment_signed_def)
  with B(1-3) show ?thesis by blast
qed

end
