(* ===== verification/Board.thy ===== *)
theory Board
  imports Payments Rank Payout
begin

text \<open>
  The leaderboards (app/lib/leaderboard.ts) and the rows they are drawn from
  (packages/db/src/seasons.ts). The price of a token, stored or read from the chain, is the
  argument \<open>prices\<close>: \<open>None\<close> where neither could be read, and such a position is held at cost.
  The pot of a season is summed here too.
\<close>

section \<open>Prices\<close>

definition PRICE_SCALE :: int where "PRICE_SCALE = 10 ^ 18"

definition priceFromReserves :: "int \<Rightarrow> int \<Rightarrow> int res" where
  "priceFromReserves sol tokens =
     rbind (ensure (\<not> tokens \<le> 0) Price_error) (\<lambda>_.
     rbind (ensure (\<not> sol < 0) Price_error) (\<lambda>_.
     mulDivFloor sol PRICE_SCALE tokens))"

definition marketCapLamports :: "int \<Rightarrow> int \<Rightarrow> int res" where
  "marketCapLamports price totalSupply = mulDivFloor price totalSupply PRICE_SCALE"

section \<open>The rows of a board\<close>

record held_row =
  hr_mint :: string
  hr_tokenAmount :: int
  hr_costBasis :: int

record leaderboard_row =
  lb_accountId :: int
  lb_user :: string
  lb_startingBalance :: int
  lb_solBalance :: int
  lb_realizedPnl :: int
  lb_tradeCount :: int
  lb_automatedTrades :: int
  lb_enteredAt :: int
  lb_positions :: "held_row list"

record all_time_row = leaderboard_row +
  at_seasonId :: int
  at_seasonOrdinal :: int
  at_seasonName :: string
  at_purchasedBalance :: int

definition held_rows :: "bank \<Rightarrow> int \<Rightarrow> held_row list" where
  "held_rows B accountId = map (\<lambda>p. \<lparr>hr_mint = po_mint p, hr_tokenAmount = po_tokenAmount p, hr_costBasis = po_costBasis p\<rparr>)
     (filter (\<lambda>p. po_accountId p = accountId \<and> po_tokenAmount p \<noteq> 0) (positions B))"

definition automated :: "stored_trade \<Rightarrow> bool" where
  "automated t \<longleftrightarrow> tw_source (tr_write t) = Form \<or> tw_source (tr_write t) = Api"

definition entered_at :: "bank \<Rightarrow> stored_account \<Rightarrow> int" where
  "entered_at B r = (case entry_of B (acc_seasonId r) (acc_user r) of None \<Rightarrow> acc_createdAt r | Some e \<Rightarrow> en_enteredAt e)"

text \<open>A row of a board, counting the trades \<open>ts\<close>.\<close>

definition board_row :: "bank \<Rightarrow> stored_trade list \<Rightarrow> stored_account \<Rightarrow> season_terms \<Rightarrow> leaderboard_row" where
  "board_row B ts r s = (let own = filter (\<lambda>t. tw_accountId (tr_write t) = acc_id r) ts in
     \<lparr>lb_accountId = acc_id r, lb_user = acc_user r, lb_startingBalance = te_startingBalance s,
      lb_solBalance = acc_balance r, lb_realizedPnl = totalRealizedPnl B (acc_id r),
      lb_tradeCount = int (length own), lb_automatedTrades = int (length (filter automated own)),
      lb_enteredAt = entered_at B r, lb_positions = held_rows B (acc_id r)\<rparr>)"

definition leaderboardRows :: "bank \<Rightarrow> int \<Rightarrow> leaderboard_row list" where
  "leaderboardRows B seasonId = List.map_filter (\<lambda>r. if acc_seasonId r \<noteq> seasonId then None
       else map_option (board_row B (filter (\<lambda>t. tw_seasonId (tr_write t) = seasonId) (trades B)) r) (season_of B seasonId))
     (accounts B)"

text \<open>
  What was paid for practice balance, keyed by wallet and season: \<open>Number(null)\<close>, the season
  of a payment without one, is \<open>0\<close>.
\<close>

definition purchase_key :: "payment_row \<Rightarrow> string \<times> int" where
  "purchase_key p = (pm_user p, case pm_seasonId p of None \<Rightarrow> 0 | Some s \<Rightarrow> s)"

definition purchased :: "bank \<Rightarrow> string \<times> int \<Rightarrow> int" where
  "purchased B key = foldl (\<lambda>sum p. sum + pm_amount p) 0
     (filter (\<lambda>p. purchase_key p = key) (filter (\<lambda>p. pm_purpose p = Practice_sol \<and> pm_status p = ''settled'') (payments B)))"

definition allTimeRows :: "bank \<Rightarrow> all_time_row list" where
  "allTimeRows B = filter (\<lambda>row. lb_tradeCount row > 0)
     (List.map_filter (\<lambda>r. map_option (\<lambda>s. leaderboard_row.extend (board_row B (trades B) r s)
         (all_time_row.fields (acc_seasonId r) (te_ordinal s) (te_name s) (purchased B (acc_user r, acc_seasonId r))))
       (season_of B (acc_seasonId r))) (accounts B))"

section \<open>Marking to the market\<close>

definition mark :: "(string \<Rightarrow> int option) \<Rightarrow> held_row \<Rightarrow> int" where
  "mark prices h = (case prices (hr_mint h) of
       None \<Rightarrow> hr_costBasis h
     | Some price \<Rightarrow> (hr_tokenAmount h * price) sdiv PRICE_SCALE)"

definition marked_value :: "(string \<Rightarrow> int option) \<Rightarrow> held_row list \<Rightarrow> int" where
  "marked_value prices hs = foldl (\<lambda>value h. value + mark prices h) 0 hs"

definition toStanding :: "(string \<Rightarrow> int option) \<Rightarrow> leaderboard_row \<Rightarrow> standing" where
  "toStanding prices row = \<lparr>st_trader = lb_user row, st_enteredAt = lb_enteredAt row,
     st_startingBalance = lb_startingBalance row,
     st_finalEquity = lb_solBalance row + marked_value prices (lb_positions row),
     st_tradeCount = lb_tradeCount row, st_automatedTrades = Some (lb_automatedTrades row)\<rparr>"

record board =
  bd_standings :: "ranked_standing list"
  bd_markedAt :: int
  bd_unpriced :: "string list"

definition CACHE_MS :: int where "CACHE_MS = 20000"

text \<open>The boards drawn lately, by season, each with the time it expires.\<close>

type_synonym board_cache = "int \<Rightarrow> (board \<times> int) option"

definition season_mints :: "bank \<Rightarrow> int \<Rightarrow> string list" where
  "season_mints B seasonId = remdups (concat (map (\<lambda>row. map hr_mint (lb_positions row)) (leaderboardRows B seasonId)))"

definition draw_board :: "(string \<Rightarrow> int option) \<Rightarrow> bank \<Rightarrow> int \<Rightarrow> int \<Rightarrow> board" where
  "draw_board prices B seasonId now = \<lparr>bd_standings = rankSeason (map (toStanding prices) (leaderboardRows B seasonId)),
     bd_markedAt = now, bd_unpriced = filter (\<lambda>m. prices m = None) (season_mints B seasonId)\<rparr>"

definition seasonBoard :: "(string \<Rightarrow> int option) \<Rightarrow> bank \<Rightarrow> int \<Rightarrow> int \<Rightarrow> board_cache \<Rightarrow> board \<times> board_cache" where
  "seasonBoard prices B seasonId now cache = (case cache seasonId of
       Some (b, expiresAt) \<Rightarrow> if expiresAt > now then (b, cache)
         else let b = draw_board prices B seasonId now in (b, cache(seasonId \<mapsto> (b, now + CACHE_MS)))
     | None \<Rightarrow> let b = draw_board prices B seasonId now in (b, cache(seasonId \<mapsto> (b, now + CACHE_MS))))"

section \<open>The board of all time\<close>

text \<open>
  What a payment bought. The inner loop takes a tier as often as what is left allows; it would
  not end on a tier that is free, so its result is an option.
\<close>

partial_function (option) take_tier :: "practice_tier \<Rightarrow> int \<Rightarrow> int \<Rightarrow> (int \<times> int) option" where
  "take_tier t left credited =
     (if left \<ge> tier_priceLamports t then take_tier t (left - tier_priceLamports t) (credited + creditFor t)
      else Some (left, credited))"

declare take_tier.simps [code]

fun take_tiers :: "practice_tier list \<Rightarrow> int \<Rightarrow> int \<Rightarrow> (int \<times> int) option" where
  "take_tiers [] left credited = Some (left, credited)"
| "take_tiers (t # ts) left credited = (case take_tier t left credited of
       None \<Rightarrow> None | Some (left', credited') \<Rightarrow> take_tiers ts left' credited')"

definition creditedFor :: "int \<Rightarrow> int option" where
  "creditedFor paid =
     (if paid \<le> 0 then Some 0
      else case List.find (\<lambda>t. tier_priceLamports t = paid) PRACTICE_TIERS of
        Some exact \<Rightarrow> Some (creditFor exact)
      | None \<Rightarrow> map_option snd (take_tiers
          (js_sort (\<lambda>a b. if tier_priceLamports b > tier_priceLamports a then 1 else - 1) PRACTICE_TIERS) paid 0))"

record all_time_standing =
  as_trader :: string
  as_seasonName :: string
  as_ranked :: bool
  as_startingBalance :: int
  as_equity :: int
  as_returnBps :: int
  as_tradeCount :: int
  as_automatedTrades :: int

definition toAllTime :: "(string \<Rightarrow> int option) \<Rightarrow> all_time_row \<Rightarrow> all_time_standing option" where
  "toAllTime prices row = (case creditedFor (at_purchasedBalance row) of
       None \<Rightarrow> None
     | Some credit \<Rightarrow>
         let worth = lb_solBalance row + marked_value prices (lb_positions row);
             basis = lb_startingBalance row + credit in
         Some \<lparr>as_trader = lb_user row, as_seasonName = at_seasonName row, as_ranked = at_seasonOrdinal row > 0,
           as_startingBalance = basis, as_equity = worth,
           as_returnBps = (if basis = 0 then 0 else to_num (((worth - basis) * 10000) sdiv basis)),
           as_tradeCount = lb_tradeCount row, as_automatedTrades = lb_automatedTrades row\<rparr>)"

definition allTimeBoard :: "(string \<Rightarrow> int option) \<Rightarrow> bank \<Rightarrow> all_time_standing list option" where
  "allTimeBoard prices B = map_option (js_sort (\<lambda>a b. as_returnBps b - as_returnBps a))
     (those (map (toAllTime prices) (filter (\<lambda>row. lb_tradeCount row > 0) (allTimeRows B))))"

section \<open>The pot\<close>

record season_totals =
  to_entrants :: int
  to_potLamports :: int
  to_entriesLamports :: int
  to_sponsorLamports :: int

definition seasonTotals :: "bank \<Rightarrow> int \<Rightarrow> season_totals" where
  "seasonTotals B seasonId =
     (let paid_in = foldl (\<lambda>sum p. sum + pm_amount p) 0 (filter (\<lambda>p. pm_seasonId p = Some seasonId
            \<and> pm_purpose p = Season_entry \<and> pm_status p = ''verified'') (payments B));
          sponsor = (case season_of B seasonId of None \<Rightarrow> 0 | Some s \<Rightarrow> te_sponsorLamports s) in
      \<lparr>to_entrants = int (length (filter (\<lambda>e. en_seasonId e = seasonId) (entries B))),
       to_potLamports = paid_in + sponsor, to_entriesLamports = paid_in, to_sponsorLamports = sponsor\<rparr>)"

section \<open>Crediting ends\<close>

text \<open>Taking a tier while the money lasts takes it as often as it goes into what is left.\<close>

lemma take_tier_spec:
  assumes "0 < tier_priceLamports t" "0 \<le> left"
  shows "take_tier t left credited
    = Some (left mod tier_priceLamports t, credited + (left div tier_priceLamports t) * creditFor t)"
  using assms(2)
proof (induction "nat left" arbitrary: left credited rule: less_induct)
  case less
  let ?p = "tier_priceLamports t"
  show ?case
  proof (cases "?p \<le> left")
    case False
    with less.prems show ?thesis by (simp add: take_tier.simps)
  next
    case True
    have "nat (left - ?p) < nat left" using True assms(1) less.prems by simp
    from less.hyps [OF this, of "credited + creditFor t"] True
    have "take_tier t left credited = Some ((left - ?p) mod ?p,
        credited + creditFor t + ((left - ?p) div ?p) * creditFor t)"
      by (simp add: take_tier.simps)
    moreover have "(left - ?p) mod ?p = left mod ?p" by (metis minus_mod_self2)
    moreover have "left div ?p = (left - ?p) div ?p + 1"
      using assms(1) div_add_self2 [of ?p "left - ?p"] by simp
    ultimately show ?thesis by (simp add: distrib_right)
  qed
qed

text \<open>A tier of the price list: at the cheapest rate a lamport buys a hundred, at the dearest under three hundred.\<close>

definition fair_tier :: "practice_tier \<Rightarrow> bool" where
  "fair_tier t \<longleftrightarrow> 0 < tier_priceLamports t \<and> 100 * tier_priceLamports t \<le> creditFor t
     \<and> 35 * creditFor t \<le> 10000 * tier_priceLamports t \<and> LAMPORTS_PER_SOL dvd creditFor t"

lemma PRACTICE_TIERS_fair: "list_all fair_tier PRACTICE_TIERS"
  by (simp add: PRACTICE_TIERS_def fair_tier_def creditFor_def LAMPORTS_PER_SOL_def)

text \<open>What is kept while tiers are taken from an amount: what was spent was spent at a fair rate.\<close>

definition fair_split :: "int \<Rightarrow> int \<Rightarrow> int \<Rightarrow> bool" where
  "fair_split given left credited \<longleftrightarrow> 0 \<le> left \<and> left \<le> given \<and> 100 * (given - left) \<le> credited
     \<and> 35 * credited \<le> 10000 * (given - left) \<and> LAMPORTS_PER_SOL dvd credited"

lemma take_tier_fair:
  assumes "fair_tier t" "fair_split given left credited"
  shows "\<exists>l c. take_tier t left credited = Some (l, c) \<and> fair_split given l c \<and> l < tier_priceLamports t"
proof -
  let ?p = "tier_priceLamports t" and ?n = "left div tier_priceLamports t"
  have p: "0 < ?p" "0 \<le> left" using assms by (simp_all add: fair_tier_def fair_split_def)
  have n: "0 \<le> ?n" "left mod ?p = left - ?n * ?p" using p by (simp_all add: pos_imp_zdiv_nonneg_iff minus_div_mult_eq_mod [symmetric])
  have "?n * (100 * ?p) \<le> ?n * creditFor t" "?n * (35 * creditFor t) \<le> ?n * (10000 * ?p)"
    using assms(1) n(1) by (simp_all only: fair_tier_def mult_left_mono)
  moreover have "LAMPORTS_PER_SOL dvd credited + ?n * creditFor t"
    using assms by (simp add: fair_tier_def fair_split_def)
  moreover have "0 \<le> left mod ?p" "left mod ?p < ?p" using p by simp_all
  moreover have "left mod ?p \<le> left" using p by (simp add: zmod_le_nonneg_dividend)
  ultimately have "fair_split given (left mod ?p) (credited + ?n * creditFor t)"
    using assms(2) unfolding fair_split_def n(2) by (simp add: algebra_simps)
  then show ?thesis using take_tier_spec [OF p] p by simp
qed

lemma take_tiers_fair:
  "list_all fair_tier ts \<Longrightarrow> fair_split given left credited \<Longrightarrow>
     \<exists>l c. take_tiers ts left credited = Some (l, c) \<and> fair_split given l c
       \<and> (ts \<noteq> [] \<longrightarrow> l < tier_priceLamports (last ts))"
proof (induction ts arbitrary: left credited)
  case (Cons t ts)
  then obtain l c where 1: "take_tier t left credited = Some (l, c)" "fair_split given l c" "l < tier_priceLamports t"
    using take_tier_fair [of t given left credited] by auto
  with Cons obtain l' c' where "take_tiers ts l c = Some (l', c')" "fair_split given l' c'"
      "ts \<noteq> [] \<longrightarrow> l' < tier_priceLamports (last ts)"
    by (auto simp: list_all_iff) blast
  with 1 show ?case by (cases ts) auto
qed simp

lemma fair_credit:
  assumes "fair_split given left c" "left < 10000000"
  shows "LAMPORTS_PER_SOL dvd c \<and> LAMPORTS_PER_SOL * (given div 10000000) \<le> c \<and> 35 * c \<le> 10000 * given"
proof -
  have f: "0 \<le> left" "left \<le> given" "100 * (given - left) \<le> c" "35 * c \<le> 10000 * (given - left)"
    "LAMPORTS_PER_SOL dvd c"
    using assms(1) by (simp_all add: fair_split_def)
  obtain k where k: "c = LAMPORTS_PER_SOL * k" using f(5) by blast
  have "given < 10000000 * (k + 1)"
    using f(3) assms(2) unfolding k LAMPORTS_PER_SOL_def by (simp add: algebra_simps)
  then have "given div 10000000 < k + 1" by (subst floor_lt_iff) (simp_all add: mult.commute)
  then have "given div 10000000 \<le> k" by simp
  then have "LAMPORTS_PER_SOL * (given div 10000000) \<le> c" by (simp add: k LAMPORTS_PER_SOL_def)
  moreover have "35 * c \<le> 10000 * given" using f(1,4) by (simp add: algebra_simps)
  ultimately show ?thesis using f(5) by blast
qed

section \<open>Properties\<close>

text \<open>
  C18: crediting a purchase always ends. For any amount the loop over the price list returns,
  with a whole number of practice SOL: nothing for nothing, and otherwise at least one for
  every 0.01 SOL paid, the dearest tier, and no more than the rate of the largest tier gives.
\<close>

theorem crediting_ends:
  "\<exists>c. creditedFor given = Some c \<and> LAMPORTS_PER_SOL dvd c
     \<and> (if given \<le> 0 then c = 0 else LAMPORTS_PER_SOL * (given div 10000000) \<le> c \<and> 35 * c \<le> 10000 * given)"
proof (cases "given \<le> 0")
  case True
  then show ?thesis by (simp add: creditedFor_def)
next
  case False
  show ?thesis
  proof (cases "List.find (\<lambda>t. tier_priceLamports t = given) PRACTICE_TIERS")
    case (Some t)
    then have "t \<in> set PRACTICE_TIERS" and p: "tier_priceLamports t = given" by (auto simp: find_Some_iff)
    then have "fair_tier t" using PRACTICE_TIERS_fair by (simp add: list_all_iff)
    then have "fair_split given 0 (creditFor t)" using False p by (simp add: fair_tier_def fair_split_def)
    from fair_credit [OF this] False Some show ?thesis by (simp add: creditedFor_def)
  next
    case None
    let ?ts = "js_sort (\<lambda>a b. if tier_priceLamports b > tier_priceLamports a then 1 else - 1) PRACTICE_TIERS"
    have "list_all fair_tier ?ts" using PRACTICE_TIERS_fair by (simp add: list_all_iff)
    moreover have "fair_split given given 0" using False by (simp add: fair_split_def)
    ultimately obtain l c where "take_tiers ?ts given 0 = Some (l, c)" "fair_split given l c"
        "?ts \<noteq> [] \<longrightarrow> l < tier_priceLamports (last ?ts)"
      using take_tiers_fair by blast
    moreover have "?ts \<noteq> []" "tier_priceLamports (last ?ts) = 10000000" by code_simp+
    ultimately show ?thesis using fair_credit None False by (auto simp: creditedFor_def)
  qed
qed

lemma no_purchase_found: "sound_bank B \<Longrightarrow> purchased B key = 0"
proof -
  assume "sound_bank B"
  then have "filter (\<lambda>p. pm_purpose p = Practice_sol \<and> pm_status p = ''settled'') (payments B) = []"
    by (auto simp: sound_bank_def sound_payments_def filter_empty_conv)
  then show "purchased B key = 0" by (simp add: purchased_def)
qed

lemma allTimeRows_shape:
  assumes "row \<in> set (allTimeRows B)"
  obtains r s where "r \<in> set (accounts B)" "season_of B (acc_seasonId r) = Some s"
    "lb_solBalance row = acc_balance r" "lb_startingBalance row = te_startingBalance s"
    "at_purchasedBalance row = purchased B (acc_user r, acc_seasonId r)"
    "lb_user row = acc_user r" "lb_positions row = held_rows B (acc_id r)"
  using assms
  by (auto simp: allTimeRows_def map_filter_def board_row_def Let_def leaderboard_row.defs all_time_row.defs)

text \<open>
  C36: buying balance counts as winning. However the tables were reached, the board of all time
  finds no purchase: no payment ever has the status the query asks for. Every row is ranked on
  its return over the opening balance alone, so practice SOL bought in the store is a gain on
  the board, which says it is not.
\<close>

theorem bought_balance_counts_as_won:
  assumes "row \<in> set (allTimeRows (foldl (run_bank H dec chain) (new_bank ss) ops))" and "0 < lb_startingBalance row"
  shows "\<exists>standing. toAllTime prices row = Some standing \<and> as_startingBalance standing = lb_startingBalance row
    \<and> as_returnBps standing = to_num (((lb_solBalance row + marked_value prices (lb_positions row) - lb_startingBalance row)
        * 10000) sdiv lb_startingBalance row)"
proof -
  have "sound_bank (foldl (run_bank H dec chain) (new_bank ss) ops)" by (rule bank_after)
  then have "at_purchasedBalance row = 0" using assms(1) no_purchase_found by (elim allTimeRows_shape) metis
  then show ?thesis using assms(2) by (simp add: toAllTime_def creditedFor_def Let_def)
qed

text \<open>A wallet that bought ten practice SOL and then spent one on a token, held at cost.\<close>

definition spent_ops :: "bank_op list" where
  "spent_ops = paid_ops @ [Bank_order False (ann_order 20000000000 Buy 1000000000 30) calm_market calm_market paid_bank]"

definition spent_row :: all_time_row where
  "spent_row = \<lparr>lb_accountId = 1, lb_user = ''ann'', lb_startingBalance = 10000000000, lb_solBalance = 19000000000,
     lb_realizedPnl = 0, lb_tradeCount = 1, lb_automatedTrades = 0, lb_enteredAt = 5,
     lb_positions = [\<lparr>hr_mint = ''mint'', hr_tokenAmount = 34199203154141, hr_costBasis = 1000000000\<rparr>],
     at_seasonId = 1, at_seasonOrdinal = - 1, at_seasonName = ''Free play'', at_purchasedBalance = 0\<rparr>"

lemma spent_row: "allTimeRows (foldl run_sample (new_bank []) spent_ops) = [spent_row]"
  by code_simp

theorem bought_balance_counts_as_won_witness:
  "\<exists>standing. toAllTime (\<lambda>_. None) spent_row = Some standing \<and> as_returnBps standing = 10000"
proof -
  have "spent_row \<in> set (allTimeRows (foldl run_sample (new_bank []) spent_ops))" by (simp add: spent_row)
  from bought_balance_counts_as_won [OF this, of "\<lambda>_. None"]
  obtain standing where "toAllTime (\<lambda>_. None) spent_row = Some standing"
    "as_returnBps standing = to_num (((19000000000 + marked_value (\<lambda>_. None) (lb_positions spent_row) - 10000000000) * 10000)
       sdiv 10000000000)"
    by (auto simp: spent_row_def)
  moreover have "to_num (((19000000000 + marked_value (\<lambda>_. None) (lb_positions spent_row) - 10000000000) * 10000)
       sdiv 10000000000) = 10000" by code_simp
  ultimately show ?thesis by auto
qed

text \<open>
  the pot of a season is what its entries paid plus what was sponsored, and it always
  splits: with a sponsored prize that is not negative, the house base is no larger than the pot
  and the distribution of the published rules exists for any number of entrants.
\<close>

lemma sum_nonneg: "list_all (\<lambda>p. 0 \<le> f p) ps \<Longrightarrow> 0 \<le> foldl (\<lambda>sum p. sum + f p) (0::int) ps"
proof -
  have "foldl (\<lambda>sum p. sum + f p) a ps = a + sum_list (map f ps)" for a by (induction ps arbitrary: a) auto
  then show "list_all (\<lambda>p. 0 \<le> f p) ps \<Longrightarrow> 0 \<le> foldl (\<lambda>sum p. sum + f p) (0::int) ps"
    by (auto simp: list_all_iff intro!: sum_list_nonneg)
qed

lemma season_pot_ok:
  assumes "sound_bank B" "season_of B seasonId = Some s" "0 \<le> te_sponsorLamports s"
  shows "0 \<le> to_entriesLamports (seasonTotals B seasonId)
    \<and> base_ok (Some (to_entriesLamports (seasonTotals B seasonId))) (to_potLamports (seasonTotals B seasonId))"
proof -
  have "list_all (\<lambda>p. 0 \<le> pm_amount p) (filter (\<lambda>p. pm_seasonId p = Some seasonId
            \<and> pm_purpose p = Season_entry \<and> pm_status p = ''verified'') (payments B))"
    using assms(1) by (auto simp: sound_bank_def sound_payments_def list_all_iff)
  from sum_nonneg [OF this] show ?thesis using assms(2,3) by (simp add: seasonTotals_def base_ok_def Let_def)
qed

end
