(* ===== verification/Settlement.thy ===== *)
theory Settlement
  imports Board Rollover
begin

text \<open>
  Paying a season that has ended: the payout worker (app/lib/season-payout.ts), the transfer it
  sends (app/lib/prize.ts) and the columns that record what left
  (packages/db/src/payout.ts). The chain is not modelled: what it answered to one transfer, and
  whether the lamports moved, is a \<open>send_report\<close>, of which every tick is given a list.
\<close>

section \<open>Sending one prize\<close>

record send_report =
  sr_blockhash :: bool
  sr_sent :: "string option"
  sr_confirmed :: bool
  sr_landed :: bool

text \<open>The signature, once the transfer is confirmed; every other answer is thrown.\<close>

definition sendPayout :: "send_report \<Rightarrow> string res" where
  "sendPayout r =
     rbind (ensure (sr_blockhash r) Plain_error) (\<lambda>_.
     case sr_sent r of
       None \<Rightarrow> Inl Plain_error
     | Some sent \<Rightarrow> rbind (ensure (sr_confirmed r) Plain_error) (\<lambda>_. Inr sent))"

section \<open>The columns of an entry\<close>

definition entryPayoutSignature :: "bank \<Rightarrow> int \<Rightarrow> string \<Rightarrow> string option" where
  "entryPayoutSignature B seasonId trader = (case entry_of B seasonId trader of None \<Rightarrow> None | Some e \<Rightarrow> en_payoutTx e)"

text \<open>\<open>UPDATE entries SET \<dots> WHERE season_id = ? AND user_pubkey = ? AND \<dots>\<close>, and the rows it met.\<close>

definition update_entry :: "(entry_row \<Rightarrow> bool) \<Rightarrow> (entry_row \<Rightarrow> entry_row) \<Rightarrow> int \<Rightarrow> string \<Rightarrow> bank \<Rightarrow> bool \<times> bank" where
  "update_entry guard upd seasonId trader B =
     (let hit = (\<lambda>e. en_seasonId e = seasonId \<and> en_user e = trader \<and> guard e) in
      (list_ex hit (entries B), B\<lparr>entries := map (\<lambda>e. if hit e then upd e else e) (entries B)\<rparr>))"

definition recordPayout :: "int \<Rightarrow> string \<Rightarrow> int \<Rightarrow> string \<Rightarrow> int \<Rightarrow> bank \<Rightarrow> bank" where
  "recordPayout seasonId trader amount tx now B = snd (update_entry (\<lambda>e. en_payoutTx e = None)
     (\<lambda>e. e\<lparr>en_payout := Some amount, en_payoutTx := Some tx, en_claimedAt := Some now\<rparr>) seasonId trader B)"

definition markEntryClaimed :: "int \<Rightarrow> string \<Rightarrow> string \<Rightarrow> int \<Rightarrow> bank \<Rightarrow> bool \<times> bank" where
  "markEntryClaimed seasonId trader tx now B = update_entry (\<lambda>e. en_claimedAt e = None \<and> en_refundedAt e = None)
     (\<lambda>e. e\<lparr>en_claimedAt := Some now, en_payoutTx := Some tx\<rparr>) seasonId trader B"

definition markEntryRefunded :: "int \<Rightarrow> string \<Rightarrow> string \<Rightarrow> int \<Rightarrow> bank \<Rightarrow> bool \<times> bank" where
  "markEntryRefunded seasonId trader tx now B = update_entry (\<lambda>e. en_refundedAt e = None \<and> en_claimedAt e = None)
     (\<lambda>e. e\<lparr>en_refundedAt := Some now, en_payoutTx := Some tx\<rparr>) seasonId trader B"

section \<open>The columns of a season\<close>

text \<open>
  The tables, the seasons as the rollover reads them, the two columns those rows are read
  without, the boards drawn lately, and every transfer that left the prize wallet: the season it
  was sent for, the wallet it reached and the lamports.
\<close>

record prizes =
  pz_bank :: bank
  pz_rows :: "season_row list"
  pz_finalizedAt :: "int \<Rightarrow> int option"
  pz_voidedAt :: "int \<Rightarrow> int option"
  pz_boards :: board_cache
  pz_transfers :: "(int \<times> string \<times> int) list"

definition set_status :: "int \<Rightarrow> string \<Rightarrow> season_row list \<Rightarrow> season_row list" where
  "set_status seasonId status rows = map (\<lambda>r. if row_id r = seasonId then r\<lparr>row_status := status\<rparr> else r) rows"

definition setSeasonStatus :: "int \<Rightarrow> string \<Rightarrow> prizes \<Rightarrow> prizes" where
  "setSeasonStatus seasonId status S = S\<lparr>pz_rows := set_status seasonId status (pz_rows S)\<rparr>"

definition row_exists :: "int \<Rightarrow> prizes \<Rightarrow> bool" where
  "row_exists seasonId S \<longleftrightarrow> list_ex (\<lambda>r. row_id r = seasonId) (pz_rows S)"

definition markSeasonFinalized :: "int \<Rightarrow> int \<Rightarrow> prizes \<Rightarrow> prizes" where
  "markSeasonFinalized seasonId now S = S\<lparr>pz_rows := set_status seasonId ''finalized'' (pz_rows S),
     pz_finalizedAt := (if row_exists seasonId S then (pz_finalizedAt S)(seasonId \<mapsto> now) else pz_finalizedAt S)\<rparr>"

definition markSeasonVoided :: "int \<Rightarrow> int \<Rightarrow> prizes \<Rightarrow> prizes" where
  "markSeasonVoided seasonId now S = S\<lparr>pz_voidedAt :=
     (if row_exists seasonId S \<and> pz_voidedAt S seasonId = None then (pz_voidedAt S)(seasonId \<mapsto> now) else pz_voidedAt S)\<rparr>"

section \<open>The payout worker\<close>

definition winnerByPlace :: "ranked_standing list \<Rightarrow> int \<Rightarrow> string option" where
  "winnerByPlace standings = map_of (rev (map (\<lambda>s. (st_rank s, st_trader s)) standings))"

definition truthy :: "string option \<Rightarrow> bool" where
  "truthy s \<longleftrightarrow> (case s of None \<Rightarrow> False | Some cs \<Rightarrow> cs \<noteq> [])"

definition landed_transfers :: "send_report \<Rightarrow> int \<Rightarrow> string \<Rightarrow> int \<Rightarrow> (int \<times> string \<times> int) list" where
  "landed_transfers r seasonId winner amount = (if sr_landed r then [(seasonId, winner, amount)] else [])"

text \<open>
  The loop over the places, which stops at the first transfer that throws. A send the list of
  reports has no answer for is one that was never made: the call threw.
\<close>

fun pay_places :: "(int \<Rightarrow> string option) \<Rightarrow> int \<Rightarrow> int \<Rightarrow> payout list \<Rightarrow> send_report list
    \<Rightarrow> bank \<times> (int \<times> string \<times> int) list \<Rightarrow> bool \<times> bank \<times> (int \<times> string \<times> int) list" where
  "pay_places winners seasonId now [] reports (B, ts) = (True, B, ts)"
| "pay_places winners seasonId now (p # ps) reports (B, ts) =
     (if lamports p \<le> 0 then pay_places winners seasonId now ps reports (B, ts)
      else if \<not> truthy (winners (place p)) then pay_places winners seasonId now ps reports (B, ts)
      else let winner = the (winners (place p)) in
        if truthy (entryPayoutSignature B seasonId winner) then pay_places winners seasonId now ps reports (B, ts)
        else case reports of
          [] \<Rightarrow> (False, B, ts)
        | r # rs \<Rightarrow>
            let ts' = ts @ landed_transfers r seasonId winner (lamports p) in
            (case sendPayout r of
               Inl _ \<Rightarrow> (False, B, ts')
             | Inr signature \<Rightarrow>
                 pay_places winners seasonId now ps rs (recordPayout seasonId winner (lamports p) signature now B, ts')))"

text \<open>The season a tick looks at: the current one, when it is over and not yet paid out.\<close>

definition due_season :: "season_row list \<Rightarrow> int \<Rightarrow> season_row option" where
  "due_season rows now = (case currentRankedSeason rows now of
       None \<Rightarrow> None
     | Some season \<Rightarrow>
         if \<not> row_ranked season \<or> row_ordinal season < 0 then None
         else case row_endsAt season of
           None \<Rightarrow> None
         | Some ends \<Rightarrow> if now < ends \<or> row_status season = ''finalized'' then None else Some season)"

definition pay_season :: "(string \<Rightarrow> int option) \<Rightarrow> int \<Rightarrow> send_report list \<Rightarrow> season_row \<Rightarrow> prizes \<Rightarrow> prizes" where
  "pay_season prices now reports season S =
     (case seasonBoard prices (pz_bank S) (row_id season) now (pz_boards S) of (b, boards) \<Rightarrow>
        let S1 = S\<lparr>pz_boards := boards\<rparr>; totals = seasonTotals (pz_bank S) (row_id season) in
        (case distribute (rulesetFor (row_ordinal season)) (to_potLamports totals) (int (length (bd_standings b)))
            (Some (to_entriesLamports totals)) of
           Inl _ \<Rightarrow> S1
         | Inr split \<Rightarrow>
             (case pay_places (winnerByPlace (bd_standings b)) (row_id season) now (d_payouts split) reports
                (pz_bank S, pz_transfers S) of (paid_all, B, ts) \<Rightarrow>
               let S2 = S1\<lparr>pz_bank := B, pz_transfers := ts\<rparr> in
               if paid_all then markSeasonFinalized (row_id season) now S2 else S2)))"

definition payout_tick :: "(string \<Rightarrow> int option) \<Rightarrow> int \<Rightarrow> send_report list \<Rightarrow> prizes \<Rightarrow> prizes" where
  "payout_tick prices now reports S = (case due_season (pz_rows S) now of
       None \<Rightarrow> S | Some season \<Rightarrow> pay_season prices now reports season S)"

section \<open>A client of the prizes\<close>

text \<open>Everything that touches these tables, with ticks of the worker anywhere in between.\<close>

datatype prize_op =
    Tick "string \<Rightarrow> int option" int "send_report list"
  | Tables bank_op
  | Claim int string string int
  | Refund int string string int
  | Move int string
  | Void int int
  | Look "string \<Rightarrow> int option" int int
  | Roll create_season_input

definition run_prize :: "(byte list \<Rightarrow> byte list) \<Rightarrow> (string \<Rightarrow> byte list option) \<Rightarrow> (string \<Rightarrow> chain_read) \<Rightarrow> prizes \<Rightarrow> prize_op \<Rightarrow> prizes" where
  "run_prize H dec chain S op = (case op of
       Tick prices now reports \<Rightarrow> payout_tick prices now reports S
     | Tables bop \<Rightarrow> S\<lparr>pz_bank := run_bank H dec chain (pz_bank S) bop\<rparr>
     | Claim seasonId trader tx now \<Rightarrow> S\<lparr>pz_bank := snd (markEntryClaimed seasonId trader tx now (pz_bank S))\<rparr>
     | Refund seasonId trader tx now \<Rightarrow> S\<lparr>pz_bank := snd (markEntryRefunded seasonId trader tx now (pz_bank S))\<rparr>
     | Move seasonId status \<Rightarrow> setSeasonStatus seasonId status S
     | Void seasonId now \<Rightarrow> markSeasonVoided seasonId now S
     | Look prices seasonId now \<Rightarrow>
         S\<lparr>pz_boards := snd (seasonBoard prices (pz_bank S) seasonId now (pz_boards S))\<rparr>
     | Roll c \<Rightarrow> S\<lparr>pz_rows := createRankedSeason (pz_rows S) c\<rparr>)"

definition new_prizes :: "season_terms list \<Rightarrow> season_row list \<Rightarrow> prizes" where
  "new_prizes ss rows = \<lparr>pz_bank = new_bank ss, pz_rows = rows, pz_finalizedAt = (\<lambda>_. None), pz_voidedAt = (\<lambda>_. None),
     pz_boards = (\<lambda>_. None), pz_transfers = []\<rparr>"

section \<open>What an update of the entries keeps\<close>

lemma update_entry_shape:
  "\<exists>es. snd (update_entry g upd s u B) = B\<lparr>entries := es\<rparr>"
  by (simp add: update_entry_def Let_def) blast

lemma find_map_kept:
  "(\<And>e. P (f e) = P e) \<Longrightarrow> List.find P (map f es) = map_option f (List.find P es)"
  by (induction es) auto

text \<open>The three updates leave the season and the wallet of an entry alone.\<close>

definition keeps_key :: "(entry_row \<Rightarrow> entry_row) \<Rightarrow> bool" where
  "keeps_key upd \<longleftrightarrow> (\<forall>e. en_seasonId (upd e) = en_seasonId e \<and> en_user (upd e) = en_user e)"

lemma entry_of_update:
  assumes "keeps_key upd"
  shows "entry_of (snd (update_entry g upd s u B)) x y
    = map_option (\<lambda>e. if (x, y) = (s, u) \<and> g e then upd e else e) (entry_of B x y)"
proof -
  let ?f = "\<lambda>e. if en_seasonId e = s \<and> en_user e = u \<and> g e then upd e else e"
  have "entry_of (snd (update_entry g upd s u B)) x y = map_option ?f (entry_of B x y)"
    using assms by (simp add: entry_of_def update_entry_def Let_def keeps_key_def find_map_kept)
  moreover have "map_option ?f (entry_of B x y) = map_option (\<lambda>e. if (x, y) = (s, u) \<and> g e then upd e else e) (entry_of B x y)"
    by (rule option.map_cong) (auto simp: entry_of_def find_Some_iff)
  ultimately show ?thesis by simp
qed

lemma update_entry_sound:
  assumes "keeps_key upd" "sound_bank B"
  shows "sound_bank (snd (update_entry g upd s u B))" (is "sound_bank ?B")
proof -
  have has: "hasEntered ?B x y = hasEntered B x y" for x y by (simp add: hasEntered_def entry_of_update assms(1))
  have keys: "map (\<lambda>e. (en_seasonId e, en_user e)) (entries ?B) = map (\<lambda>e. (en_seasonId e, en_user e)) (entries B)"
    using assms(1) by (simp add: update_entry_def Let_def keeps_key_def)
  obtain es where es: "?B = B\<lparr>entries := es\<rparr>" using update_entry_shape by blast
  have "surplus ?B = surplus B"
    by (simp add: surplus_def opened_with_def season_of_def log_of_def trades_of_def es fun_eq_iff)
  then have "bonus ?B = bonus B" by (intro ext) (simp add: bonus_def es)
  moreover have "sound_accounts ?B" using assms(2) by (simp add: sound_bank_def sound_accounts_def wf_ledger_def season_of_def es)
  moreover have "bought ?B = bought B" "payments ?B = payments B" by (simp_all add: bought_def es fun_eq_iff)
  ultimately show ?thesis using assms(2) has keys by (simp add: sound_bank_def sound_payments_def)
qed

lemma kept_keys [simp]:
  "keeps_key (\<lambda>e. e\<lparr>en_payout := a, en_payoutTx := b, en_claimedAt := c\<rparr>)"
  "keeps_key (\<lambda>e. e\<lparr>en_claimedAt := c, en_payoutTx := b\<rparr>)"
  "keeps_key (\<lambda>e. e\<lparr>en_refundedAt := c, en_payoutTx := b\<rparr>)"
  by (simp_all add: keeps_key_def)

text \<open>The requests only ever add entries, which nothing has left yet.\<close>

definition fresh_entry :: "entry_row \<Rightarrow> bool" where
  "fresh_entry e \<longleftrightarrow> en_payout e = None \<and> en_payoutTx e = None \<and> en_claimedAt e = None \<and> en_refundedAt e = None"

definition grown :: "bank \<Rightarrow> bank \<Rightarrow> bool" where
  "grown B B' \<longleftrightarrow> (\<exists>es. entries B' = entries B @ es \<and> list_all fresh_entry es)"

lemma grown_same [intro]: "entries B' = entries B \<Longrightarrow> grown B B'"
  by (simp add: grown_def)

lemma insert_entry_grows: "insert_entry s u p now e B = (i, B') \<Longrightarrow> grown B B'"
  by (auto simp: insert_entry_def grown_def fresh_entry_def Let_def split: if_splits)

lemma credit_practice_entries: "credit_practice i B = Inr B' \<Longrightarrow> entries B' = entries B"
  by (auto simp: credit_practice_def Let_def split: if_splits)

lemma settle_entry_grows: "settle_entry i p B = Inr (x, B') \<Longrightarrow> grown B B'"
  by (auto simp: settle_entry_def intro: insert_entry_grows split: purpose.splits option.splits)

lemma settlePayment_grows:
  assumes "settlePayment i seen B = Inr (x, B')"
  shows "grown B B'"
proof (cases "payment_signed seen (se_txSignature i)")
  case (Some p)
  with assms show ?thesis by (auto simp: settlePayment_def)
next
  case None
  show ?thesis
  proof (cases "payment_signed B (se_txSignature i)")
    case (Some p)
    with assms None show ?thesis by (auto simp: settlePayment_def settle_fresh_def)
  next
    case fresh: None
    let ?p = "new_payment i B"
    let ?B1 = "link_intent (se_reference i) (pm_id ?p) (B\<lparr>payments := payments B @ [?p]\<rparr>)"
    from assms None fresh obtain e B2 where 2: "settle_entry i ?p ?B1 = Inr (e, B2)" and 3: "credit_practice i B2 = Inr B'"
      by (auto simp: settlePayment_def settle_fresh_def Let_def)
    have "entries ?B1 = entries B" by (simp add: link_intent_def)
    with settle_entry_grows [OF 2] credit_practice_entries [OF 3] show ?thesis by (simp add: grown_def)
  qed
qed

lemma confirmPayment_grows:
  assumes "confirmPayment chain who reference signature now seen B = Inr (c, B')"
  shows "grown B B'"
proof (cases c)
  case (Confirmed s tier)
  from assms [unfolded this] show ?thesis by (rule confirmPayment_confirmed) (rule settlePayment_grows)
next
  case (Confirm_refused n)
  with assms show ?thesis by (auto simp: confirmPayment_def Let_def split: option.splits if_splits chain_read.splits)
next
  case (Payment_refused n f)
  with assms show ?thesis by (auto simp: confirmPayment_def Let_def split: option.splits if_splits chain_read.splits)
qed

lemma storeIntent_grows: "storeIntent r u t n now B = Some (Inr (x, B')) \<Longrightarrow> grown B B'"
  using tables_kept(2,4) by (fastforce simp: storeIntent_def createPaymentIntent_def Let_def split: option.splits prod.splits)

lemma state_after_grows: "(\<And>x B'. r = Inr (x, B') \<Longrightarrow> grown B B') \<Longrightarrow> grown B (state_after B r)"
  by (auto simp: state_after_def split: sum.splits)

lemma run_bank_grows:
  assumes "sound_bank B"
  shows "grown B (run_bank H dec chain B op)"
proof (cases op)
  case Bank_free_play
  obtain i B' where "ensureFreePlaySeason B = (i, B')" by fastforce
  with tables_kept(4) [OF this] Bank_free_play show ?thesis by (auto simp: run_bank_def)
next
  case (Bank_order suspended rq click fill seen)
  have "grown B B'" if "executeTrade H dec suspended rq click fill seen B = Inr (x, B')" for x B'
    using that
  proof (cases rule: executeTrade_cases)
    case (2 w tid sequence)
    with recordTrade_tables [OF 2] assms show ?thesis by (auto simp: sound_bank_def)
  qed auto
  then show ?thesis by (auto simp: run_bank_def Bank_order intro: state_after_grows)
next
  case (Ask_payment w now)
  then show ?thesis by (auto simp: run_bank_def createPaymentIntent_def Let_def intro!: state_after_grows)
next
  case (Ask_store reference user treasury n now)
  then show ?thesis by (auto simp: run_bank_def intro!: state_after_grows intro: storeIntent_grows split: option.split)
next
  case (Enter_free s u e now)
  obtain i B' where "insert_entry s u None now e B = (i, B')" by fastforce
  with insert_entry_grows [OF this] Enter_free show ?thesis
    by (auto simp: run_bank_def enterFreeSeason_def split: option.splits)
next
  case (Confirm_payment who reference signature now seen)
  then show ?thesis by (auto simp: run_bank_def intro!: state_after_grows intro: confirmPayment_grows)
qed (auto simp: run_bank_def recordIntentEvidence_def tables_kept(2,3) intro!: state_after_grows)

lemma entry_of_grown: "grown B B' \<Longrightarrow> entry_of B s u = Some e \<Longrightarrow> entry_of B' s u = Some e"
  by (auto simp: grown_def entry_of_def find_append)

section \<open>What a history of the prizes keeps\<close>

text \<open>
  A statement \<open>I\<close> about the tables and the transfers survives a tick when it survives one send,
  whatever was answered to it.
\<close>

definition kept_by_send :: "(bank \<Rightarrow> (int \<times> string \<times> int) list \<Rightarrow> bool) \<Rightarrow> (send_report \<Rightarrow> bool) \<Rightarrow> bool" where
  "kept_by_send I good \<longleftrightarrow> (\<forall>B ts seasonId w a now r.
     I B ts \<longrightarrow> \<not> truthy (entryPayoutSignature B seasonId w) \<longrightarrow> good r \<longrightarrow>
     (case sendPayout r of
        Inl _ \<Rightarrow> I B (ts @ landed_transfers r seasonId w a)
      | Inr tx \<Rightarrow> I (recordPayout seasonId w a tx now B) (ts @ landed_transfers r seasonId w a)))"

lemma pay_places_keeps:
  assumes "kept_by_send I good"
  shows "I B ts \<Longrightarrow> list_all good reports \<Longrightarrow>
    pay_places winners seasonId now ps reports (B, ts) = (d, B', ts') \<Longrightarrow> I B' ts'"
proof (induction ps arbitrary: reports B ts)
  case (Cons p ps)
  let ?w = "the (winners (place p))"
  show ?case
  proof (cases "lamports p \<le> 0 \<or> \<not> truthy (winners (place p)) \<or> truthy (entryPayoutSignature B seasonId ?w) \<or> reports = []")
    case True
    then show ?thesis using Cons by (auto simp: Let_def split: if_splits)
  next
    case False
    then obtain r rs where r: "reports = r # rs" by (cases reports) auto
    have "case sendPayout r of
        Inl _ \<Rightarrow> I B (ts @ landed_transfers r seasonId ?w (lamports p))
      | Inr tx \<Rightarrow> I (recordPayout seasonId ?w (lamports p) tx now B) (ts @ landed_transfers r seasonId ?w (lamports p))"
      using assms Cons.prems(1,2) False r unfolding kept_by_send_def by simp
    then show ?thesis using Cons.IH Cons.prems(2,3) False r by (auto simp: Let_def split: sum.splits)
  qed
qed simp

definition reports_of :: "prize_op \<Rightarrow> send_report list" where
  "reports_of op = (case op of Tick _ _ reports \<Rightarrow> reports | _ \<Rightarrow> [])"

lemma markSeasonFinalized_parts [simp]:
  "pz_bank (markSeasonFinalized s now S) = pz_bank S" "pz_transfers (markSeasonFinalized s now S) = pz_transfers S"
  by (simp_all add: markSeasonFinalized_def)

lemma payout_tick_keeps:
  assumes "kept_by_send I good" "I (pz_bank S) (pz_transfers S)" "list_all good reports"
  shows "I (pz_bank (payout_tick prices now reports S)) (pz_transfers (payout_tick prices now reports S))"
  using assms(2) pay_places_keeps [OF assms(1,2,3)]
  by (auto simp: payout_tick_def pay_season_def Let_def split: option.splits prod.splits sum.splits)

text \<open>So it survives a history when it also survives the requests, the claims and the refunds.\<close>

lemma run_prize_keeps:
  assumes send: "kept_by_send I good" and I: "I (pz_bank S) (pz_transfers S)" and good: "list_all good (reports_of op)"
    and bank: "\<And>bop. op = Tables bop \<Longrightarrow> I (run_bank H dec chain (pz_bank S) bop) (pz_transfers S)"
    and claim: "\<And>s u tx now. op = Claim s u tx now \<Longrightarrow> I (snd (markEntryClaimed s u tx now (pz_bank S))) (pz_transfers S)"
    and refund: "\<And>s u tx now. op = Refund s u tx now \<Longrightarrow> I (snd (markEntryRefunded s u tx now (pz_bank S))) (pz_transfers S)"
  shows "I (pz_bank (run_prize H dec chain S op)) (pz_transfers (run_prize H dec chain S op))"
proof (cases op)
  case (Tick prices now reports)
  with payout_tick_keeps [OF send I] good show ?thesis by (simp add: run_prize_def reports_of_def)
qed (use I bank claim refund in \<open>auto simp: run_prize_def setSeasonStatus_def markSeasonVoided_def\<close>)

section \<open>An entry leaves once\<close>

text \<open>
  An entry was claimed or refunded or neither, never both, and carries the transaction when one
  of the two happened.
\<close>

definition exit_ok :: "entry_row \<Rightarrow> bool" where
  "exit_ok e \<longleftrightarrow> (en_payoutTx e = None \<longleftrightarrow> en_claimedAt e = None \<and> en_refundedAt e = None)
     \<and> (en_claimedAt e = None \<or> en_refundedAt e = None) \<and> (en_payout e \<noteq> None \<longrightarrow> en_claimedAt e \<noteq> None)"

definition exits_sound :: "bank \<Rightarrow> bool" where
  "exits_sound B \<longleftrightarrow> sound_bank B \<and> list_all exit_ok (entries B)"

lemma update_exits:
  assumes "exits_sound B" "keeps_key upd" "\<And>e. exit_ok e \<Longrightarrow> g e \<Longrightarrow> exit_ok (upd e)"
  shows "exits_sound (snd (update_entry g upd s u B))"
proof -
  have "list_all exit_ok (entries (snd (update_entry g upd s u B)))"
    using assms(1,3) by (auto simp: exits_sound_def update_entry_def Let_def list_all_iff)
  with update_entry_sound [OF assms(2)] assms(1) show ?thesis by (simp add: exits_sound_def)
qed

lemma exits_kept:
  assumes "exits_sound B"
  shows "exits_sound (recordPayout s u a tx now B)" "exits_sound (snd (markEntryClaimed s u tx now B))"
    "exits_sound (snd (markEntryRefunded s u tx now B))"
  unfolding recordPayout_def markEntryClaimed_def markEntryRefunded_def
  using assms by (auto intro!: update_exits simp: exit_ok_def)

lemma run_bank_exits:
  assumes "exits_sound B"
  shows "exits_sound (run_bank H dec chain B op)"
proof -
  have B: "sound_bank B" using assms by (simp add: exits_sound_def)
  obtain es where "entries (run_bank H dec chain B op) = entries B @ es" "list_all fresh_entry es"
    using run_bank_grows [OF B] unfolding grown_def by blast
  with assms tables.step_inv [OF B TrueI] show ?thesis
    by (auto simp: exits_sound_def list_all_iff fresh_entry_def exit_ok_def)
qed

lemma exits_by_send: "kept_by_send (\<lambda>B _. exits_sound B) (\<lambda>_. True)"
  by (auto simp: kept_by_send_def exits_kept split: sum.split)

interpretation prizes: loop "run_prize H dec chain" "\<lambda>_. True" "\<lambda>S :: prizes. exits_sound (pz_bank S)" for H dec chain
proof
  fix S :: prizes and op
  assume "exits_sound (pz_bank S)"
  then show "exits_sound (pz_bank (run_prize H dec chain S op))"
    by (intro run_prize_keeps [OF exits_by_send, of S op H dec chain]) (auto intro: run_bank_exits exits_kept simp: list_all_iff)
qed

text \<open>Once it left, nothing changes it.\<close>

lemma entry_of_exits: "exits_sound B \<Longrightarrow> entry_of B s u = Some e \<Longrightarrow> exit_ok e"
  by (auto simp: exits_sound_def entry_of_def find_Some_iff list_all_iff)

definition gone :: "int \<Rightarrow> string \<Rightarrow> entry_row \<Rightarrow> bank \<Rightarrow> bool" where
  "gone s u e B \<longleftrightarrow> exits_sound B \<and> entry_of B s u = Some e \<and> en_payoutTx e \<noteq> None"

lemma update_gone:
  assumes "gone s u e B" "keeps_key upd" "\<not> g e" "exits_sound (snd (update_entry g upd s' u' B))"
  shows "gone s u e (snd (update_entry g upd s' u' B))"
  using assms by (simp add: gone_def entry_of_update)

lemma gone_kept:
  assumes "gone s u e B"
  shows "gone s u e (recordPayout s' u' a tx now B)" "gone s u e (snd (markEntryClaimed s' u' tx now B))"
    "gone s u e (snd (markEntryRefunded s' u' tx now B))"
proof -
  have x: "exits_sound B" "en_payoutTx e \<noteq> None" "exit_ok e" using assms entry_of_exits by (auto simp: gone_def)
  note kept = exits_kept [OF x(1), unfolded recordPayout_def markEntryClaimed_def markEntryRefunded_def]
  show "gone s u e (recordPayout s' u' a tx now B)" "gone s u e (snd (markEntryClaimed s' u' tx now B))"
    "gone s u e (snd (markEntryRefunded s' u' tx now B))"
    unfolding recordPayout_def markEntryClaimed_def markEntryRefunded_def
    using x(2,3) by (auto intro!: update_gone [OF assms] kept simp: exit_ok_def)
qed

lemma run_bank_gone: "gone s u e B \<Longrightarrow> gone s u e (run_bank H dec chain B op)"
  using run_bank_exits entry_of_grown [OF run_bank_grows] by (auto simp: gone_def exits_sound_def)

lemma gone_by_send: "kept_by_send (\<lambda>B _. gone s u e B) (\<lambda>_. True)"
  by (auto simp: kept_by_send_def gone_kept split: sum.split)

interpretation departed: loop "run_prize H dec chain" "\<lambda>_. True" "\<lambda>S :: prizes. gone s u e (pz_bank S)" for H dec chain s u e
proof
  fix S :: prizes and op
  assume "gone s u e (pz_bank S)"
  then show "gone s u e (pz_bank (run_prize H dec chain S op))"
    by (intro run_prize_keeps [OF gone_by_send, of s u e S op H dec chain]) (auto intro: run_bank_gone gone_kept simp: list_all_iff)
qed

lemma prizes_after: "exits_sound (pz_bank (foldl (run_prize H dec chain) (new_prizes ss rows) ops))"
proof (rule prizes.fold_inv)
  show "exits_sound (pz_bank (new_prizes ss rows))"
    by (simp add: new_prizes_def exits_sound_def new_bank_sound) (simp add: new_bank_def)
qed (simp add: list_all_iff)


section \<open>What was paid is what was recorded\<close>

text \<open>
  A report that says what happened: the transfer landed exactly when the call returned its
  signature. \<open>sr_landed\<close> is what the chain did, which a confirmation that timed out does not tell.
\<close>

definition conclusive :: "send_report \<Rightarrow> bool" where
  "conclusive r \<longleftrightarrow> (case sendPayout r of Inl _ \<Rightarrow> \<not> sr_landed r | Inr tx \<Rightarrow> sr_landed r \<and> tx \<noteq> [])"

definition sent_to :: "int \<Rightarrow> string \<Rightarrow> (int \<times> string \<times> int) list \<Rightarrow> int list" where
  "sent_to s u ts = map (snd \<circ> snd) (filter (\<lambda>t. fst t = s \<and> fst (snd t) = u) ts)"

definition recorded_payout :: "bank \<Rightarrow> int \<Rightarrow> string \<Rightarrow> int list" where
  "recorded_payout B s u = (case entry_of B s u of None \<Rightarrow> [] | Some e \<Rightarrow> (case en_payout e of None \<Rightarrow> [] | Some a \<Rightarrow> [a]))"

definition paid_as_recorded :: "int \<Rightarrow> string \<Rightarrow> bank \<Rightarrow> (int \<times> string \<times> int) list \<Rightarrow> bool" where
  "paid_as_recorded s u B ts \<longleftrightarrow> exits_sound B \<and> sent_to s u ts = recorded_payout B s u
     \<and> (\<exists>e. entry_of B s u = Some e \<and> en_payoutTx e \<noteq> Some [])"

lemma sent_to_Nil [simp]: "sent_to s u [] = []"
  by (simp add: sent_to_def)

lemma sent_to_append [simp]: "sent_to s u (ts @ us) = sent_to s u ts @ sent_to s u us"
  by (simp add: sent_to_def)

lemma sent_to_landed [simp]:
  "sent_to s u (landed_transfers r s' u' a) = (if sr_landed r \<and> s' = s \<and> u' = u then [a] else [])"
  by (simp add: sent_to_def landed_transfers_def)

lemma recorded_after:
  assumes "paid_as_recorded s u B ts" "\<not> truthy (entryPayoutSignature B s' u')" "tx \<noteq> []"
  shows "paid_as_recorded s u (recordPayout s' u' a tx now B) (ts @ (if s' = s \<and> u' = u then [(s, u, a)] else []))"
proof -
  obtain e where e: "entry_of B s u = Some e" "en_payoutTx e \<noteq> Some []" and x: "exits_sound B"
    and p: "sent_to s u ts = recorded_payout B s u"
    using assms(1) by (auto simp: paid_as_recorded_def)
  have after: "entry_of (recordPayout s' u' a tx now B) s u = Some (if (s, u) = (s', u') \<and> en_payoutTx e = None
      then e\<lparr>en_payout := Some a, en_payoutTx := Some tx, en_claimedAt := Some now\<rparr> else e)"
    by (simp add: recordPayout_def entry_of_update e)
  show ?thesis
  proof (cases "(s', u') = (s, u)")
    case True
    then have none: "en_payoutTx e = None" using assms(2) e
      by (cases "en_payoutTx e") (auto simp: entryPayoutSignature_def truthy_def)
    then have "en_payout e = None" using entry_of_exits [OF x e(1)] by (auto simp: exit_ok_def)
    then have "sent_to s u ts = []" using p e by (simp add: recorded_payout_def)
    then show ?thesis using True after none exits_kept(1) [OF x] assms(3)
      by (simp add: paid_as_recorded_def recorded_payout_def) (simp add: sent_to_def)
  next
    case False
    then show ?thesis using after e exits_kept(1) [OF x] p by (auto simp: paid_as_recorded_def recorded_payout_def)
  qed
qed

lemma landed_as: "conclusive r \<Longrightarrow> landed_transfers r s u a = (case sendPayout r of Inl _ \<Rightarrow> [] | Inr _ \<Rightarrow> [(s, u, a)])"
  by (auto simp: conclusive_def landed_transfers_def split: sum.splits)

lemma recorded_by_send: "kept_by_send (paid_as_recorded s u) conclusive"
  unfolding kept_by_send_def
proof (intro allI impI)
  fix B :: bank and ts s' w a now r
  assume p: "paid_as_recorded s u B ts" and t: "\<not> truthy (entryPayoutSignature B s' w)" and r: "conclusive r"
  show "case sendPayout r of
      Inl _ \<Rightarrow> paid_as_recorded s u B (ts @ landed_transfers r s' w a)
    | Inr tx \<Rightarrow> paid_as_recorded s u (recordPayout s' w a tx now B) (ts @ landed_transfers r s' w a)"
  proof (cases "sendPayout r")
    case (Inl e)
    with p r show ?thesis by (simp add: landed_as)
  next
    case (Inr tx)
    with r have tx: "tx \<noteq> []" by (simp add: conclusive_def)
    have "sent_to s u (ts @ landed_transfers r s' w a) = sent_to s u (ts @ (if s' = s \<and> w = u then [(s, u, a)] else []))"
      using r Inr by (simp add: landed_as sent_to_def)
    with recorded_after [OF p t tx, of a now] Inr show ?thesis by (simp add: paid_as_recorded_def)
  qed
qed

text \<open>The operations of a history in which every answer of the chain is conclusive.\<close>

definition told_truth :: "prize_op \<Rightarrow> bool" where
  "told_truth op \<longleftrightarrow> list_all conclusive (reports_of op)
     \<and> (case op of Claim _ _ tx _ \<Rightarrow> tx \<noteq> [] | Refund _ _ tx _ \<Rightarrow> tx \<noteq> [] | _ \<Rightarrow> True)"

lemma recorded_update:
  assumes "paid_as_recorded s u B ts" "keeps_key upd" "exits_sound (snd (update_entry g upd s' u' B))"
    "\<And>e. en_payout (upd e) = en_payout e" "\<And>e. en_payoutTx (upd e) \<noteq> Some []"
  shows "paid_as_recorded s u (snd (update_entry g upd s' u' B)) ts"
proof -
  obtain e where e: "entry_of B s u = Some e" "en_payoutTx e \<noteq> Some []" using assms(1) by (auto simp: paid_as_recorded_def)
  have "entry_of (snd (update_entry g upd s' u' B)) s u = Some (if (s, u) = (s', u') \<and> g e then upd e else e)"
    by (simp add: entry_of_update assms(2) e)
  with assms(1,3,4,5) e show ?thesis by (simp add: paid_as_recorded_def recorded_payout_def)
qed

lemma recorded_kept:
  assumes "paid_as_recorded s u B ts" "tx \<noteq> []"
  shows "paid_as_recorded s u (snd (markEntryClaimed s' u' tx now B)) ts"
    "paid_as_recorded s u (snd (markEntryRefunded s' u' tx now B)) ts"
proof -
  have "exits_sound B" using assms(1) by (simp add: paid_as_recorded_def)
  note kept = exits_kept(2,3) [OF this, unfolded markEntryClaimed_def markEntryRefunded_def]
  show "paid_as_recorded s u (snd (markEntryClaimed s' u' tx now B)) ts"
    "paid_as_recorded s u (snd (markEntryRefunded s' u' tx now B)) ts"
    unfolding markEntryClaimed_def markEntryRefunded_def
    using assms(2) by (auto intro!: recorded_update [OF assms(1)] kept)
qed

lemma run_bank_recorded:
  assumes "paid_as_recorded s u B ts"
  shows "paid_as_recorded s u (run_bank H dec chain B op) ts"
proof -
  obtain e where "entry_of B s u = Some e" "exits_sound B" using assms by (auto simp: paid_as_recorded_def)
  moreover from this have "entry_of (run_bank H dec chain B op) s u = Some e"
    using entry_of_grown [OF run_bank_grows] by (auto simp: exits_sound_def)
  ultimately show ?thesis using assms run_bank_exits by (simp add: paid_as_recorded_def recorded_payout_def)
qed

interpretation recorded: loop "run_prize H dec chain" told_truth
  "\<lambda>S :: prizes. paid_as_recorded s u (pz_bank S) (pz_transfers S)" for H dec chain s u
proof
  fix S :: prizes and op
  assume "paid_as_recorded s u (pz_bank S) (pz_transfers S)" "told_truth op"
  then show "paid_as_recorded s u (pz_bank (run_prize H dec chain S op)) (pz_transfers (run_prize H dec chain S op))"
    by (intro run_prize_keeps [OF recorded_by_send, of s u S op H dec chain])
      (auto simp: told_truth_def intro: run_bank_recorded recorded_kept)
qed


section \<open>A season of two\<close>

text \<open>
  Two wallets in a season with a sponsored prize of two SOL: ''bob'' entered first, ''ann'' bought
  a token. It ends at 100000.
\<close>

definition cup_terms :: season_terms where
  "cup_terms = \<lparr>te_id = 1, te_ordinal = 1, te_name = ''Season 1'', te_ranked = True, te_startingBalance = 10000000000,
     te_latencyMs = 400, te_maxPriceImpactBps = 1500, te_engineVersion = 1, te_sponsorLamports = 2000000000\<rparr>"

definition cup_row :: season_row where
  "cup_row = \<lparr>row_id = 1, row_ordinal = 1, row_name = ''Season 1'', row_ranked = True, row_status = ''running'',
     row_startsAt = Some 1, row_endsAt = Some 100000, row_entryOpensAt = Some 1, row_entryClosesAt = Some 50,
     row_startingBalance = ''10000000000'', row_entryCost = ''50000000'', row_rulesetHash = ''''\<rparr>"

definition cup_order :: trade_request where
  "cup_order = (ann_order 10000000000 Buy 1000000000 30)\<lparr>rq_account := account_in cup_terms
     \<lparr>acc_id = 2, acc_seasonId = 1, acc_user = ''ann'', acc_generation = 0, acc_balance = 10000000000,
      acc_createdAt = 7, acc_updatedAt = 7\<rparr>\<rparr>"

definition cup_entries :: "prize_op list" where
  "cup_entries = map Tables [Enter_free 1 ''bob'' no_evidence 4, Enter_free 1 ''ann'' no_evidence 5,
     Bank_visit 1 ''bob'' 6, Bank_visit 1 ''ann'' 7]"

definition cup_trades :: "prize_op list" where
  "cup_trades = [Tables (Bank_order False cup_order calm_market calm_market (new_bank [cup_terms]))]"

abbreviation run_cup :: "prizes \<Rightarrow> prize_op \<Rightarrow> prizes" where
  "run_cup \<equiv> run_prize (\<lambda>_. []) key_of sample_chain"

definition entered_cup :: prizes where
  "entered_cup = foldl run_cup (new_prizes [cup_terms] [cup_row]) cup_entries"

definition played_cup :: prizes where
  "played_cup = foldl run_cup entered_cup cup_trades"

definition sent :: "string \<Rightarrow> send_report" where
  "sent tx = \<lparr>sr_blockhash = True, sr_sent = Some tx, sr_confirmed = True, sr_landed = True\<rparr>"

definition not_sent :: send_report where
  "not_sent = \<lparr>sr_blockhash = False, sr_sent = None, sr_confirmed = False, sr_landed = False\<rparr>"

definition timed_out :: send_report where
  "timed_out = \<lparr>sr_blockhash = True, sr_sent = Some ''tx0'', sr_confirmed = False, sr_landed = True\<rparr>"

definition token_up :: "string \<Rightarrow> int option" where
  "token_up m = Some (10 ^ 15)"

lemma played_cup_values: "map acc_balance (accounts (pz_bank played_cup)) = [10000000000, 9000000000]"
  by code_simp

section \<open>Properties\<close>

text \<open>When nobody was paid yet and every send succeeds, every place is sent its prize.\<close>

definition delivered :: "send_report \<Rightarrow> bool" where
  "delivered r \<longleftrightarrow> sr_landed r \<and> (\<exists>tx. sendPayout r = Inr tx)"

definition payable :: "(int \<Rightarrow> string option) \<Rightarrow> bank \<Rightarrow> int \<Rightarrow> string \<times> payout \<Rightarrow> bool" where
  "payable winners B s wp \<longleftrightarrow> winners (place (snd wp)) = Some (fst wp) \<and> fst wp \<noteq> []
     \<and> entryPayoutSignature B s (fst wp) = None"

definition prizes_of :: "int \<Rightarrow> (string \<times> payout) list \<Rightarrow> (int \<times> string \<times> int) list" where
  "prizes_of s wps = map (\<lambda>(w, p). (s, w, lamports p)) (filter (\<lambda>(w, p). 0 < lamports p) wps)"

lemma signature_after_other:
  "w \<noteq> w' \<Longrightarrow> entryPayoutSignature (recordPayout s w a tx now B) s w' = entryPayoutSignature B s w'"
  by (simp add: entryPayoutSignature_def recordPayout_def entry_of_update option.map_ident)

lemma pay_places_all:
  "list_all (payable winners B s) wps \<Longrightarrow> distinct (map fst wps) \<Longrightarrow> length wps \<le> length reports \<Longrightarrow>
     list_all delivered reports \<Longrightarrow>
     \<exists>B'. pay_places winners s now (map snd wps) reports (B, ts) = (True, B', ts @ prizes_of s wps)"
proof (induction wps arbitrary: B ts reports)
  case (Cons wp wps)
  obtain w p where wp: "wp = (w, p)" by fastforce
  have pay: "winners (place p) = Some w" "w \<noteq> []" "entryPayoutSignature B s w = None"
    using Cons.prems(1) by (simp_all add: payable_def wp)
  show ?case
  proof (cases "lamports p \<le> 0")
    case True
    with Cons.IH [of B reports ts] Cons.prems show ?thesis by (simp add: wp prizes_of_def)
  next
    case False
    obtain r rs where r: "reports = r # rs" using Cons.prems(3) by (cases reports) auto
    obtain tx where tx: "sendPayout r = Inr tx" "sr_landed r" using Cons.prems(4) by (auto simp: r delivered_def)
    let ?B = "recordPayout s w (lamports p) tx now B"
    have "list_all (payable winners ?B s) wps"
      unfolding list_all_iff
    proof
      fix x assume x: "x \<in> set wps"
      then have "w \<noteq> fst x" "payable winners B s x" using Cons.prems(1,2) by (auto simp: list_all_iff wp)
      then show "payable winners ?B s x" by (simp add: payable_def signature_after_other)
    qed
    then obtain B' where "pay_places winners s now (map snd wps) rs (?B, ts @ [(s, w, lamports p)])
        = (True, B', (ts @ [(s, w, lamports p)]) @ prizes_of s wps)"
      using Cons.IH [of ?B rs "ts @ [(s, w, lamports p)]"] Cons.prems(2,3,4) r by auto
    with False pay r tx show ?thesis
      by (simp add: wp truthy_def landed_transfers_def prizes_of_def)
  qed
qed (simp add: prizes_of_def)

lemma winner_of_place:
  assumes "i < length xs"
  shows "winnerByPlace (rankSeason xs) (int i + 1) = Some (st_trader (rankSeason xs ! i))"
proof -
  let ?ps = "map (\<lambda>s. (st_rank s, st_trader s)) (rankSeason xs)"
  have keys: "map fst ?ps = map (\<lambda>i. int i + 1) [0..<length xs]"
    by (intro nth_equalityI) (simp_all add: rankSeason_nth)
  then have d: "distinct (map fst (rev ?ps))" by (simp add: rev_map [symmetric] distinct_map inj_on_def)
  have "?ps ! i = (int i + 1, st_trader (rankSeason xs ! i))" using assms by (simp add: rankSeason_nth)
  then have "(int i + 1, st_trader (rankSeason xs ! i)) \<in> set (rev ?ps)"
    using assms by (metis length_map length_rankSeason nth_mem set_rev)
  with d show ?thesis unfolding winnerByPlace_def by (rule map_of_is_SomeI)
qed

lemma rankSeason_traders: "mset (map st_trader (rankSeason xs)) = mset (map st_trader xs)"
proof -
  have "map st_trader (rankSeason xs) = map st_trader (ordered xs)"
    by (intro nth_equalityI) (simp_all add: rankSeason_nth)
  then show ?thesis by simp
qed

lemma top_by_member: "top_by f xs = Some x \<Longrightarrow> x \<in> set xs"
  using top_by_in by fastforce

lemma orElse_SomeE: "orElse x y = Some v \<Longrightarrow> (x = Some v \<Longrightarrow> P) \<Longrightarrow> (y = Some v \<Longrightarrow> P) \<Longrightarrow> P"
  by (cases x) (simp_all add: orElse_def)

lemma current_season_in: "currentRankedSeason rows now = Some season \<Longrightarrow> season \<in> set rows"
  unfolding currentRankedSeason_def Let_def by (elim orElse_SomeE) (drule top_by_member, simp)+

lemma due_season_current:
  "due_season rows now = Some season \<Longrightarrow> currentRankedSeason rows now = Some season \<and> row_status season \<noteq> ''finalized''"
proof -
  assume d: "due_season rows now = Some season"
  then obtain s where s: "currentRankedSeason rows now = Some s"
    by (cases "currentRankedSeason rows now") (simp_all add: due_season_def)
  with d obtain e where "row_endsAt s = Some e"
    by (cases "row_endsAt s") (simp_all add: due_season_def split: if_split_asm)
  with d s show ?thesis by (simp add: due_season_def split: if_split_asm)
qed

lemma set_status_row: "r \<in> set (set_status i st rows) \<Longrightarrow> row_id r = i \<Longrightarrow> row_status r = st"
  unfolding set_status_def set_map by (erule imageE) (simp split: if_split_asm)

lemma not_due_when_finalized:
  "due_season (set_status i ''finalized'' rows) later = Some season \<Longrightarrow> row_id season \<noteq> i"
  using due_season_current current_season_in set_status_row by metis

lemma pays_out_places:
  assumes "pays_out pot n d" "0 \<le> n"
  shows "int (length (d_payouts d)) \<le> n" "k < length (d_payouts d) \<Longrightarrow> place (d_payouts d ! k) = int k + 1"
proof -
  have m: "map place (d_payouts d) = map (\<lambda>i. int i + 1) [0..<nat (d_paidPlaces d)]"
    and n: "d_paidPlaces d = min (int (length (sharesBps (d_band d)))) n"
    using assms(1) by (simp_all only: pays_out_def)
  have l: "length (d_payouts d) = nat (d_paidPlaces d)" using arg_cong [OF m, of length] by simp
  then show "int (length (d_payouts d)) \<le> n" using n assms(2) by simp
  assume k: "k < length (d_payouts d)"
  then have "place (d_payouts d ! k) = map place (d_payouts d) ! k" by simp
  also have "\<dots> = int k + 1" unfolding m using k l by simp
  finally show "place (d_payouts d ! k) = int k + 1" .
qed

lemma board_payable:
  assumes "list_all (\<lambda>x. st_trader x \<noteq> [] \<and> entryPayoutSignature B s (st_trader x) = None) xs"
    and "length ps \<le> length xs" "\<And>k. k < length ps \<Longrightarrow> place (ps ! k) = int k + 1"
  shows "list_all (payable (winnerByPlace (rankSeason xs)) B s) (zip (map st_trader (rankSeason xs)) ps)"
  unfolding list_all_length
proof (intro allI impI)
  let ?ws = "map st_trader (rankSeason xs)"
  fix k assume "k < length (zip ?ws ps)"
  then have k: "k < length ps" "k < length xs" by simp_all
  then have "?ws ! k \<in> set ?ws" by (metis length_map length_rankSeason nth_mem)
  then have "?ws ! k \<in> set (map st_trader xs)" using rankSeason_traders by (metis set_mset_mset)
  then have "?ws ! k \<noteq> [] \<and> entryPayoutSignature B s (?ws ! k) = None" using assms(1) by (auto simp: list_all_iff)
  with k assms(3) winner_of_place [of k xs] show "payable (winnerByPlace (rankSeason xs)) B s (zip ?ws ps ! k)"
    by (simp add: payable_def)
qed


text \<open>What a tick finds in the season of two: its board, where everything is held at cost.\<close>

definition cup_xs :: "standing list" where
  "cup_xs = map (toStanding (\<lambda>_. None)) (leaderboardRows (pz_bank played_cup) 1)"

lemma cup_values:
  "due_season (pz_rows played_cup) 100000 = Some cup_row" "due_season (pz_rows played_cup) 160000 = Some cup_row"
  "season_of (pz_bank played_cup) 1 = Some cup_terms" "row_id cup_row = 1"
  "pz_boards played_cup 1 = None" "cup_xs \<noteq> []" "map st_trader cup_xs = [''bob'', ''ann'']"
  "list_all (\<lambda>x. st_trader x \<noteq> [] \<and> entryPayoutSignature (pz_bank played_cup) 1 (st_trader x) = None) cup_xs"
  by code_simp+

lemma cup_board:
  "bd_standings (draw_board (\<lambda>_. None) (pz_bank played_cup) 1 now) = rankSeason cup_xs"
  by (simp add: draw_board_def cup_xs_def)

lemma played_cup_reached: "played_cup = foldl run_cup (new_prizes [cup_terms] [cup_row]) (cup_entries @ cup_trades)"
  by (simp add: played_cup_def entered_cup_def)


lemma pay_places_none: "pay_places winners s now ps [] (B, ts) = (d, B', ts') \<Longrightarrow> B' = B \<and> ts' = ts"
  by (induction ps) (auto simp: Let_def split: if_split_asm)

lemma pay_first_fails:
  assumes "0 < lamports p" "winners (place p) = Some w" "w \<noteq> []" "\<not> truthy (entryPayoutSignature B s w)"
    "sendPayout r = Inl e"
  shows "pay_places winners s now (p # ps) [r] (B, ts) = (False, B, ts @ landed_transfers r s w (lamports p))"
  using assms by (simp add: truthy_def)

lemma pay_first_only:
  assumes "0 < lamports p" "winners (place p) = Some w" "w \<noteq> []" "\<not> truthy (entryPayoutSignature B s w)"
  shows "\<exists>d B'. pay_places winners s now (p # ps) [r] (B, ts) = (d, B', ts @ landed_transfers r s w (lamports p))"
proof (cases "sendPayout r")
  case (Inl e)
  with pay_first_fails [where winners = winners, OF assms] show ?thesis by blast
next
  case (Inr tx)
  let ?B = "recordPayout s w (lamports p) tx now B" and ?ts = "ts @ landed_transfers r s w (lamports p)"
  obtain d B' ts' where "pay_places winners s now ps [] (?B, ?ts) = (d, B', ts')" by (metis prod_cases3)
  with pay_places_none [OF this] Inr assms show ?thesis by (auto simp: truthy_def)
qed

text \<open>
  C24: a prize whose confirmation timed out is sent again. When the transfer to the first place
  lands but its confirmation does not arrive in time, nothing is recorded, and the next tick, with
  the same standings, sends the same wallet the same prize a second time. The comment that a
  winner is paid at most once holds only while every confirmation is conclusive.
\<close>

theorem unconfirmed_prize_is_sent_again:
  assumes due: "due_season (pz_rows S) now = Some season" "due_season (pz_rows S) later = Some season"
    and board: "seasonBoard prices (pz_bank S) (row_id season) now (pz_boards S) = (b, boards)"
      "seasonBoard prices' (pz_bank S) (row_id season) later boards = (b', boards')" "bd_standings b' = bd_standings b"
    and split: "distribute (rulesetFor (row_ordinal season)) (to_potLamports (seasonTotals (pz_bank S) (row_id season)))
        (int (length (bd_standings b))) (Some (to_entriesLamports (seasonTotals (pz_bank S) (row_id season)))) = Inr d"
      "d_payouts d = p # ps"
    and first: "0 < lamports p" "winnerByPlace (bd_standings b) (place p) = Some w" "w \<noteq> []"
      "\<not> truthy (entryPayoutSignature (pz_bank S) (row_id season) w)"
    and lost: "sr_landed lost" "sendPayout lost = Inl err" and again: "sr_landed again"
  shows "pz_bank (payout_tick prices now [lost] S) = pz_bank S
    \<and> pz_transfers (payout_tick prices' later [again] (payout_tick prices now [lost] S))
      = pz_transfers S @ [(row_id season, w, lamports p), (row_id season, w, lamports p)]"
proof -
  let ?i = "row_id season" and ?t = "(row_id season, w, lamports p)"
  have one: "payout_tick prices now [lost] S = S\<lparr>pz_boards := boards, pz_transfers := pz_transfers S @ [?t]\<rparr>"
    unfolding payout_tick_def pay_season_def
    using due(1) board(1) split pay_first_fails [where winners = "winnerByPlace (bd_standings b)", OF first lost(2)] lost(1) by (simp add: Let_def landed_transfers_def)
  obtain d2 B' where "pay_places (winnerByPlace (bd_standings b)) ?i later (p # ps) [again] (pz_bank S, pz_transfers S @ [?t])
      = (d2, B', (pz_transfers S @ [?t]) @ [?t])"
    using pay_first_only [where winners = "winnerByPlace (bd_standings b)" and now = later and ps = ps
      and r = again and ts = "pz_transfers S @ [?t]", OF first] again
    by (auto simp: landed_transfers_def simp del: pay_places.simps)
  then show ?thesis
    unfolding one using due(2) board(2,3) split
    by (simp add: payout_tick_def pay_season_def Let_def del: pay_places.simps)
qed

theorem unconfirmed_prize_is_sent_again_witness:
  "pz_transfers (payout_tick (\<lambda>_. None) 160000 [sent ''tx1''] (payout_tick (\<lambda>_. None) 100000 [timed_out] played_cup))
    = [(1, ''bob'', 1294117648), (1, ''bob'', 1294117648)]"
proof -
  have facts: "pz_transfers played_cup = []" "to_potLamports (seasonTotals (pz_bank played_cup) 1) = 2000000000"
    "length cup_xs = 2" "to_entriesLamports (seasonTotals (pz_bank played_cup) 1) = 0" "st_trader (rankSeason cup_xs ! 0) = ''bob''"
    "entryPayoutSignature (pz_bank played_cup) 1 ''bob'' = None" "row_ordinal cup_row = 1"
    by code_simp+
  let ?first = "\<lparr>place = 1, lamports = 1294117648\<rparr>"
  have "case distribute (rulesetFor 1) 2000000000 2 (Some 0) of Inl _ \<Rightarrow> False | Inr d \<Rightarrow>
      (case d_payouts d of [] \<Rightarrow> False | p # ps \<Rightarrow> place p = 1 \<and> lamports p = 1294117648)" by code_simp
  then obtain d p ps where d: "distribute (rulesetFor 1) 2000000000 2 (Some 0) = Inr d" "d_payouts d = p # ps"
    "place p = 1" "lamports p = 1294117648"
    by (auto split: sum.splits list.splits)
  have drawn: "seasonBoard (\<lambda>_. None) (pz_bank played_cup) (row_id cup_row) now (pz_boards played_cup)
      = (draw_board (\<lambda>_. None) (pz_bank played_cup) 1 now,
         (pz_boards played_cup)(1 \<mapsto> (draw_board (\<lambda>_. None) (pz_bank played_cup) 1 now, now + CACHE_MS)))" for now
    by (simp add: seasonBoard_def cup_values Let_def)
  let ?boards = "(pz_boards played_cup)(1 \<mapsto> (draw_board (\<lambda>_. None) (pz_bank played_cup) 1 100000, 100000 + CACHE_MS))"
  have redrawn: "seasonBoard (\<lambda>_. None) (pz_bank played_cup) (row_id cup_row) 160000 ?boards
      = (draw_board (\<lambda>_. None) (pz_bank played_cup) 1 160000,
         ?boards(1 \<mapsto> (draw_board (\<lambda>_. None) (pz_bank played_cup) 1 160000, 160000 + CACHE_MS)))"
    by (simp add: seasonBoard_def cup_values Let_def CACHE_MS_def)
  have w: "winnerByPlace (bd_standings (draw_board (\<lambda>_. None) (pz_bank played_cup) 1 100000)) (place p) = Some ''bob''"
    using winner_of_place [of 0 cup_xs] facts(3,5) d(3) by (simp add: cup_board)
  have l: "0 < lamports p" "sr_landed timed_out" "sendPayout timed_out = Inl Plain_error" "sr_landed (sent ''tx1'')"
    by (simp_all add: d timed_out_def sent_def sendPayout_def)
  show ?thesis
    using unconfirmed_prize_is_sent_again [OF cup_values(1,2) drawn redrawn _ _ d(2) l(1) w _ _ l(2,3,4)]
    by (simp add: cup_values(4) cup_board facts d truthy_def)
qed




end
