(* ===== verification/Keeper.thy ===== *)
theory Keeper
  imports Ledger Verify "HOL-Library.List_Lexorder" "HOL-Library.Char_ord"
begin

text \<open>
  The keeper, which puts the record of every trader on chain (packages/keeper/src, the rows of
  packages/db/src/commits.ts and the loop of app/lib/keeper.ts): trades are planned into batches,
  their leaves are rebuilt from storage, and the root of each batch is written ahead, sent, read
  back and confirmed. What happens to one commit outside this process (whether the transaction
  landed, what the call returned, whether the record could be read, whether the process died) is
  its \<open>weather\<close>; a run that outlives its list of weathers died there. The collation of
  \<open>localeCompare\<close> is the parameter \<open>collate\<close>.
\<close>

section \<open>Planning\<close>

record pending_trade =
  pt_id :: int
  pt_seasonId :: int
  pt_user :: string
  pt_engineVersion :: int

record planned_batch =
  bt_seasonId :: int
  bt_user :: string
  bt_tradeIds :: "int list"
  bt_from :: int
  bt_to :: int
  bt_engineVersion :: int

definition DEFAULT_MAX_BATCH :: nat where "DEFAULT_MAX_BATCH = 256"

definition plan_order :: "(string \<Rightarrow> string \<Rightarrow> int) \<Rightarrow> pending_trade \<Rightarrow> pending_trade \<Rightarrow> int" where
  "plan_order collate a b = (if pt_seasonId a \<noteq> pt_seasonId b then pt_seasonId a - pt_seasonId b
     else if pt_user a \<noteq> pt_user b then collate (pt_user a) (pt_user b) else pt_id a - pt_id b)"

text \<open>\<open>flush\<close>: the batch of the trades collected so far, none if there are none.\<close>

definition flush_batch :: "pending_trade list \<Rightarrow> planned_batch list" where
  "flush_batch current = (case current of
       [] \<Rightarrow> []
     | first # _ \<Rightarrow> [\<lparr>bt_seasonId = pt_seasonId first, bt_user = pt_user first, bt_tradeIds = map pt_id current,
         bt_from = pt_id first, bt_to = pt_id (last current), bt_engineVersion = pt_engineVersion first\<rparr>])"

definition breaks :: "nat \<Rightarrow> pending_trade list \<Rightarrow> pending_trade \<Rightarrow> bool" where
  "breaks maxBatch current t = (case current of
       [] \<Rightarrow> False
     | head # _ \<Rightarrow> pt_seasonId head \<noteq> pt_seasonId t \<or> pt_user head \<noteq> pt_user t
         \<or> pt_engineVersion head \<noteq> pt_engineVersion t \<or> length current \<ge> maxBatch)"

fun plan_loop :: "nat \<Rightarrow> pending_trade list \<Rightarrow> pending_trade list \<Rightarrow> planned_batch list" where
  "plan_loop maxBatch current [] = flush_batch current"
| "plan_loop maxBatch current (t # ts) =
     (if breaks maxBatch current t then flush_batch current @ plan_loop maxBatch [t] ts
      else plan_loop maxBatch (current @ [t]) ts)"

definition planBatches :: "(string \<Rightarrow> string \<Rightarrow> int) \<Rightarrow> pending_trade list \<Rightarrow> nat \<Rightarrow> planned_batch list res" where
  "planBatches collate ts maxBatch =
     rbind (ensure (\<not> maxBatch < 1) Plain_error) (\<lambda>_. Inr (plan_loop maxBatch [] (js_sort (plan_order collate) ts)))"

section \<open>Rebuilding leaves\<close>

text \<open>A trade joined with the ordinal of its season and the snapshot it was quoted against.\<close>

record loaded_trade =
  ld_trade :: stored_trade
  ld_ordinal :: int
  ld_snapshot :: snapshot_write

definition snapshot_of :: "'a ledger_scheme \<Rightarrow> int \<Rightarrow> stored_snapshot option" where
  "snapshot_of L i = List.find (\<lambda>s. ss_id s = i) (snapshots L)"

definition load_row :: "'a ledger_scheme \<Rightarrow> stored_trade \<Rightarrow> loaded_trade option" where
  "load_row L t = (case (season_of L (tw_seasonId (tr_write t)), snapshot_of L (tr_snapshotId t)) of
       (Some s, Some p) \<Rightarrow> Some \<lparr>ld_trade = t, ld_ordinal = te_ordinal s, ld_snapshot = ss_write p\<rparr>
     | _ \<Rightarrow> None)"

definition loadTrades :: "'a ledger_scheme \<Rightarrow> int \<Rightarrow> string \<Rightarrow> int \<Rightarrow> int \<Rightarrow> loaded_trade list" where
  "loadTrades L seasonId user fromId toId = js_sort (\<lambda>l r. tr_sequence (ld_trade l) - tr_sequence (ld_trade r))
     (List.map_filter (load_row L) (filter (\<lambda>t. tw_seasonId (tr_write t) = seasonId \<and> tw_user (tr_write t) = user
        \<and> fromId \<le> tr_id t \<and> tr_id t \<le> toId) (trades L)))"

definition toLeaf :: "loaded_trade \<Rightarrow> trade_leaf" where
  "toLeaf x = (let t = ld_trade x; w = tr_write t; p = ld_snapshot x in
     \<lparr>leaf_sequence = tr_sequence t, leaf_seasonOrdinal = ld_ordinal x, leaf_trader = tw_user w, leaf_mint = tw_mint w,
      leaf_side = tw_side w, leaf_solAmount = tw_solAmount w, leaf_tokenAmount = tw_tokenAmount w,
      leaf_feeLamports = tw_fee w, leaf_solReserve = sw_solReserve p, leaf_tokenReserve = sw_tokenReserve p,
      leaf_deliverableTokens = sw_deliverableTokens p, leaf_feeBps = sw_feeBps p, leaf_poolSource = tw_poolSource w,
      leaf_priceImpactBps = tw_priceImpactBps w, leaf_partial = tw_partial w, leaf_clickedAtSlot = tw_clickedAtSlot w,
      leaf_filledAtSlot = tw_filledAtSlot w, leaf_latencyMs = tw_latencyMs w, leaf_engineVersion = tw_engineVersion w,
      leaf_createdAt = tr_createdAt t\<rparr>)"

text \<open>Inside the result, \<open>Inl\<close> is a \<open>LeafMismatchError\<close> with the trade it names.\<close>

fun leavesFor :: "(byte list \<Rightarrow> byte list) \<Rightarrow> (string \<Rightarrow> byte list option) \<Rightarrow> loaded_trade list \<Rightarrow> (int + trade_leaf list) res" where
  "leavesFor H dec [] = Inr (Inr [])"
| "leavesFor H dec (x # xs) =
     rbind (hashLeaf H dec (toLeaf x)) (\<lambda>h.
     if toHex h \<noteq> tr_leafHash (ld_trade x) then Inr (Inl (tr_id (ld_trade x)))
     else rbind (leavesFor H dec xs) (\<lambda>rest. Inr (case rest of Inl i \<Rightarrow> Inl i | Inr ls \<Rightarrow> Inr (toLeaf x # ls))))"

definition rootFor :: "(byte list \<Rightarrow> byte list) \<Rightarrow> (string \<Rightarrow> byte list option) \<Rightarrow> 'a ledger_scheme \<Rightarrow> planned_batch \<Rightarrow> (int + string) res" where
  "rootFor H dec L b =
     (let own = filter (\<lambda>x. tr_id (ld_trade x) \<in> set (bt_tradeIds b)) (loadTrades L (bt_seasonId b) (bt_user b) (bt_from b) (bt_to b)) in
      if length own \<noteq> length (bt_tradeIds b) then Inr (Inl (bt_from b))
      else rbind (leavesFor H dec own) (\<lambda>r. case r of
          Inl i \<Rightarrow> Inr (Inl i)
        | Inr leaves \<Rightarrow> rbind (traverse (hashLeaf H dec) leaves) (\<lambda>hs. rbind (merkleRoot H hs) (\<lambda>r. Inr (Inr (toHex r))))))"

section \<open>The rows of the commits\<close>

record commit_intent =
  ci_seasonId :: int
  ci_user :: string
  ci_merkleRoot :: string
  ci_leafCount :: int
  ci_from :: int
  ci_to :: int
  ci_engineVersion :: int
  ci_previous :: string
  ci_predicted :: string

record stored_commit = commit_intent +
  cm_id :: int
  cm_txSignature :: "string option"
  cm_slot :: "int option"
  cm_createdAt :: int
  cm_confirmedAt :: "int option"
  cm_attempts :: int
  cm_failed :: bool

text \<open>A record on chain, with the accumulator as bytes.\<close>

record chain_record =
  cr_accumulator :: "byte list"
  cr_commitCount :: int
  cr_leafCount :: int

text \<open>
  The tables of trades and commits, the last id a commit was given, the records on chain by season
  ordinal and wallet, and whether this keeper has halted.
\<close>

record keeper_world =
  kw_ledger :: ledger
  kw_commits :: "stored_commit list"
  kw_lastId :: int
  kw_chain :: "int \<times> string \<Rightarrow> chain_record option"
  kw_halted :: bool

definition covers :: "stored_commit \<Rightarrow> stored_trade \<Rightarrow> bool" where
  "covers c t \<longleftrightarrow> ci_seasonId c = tw_seasonId (tr_write t) \<and> ci_user c = tw_user (tr_write t)
     \<and> ci_from c \<le> tr_id t \<and> tr_id t \<le> ci_to c"

definition pending_of :: "stored_trade \<Rightarrow> pending_trade" where
  "pending_of t = \<lparr>pt_id = tr_id t, pt_seasonId = tw_seasonId (tr_write t), pt_user = tw_user (tr_write t),
     pt_engineVersion = tw_engineVersion (tr_write t)\<rparr>"

definition text_order :: "string \<Rightarrow> string \<Rightarrow> int" where
  "text_order a b = (if a < b then - 1 else if a = b then 0 else 1)"

definition uncommittedTrades :: "keeper_world \<Rightarrow> nat \<Rightarrow> pending_trade list" where
  "uncommittedTrades W limit = take limit (js_sort (plan_order text_order)
     (map pending_of (filter (\<lambda>t. \<not> list_ex (\<lambda>c. covers c t) (kw_commits W)) (trades (kw_ledger W)))))"

definition recordIntent :: "commit_intent \<Rightarrow> int \<Rightarrow> keeper_world \<Rightarrow> (int \<times> keeper_world) res" where
  "recordIntent i now W =
     rbind (ensure (ci_leafCount i > 0 \<and> ci_to i \<ge> ci_from i) Db_error) (\<lambda>_.
     let n = kw_lastId W + 1;
         row = commit_intent.extend i (stored_commit.fields n None None now None 0 False) in
     Inr (n, W\<lparr>kw_commits := kw_commits W @ [row], kw_lastId := n\<rparr>))"

definition update_commit :: "int \<Rightarrow> (stored_commit \<Rightarrow> stored_commit) \<Rightarrow> keeper_world \<Rightarrow> keeper_world" where
  "update_commit i f W = W\<lparr>kw_commits := map (\<lambda>c. if cm_id c = i then f c else c) (kw_commits W)\<rparr>"

definition markAttempted :: "int \<Rightarrow> keeper_world \<Rightarrow> keeper_world" where
  "markAttempted i = update_commit i (\<lambda>c. c\<lparr>cm_attempts := cm_attempts c + 1\<rparr>)"

definition markConfirmed :: "int \<Rightarrow> string \<Rightarrow> int \<Rightarrow> int \<Rightarrow> keeper_world \<Rightarrow> keeper_world" where
  "markConfirmed i tx atSlot now = update_commit i
     (\<lambda>c. c\<lparr>cm_txSignature := Some tx, cm_slot := Some atSlot, cm_confirmedAt := Some now, cm_failed := False\<rparr>)"

text \<open>The reason is text for the operator; the row keeps that there is one.\<close>

definition markFailed :: "int \<Rightarrow> keeper_world \<Rightarrow> keeper_world" where
  "markFailed i = update_commit i (\<lambda>c. c\<lparr>cm_failed := True\<rparr>)"

definition discardIntent :: "int \<Rightarrow> keeper_world \<Rightarrow> keeper_world" where
  "discardIntent i W = W\<lparr>kw_commits := filter (\<lambda>c. \<not> (cm_id c = i \<and> cm_confirmedAt c = None)) (kw_commits W)\<rparr>"

definition by_commit_id :: "stored_commit \<Rightarrow> stored_commit \<Rightarrow> int" where
  "by_commit_id l r = cm_id l - cm_id r"

definition pendingCommits :: "keeper_world \<Rightarrow> stored_commit list" where
  "pendingCommits W = js_sort by_commit_id (filter (\<lambda>c. cm_confirmedAt c = None) (kw_commits W))"

definition commitHistory :: "keeper_world \<Rightarrow> int \<Rightarrow> string \<Rightarrow> stored_commit list" where
  "commitHistory W seasonId user = js_sort by_commit_id
     (filter (\<lambda>c. ci_seasonId c = seasonId \<and> ci_user c = user \<and> cm_confirmedAt c \<noteq> None) (kw_commits W))"

text \<open>\<open>ORDER BY id DESC LIMIT 1\<close> over the same rows.\<close>

definition lastConfirmedCommit :: "keeper_world \<Rightarrow> int \<Rightarrow> string \<Rightarrow> stored_commit option" where
  "lastConfirmedCommit W seasonId user = (case js_sort (\<lambda>l r. cm_id r - cm_id l)
       (filter (\<lambda>c. ci_seasonId c = seasonId \<and> ci_user c = user \<and> cm_confirmedAt c \<noteq> None) (kw_commits W)) of
     [] \<Rightarrow> None | c # _ \<Rightarrow> Some c)"

section \<open>The keeper\<close>

definition localAccumulator :: "keeper_world \<Rightarrow> int \<Rightarrow> string \<Rightarrow> string" where
  "localAccumulator W seasonId user = (case lastConfirmedCommit W seasonId user of
       Some c \<Rightarrow> ci_predicted c | None \<Rightarrow> toHex EMPTY_ACCUMULATOR)"

definition predictAccumulator :: "(byte list \<Rightarrow> byte list) \<Rightarrow> string \<Rightarrow> string \<Rightarrow> int \<Rightarrow> int \<Rightarrow> string res" where
  "predictAccumulator H previous root_hex leaves version =
     rbind (fromHex previous) (\<lambda>p. rbind (fromHex root_hex) (\<lambda>r. rbind (extendChain H p r leaves version) (\<lambda>a. Inr (toHex a))))"

text \<open>
  The program's \<open>commit_root\<close>, on a transaction that lands: it folds the same bytes into the same
  chain, starting from nothing.
\<close>

definition chain_value :: "keeper_world \<Rightarrow> int \<times> string \<Rightarrow> byte list" where
  "chain_value W key = (case kw_chain W key of None \<Rightarrow> EMPTY_ACCUMULATOR | Some r \<Rightarrow> cr_accumulator r)"

definition land :: "(byte list \<Rightarrow> byte list) \<Rightarrow> int \<Rightarrow> commit_intent \<Rightarrow> keeper_world \<Rightarrow> keeper_world" where
  "land H ordinal i W = (let key = (ordinal, ci_user i); count = (case kw_chain W key of None \<Rightarrow> 0 | Some r \<Rightarrow> cr_commitCount r);
       leaves = (case kw_chain W key of None \<Rightarrow> 0 | Some r \<Rightarrow> cr_leafCount r) in
     case rbind (fromHex (ci_merkleRoot i)) (\<lambda>r. extendChain H (chain_value W key) r (ci_leafCount i) (ci_engineVersion i)) of
       Inl _ \<Rightarrow> W
     | Inr a \<Rightarrow> W\<lparr>kw_chain := (kw_chain W)(key \<mapsto> \<lparr>cr_accumulator = a, cr_commitCount = count + 1,
         cr_leafCount = leaves + ci_leafCount i\<rparr>)\<rparr>)"

datatype moment_of_death = Before_sending | After_sending | After_reading

record weather =
  wx_dies :: "moment_of_death option"
  wx_landed :: bool
  wx_receipt :: "(string \<times> int) option"
  wx_readable :: bool

datatype commit_outcome = Committed int | Not_committed | Halt | Threw error | Died

definition intent_for :: "planned_batch \<Rightarrow> string \<Rightarrow> string \<Rightarrow> string \<Rightarrow> commit_intent" where
  "intent_for b root_hex previous predicted = \<lparr>ci_seasonId = bt_seasonId b, ci_user = bt_user b, ci_merkleRoot = root_hex,
     ci_leafCount = int (length (bt_tradeIds b)), ci_from = bt_from b, ci_to = bt_to b,
     ci_engineVersion = bt_engineVersion b, ci_previous = previous, ci_predicted = predicted\<rparr>"

text \<open>What is left of a run of which the process died: a new one has not halted.\<close>

definition restarted :: "keeper_world \<Rightarrow> keeper_world" where
  "restarted W = W\<lparr>kw_halted := False\<rparr>"

definition sent_root :: "(byte list \<Rightarrow> byte list) \<Rightarrow> int \<Rightarrow> weather \<Rightarrow> commit_intent \<Rightarrow> keeper_world \<Rightarrow> keeper_world" where
  "sent_root H ordinal wx i W = (if wx_landed wx then land H ordinal i W else W)"

definition read_back :: "int \<Rightarrow> string \<Rightarrow> keeper_world \<Rightarrow> string" where
  "read_back ordinal user W = (case kw_chain W (ordinal, user) of None \<Rightarrow> [] | Some r \<Rightarrow> toHex (cr_accumulator r))"

definition commit_batch :: "(byte list \<Rightarrow> byte list) \<Rightarrow> int \<Rightarrow> weather \<Rightarrow> int \<Rightarrow> planned_batch \<Rightarrow> string \<Rightarrow> keeper_world
    \<Rightarrow> commit_outcome \<times> keeper_world" where
  "commit_batch H now wx ordinal b root_hex W =
     (if kw_halted W then (Halt, W)
      else let previous = localAccumulator W (bt_seasonId b) (bt_user b) in
        case predictAccumulator H previous root_hex (int (length (bt_tradeIds b))) (bt_engineVersion b) of
          Inl e \<Rightarrow> (Threw e, W)
        | Inr predicted \<Rightarrow>
            let i = intent_for b root_hex previous predicted in
            (case recordIntent i now W of
               Inl e \<Rightarrow> (Threw e, W)
             | Inr (n, W1) \<Rightarrow>
                 if wx_dies wx = Some Before_sending then (Died, restarted W1)
                 else let W2 = sent_root H ordinal wx i (markAttempted n W1) in
                   if wx_dies wx = Some After_sending then (Died, restarted W2)
                   else (case wx_receipt wx of
                       None \<Rightarrow> (Not_committed, markFailed n W2)
                     | Some (signature, atSlot) \<Rightarrow>
                         if \<not> wx_readable wx then (Threw Plain_error, W2)
                         else if read_back ordinal (bt_user b) W2 \<noteq> predicted
                         then (Halt, (markFailed n W2)\<lparr>kw_halted := True\<rparr>)
                         else if wx_dies wx = Some After_reading then (Died, restarted W2)
                         else (Committed n, markConfirmed n signature atSlot now W2))))"

section \<open>One pass\<close>

text \<open>Reconciling one intent: \<open>None\<close> when the record could not be read, \<open>Some False\<close> when it halts.\<close>

definition reconcile_one :: "(int \<Rightarrow> int option) \<Rightarrow> int \<Rightarrow> bool \<Rightarrow> stored_commit \<Rightarrow> keeper_world \<Rightarrow> bool option \<times> keeper_world" where
  "reconcile_one ordinals now readable p W = (case ordinals (ci_seasonId p) of
       None \<Rightarrow> (None, W)
     | Some ordinal \<Rightarrow>
         if \<not> readable then (None, W)
         else let key = (ordinal, ci_user p); onChain = toHex (chain_value W key) in
           if onChain = ci_predicted p
           then (Some True, markConfirmed (cm_id p) (case cm_txSignature p of None \<Rightarrow> ''recovered'' | Some s \<Rightarrow> s)
                  (case kw_chain W key of None \<Rightarrow> 0 | Some r \<Rightarrow> cr_commitCount r) now W)
           else if onChain = ci_previous p then (Some True, discardIntent (cm_id p) W)
           else (Some False, W\<lparr>kw_halted := True\<rparr>))"

text \<open>The loop over the intents; the reads that succeed are listed, and a list that ends is a process that died.\<close>

fun reconcile :: "(int \<Rightarrow> int option) \<Rightarrow> int \<Rightarrow> stored_commit list \<Rightarrow> bool list \<Rightarrow> keeper_world \<Rightarrow> bool option \<times> keeper_world" where
  "reconcile ordinals now [] reads W = (Some True, W)"
| "reconcile ordinals now (p # ps) [] W = (None, restarted W)"
| "reconcile ordinals now (p # ps) (r # rs) W = (case reconcile_one ordinals now r p W of
       (Some True, W') \<Rightarrow> reconcile ordinals now ps rs W'
     | (other, W') \<Rightarrow> (other, W'))"

text \<open>The batches of a pass; \<open>blocked\<close> holds the traders with a batch that did not confirm.\<close>

fun run_batches :: "(byte list \<Rightarrow> byte list) \<Rightarrow> (string \<Rightarrow> byte list option) \<Rightarrow> (int \<Rightarrow> int option) \<Rightarrow> int
    \<Rightarrow> (int \<times> string) list \<Rightarrow> planned_batch list \<Rightarrow> weather list \<Rightarrow> keeper_world \<Rightarrow> keeper_world" where
  "run_batches H dec ordinals now blocked [] wxs W = W"
| "run_batches H dec ordinals now blocked (b # bs) wxs W =
     (let key = (bt_seasonId b, bt_user b) in
      if key \<in> set blocked then run_batches H dec ordinals now blocked bs wxs W
      else case rootFor H dec (kw_ledger W) b of
        Inl e \<Rightarrow> W
      | Inr (Inl tradeId) \<Rightarrow> run_batches H dec ordinals now (key # blocked) bs wxs W
      | Inr (Inr root_hex) \<Rightarrow> (case ordinals (bt_seasonId b) of
          None \<Rightarrow> W
        | Some ordinal \<Rightarrow> (case wxs of
            [] \<Rightarrow> restarted W
          | wx # wxs' \<Rightarrow> (case commit_batch H now wx ordinal b root_hex W of
              (Committed _, W') \<Rightarrow> run_batches H dec ordinals now blocked bs wxs' W'
            | (Not_committed, W') \<Rightarrow> run_batches H dec ordinals now (key # blocked) bs wxs' W'
            | (_, W') \<Rightarrow> W'))))"

definition runOnce :: "(byte list \<Rightarrow> byte list) \<Rightarrow> (string \<Rightarrow> byte list option) \<Rightarrow> (string \<Rightarrow> string \<Rightarrow> int)
    \<Rightarrow> (int \<Rightarrow> int option) \<Rightarrow> int \<Rightarrow> bool list \<Rightarrow> weather list \<Rightarrow> keeper_world \<Rightarrow> keeper_world" where
  "runOnce H dec collate ordinals now reads wxs W = (case reconcile ordinals now (pendingCommits W) reads W of
       (Some True, W1) \<Rightarrow> (case planBatches collate (uncommittedTrades W1 5000) DEFAULT_MAX_BATCH of
           Inl _ \<Rightarrow> W1 | Inr batches \<Rightarrow> run_batches H dec ordinals now [] batches wxs W1)
     | (_, W1) \<Rightarrow> W1)"

definition season_ordinals :: "'a ledger_scheme \<Rightarrow> int \<Rightarrow> int option" where
  "season_ordinals L = map_of (rev (map (\<lambda>s. (te_id s, te_ordinal s)) (seasons L)))"

text \<open>One cycle of the worker: it stands down without the program, and a halted keeper does nothing.\<close>

definition keeper_tick :: "(byte list \<Rightarrow> byte list) \<Rightarrow> (string \<Rightarrow> byte list option) \<Rightarrow> (string \<Rightarrow> string \<Rightarrow> int)
    \<Rightarrow> bool \<Rightarrow> int \<Rightarrow> bool list \<Rightarrow> weather list \<Rightarrow> keeper_world \<Rightarrow> keeper_world" where
  "keeper_tick H dec collate deployed now reads wxs W =
     (if \<not> deployed \<or> kw_halted W then W
      else runOnce H dec collate (season_ordinals (kw_ledger W)) now reads wxs W)"

section \<open>The audit\<close>

datatype audit_verdict = Clean | Foreign_commit | Missing_record | Unreadable_record

text \<open>The last confirmed commit of every trader, and what the chain holds for it.\<close>

definition latest_commits :: "keeper_world \<Rightarrow> stored_commit list" where
  "latest_commits W = filter (\<lambda>c. cm_confirmedAt c \<noteq> None \<and> list_all (\<lambda>d. ci_seasonId d = ci_seasonId c \<and> ci_user d = ci_user c
     \<and> cm_confirmedAt d \<noteq> None \<longrightarrow> cm_id d \<le> cm_id c) (kw_commits W)) (kw_commits W)"

definition audit_one :: "(int \<Rightarrow> int) \<Rightarrow> (int \<times> string \<Rightarrow> bool) \<Rightarrow> keeper_world \<Rightarrow> stored_commit \<Rightarrow> audit_verdict" where
  "audit_one ordinalFor readable W c = (let key = (ordinalFor (ci_seasonId c), ci_user c) in
     if \<not> readable key then Unreadable_record
     else case kw_chain W key of
       None \<Rightarrow> Missing_record
     | Some r \<Rightarrow> if toHex (cr_accumulator r) = ci_predicted c then Clean else Foreign_commit)"

record audit_result =
  au_checked :: int
  au_findings :: "(int \<times> string \<times> audit_verdict) list"
  au_compromised :: bool

definition auditRecords :: "(int \<Rightarrow> int) \<Rightarrow> (int \<times> string \<Rightarrow> bool) \<Rightarrow> keeper_world \<Rightarrow> audit_result" where
  "auditRecords ordinalFor readable W =
     (let rows = latest_commits W;
          verdicts = map (\<lambda>c. (ci_seasonId c, ci_user c, audit_one ordinalFor readable W c)) rows;
          findings = filter (\<lambda>(s, u, v). v \<noteq> Clean) verdicts in
      \<lparr>au_checked = int (length rows), au_findings = findings,
       au_compromised = list_ex (\<lambda>(s, u, v). v = Foreign_commit) findings\<rparr>)"

section \<open>A client of the keeper\<close>

datatype keeper_op =
    Trading ledger_op
  | Cycle bool int "bool list" "weather list"
  | Restart
  | Resume

definition run_keeper :: "(byte list \<Rightarrow> byte list) \<Rightarrow> (string \<Rightarrow> byte list option) \<Rightarrow> (string \<Rightarrow> string \<Rightarrow> int) \<Rightarrow> keeper_world \<Rightarrow> keeper_op \<Rightarrow> keeper_world" where
  "run_keeper H dec collate W op = (case op of
       Trading lop \<Rightarrow> W\<lparr>kw_ledger := run_op H dec (kw_ledger W) lop\<rparr>
     | Cycle deployed now reads wxs \<Rightarrow> keeper_tick H dec collate deployed now reads wxs W
     | Restart \<Rightarrow> restarted W
     | Resume \<Rightarrow> W\<lparr>kw_halted := False\<rparr>)"

definition new_world :: "season_terms list \<Rightarrow> keeper_world" where
  "new_world ss = \<lparr>kw_ledger = new_ledger ss, kw_commits = [], kw_lastId = 0, kw_chain = (\<lambda>_. None), kw_halted = False\<rparr>"

section \<open>A record and its chain\<close>

text \<open>Folding a commit into an accumulator.\<close>

definition fold_commit :: "(byte list \<Rightarrow> byte list) \<Rightarrow> byte list \<Rightarrow> 'a commit_intent_scheme \<Rightarrow> byte list res" where
  "fold_commit H acc c = rbind (fromHex (ci_merkleRoot c)) (\<lambda>r. extendChain H acc r (ci_leafCount c) (ci_engineVersion c))"

text \<open>The next commit of a record that stands at \<open>acc\<close> predicts where it leads.\<close>

definition predicts :: "(byte list \<Rightarrow> byte list) \<Rightarrow> byte list \<Rightarrow> stored_commit \<Rightarrow> byte list \<Rightarrow> bool" where
  "predicts H acc c a \<longleftrightarrow> ci_previous c = toHex acc \<and> fold_commit H acc c = Inr a \<and> ci_predicted c = toHex a"

fun chained :: "(byte list \<Rightarrow> byte list) \<Rightarrow> byte list \<Rightarrow> stored_commit list \<Rightarrow> byte list \<Rightarrow> bool" where
  "chained H acc [] v \<longleftrightarrow> v = acc"
| "chained H acc (c # cs) v \<longleftrightarrow> cm_confirmedAt c \<noteq> None \<and> (\<exists>a. predicts H acc c a \<and> chained H a cs v)"

definition own :: "int \<Rightarrow> string \<Rightarrow> stored_commit list \<Rightarrow> stored_commit list" where
  "own s u = filter (\<lambda>c. ci_seasonId c = s \<and> ci_user c = u)"

text \<open>
  The rows of a record are confirmed ones, each predicted from the one before, and at most one
  intent after them, which is confirmed on chain or is not.
\<close>

definition settled :: "(byte list \<Rightarrow> byte list) \<Rightarrow> stored_commit list \<Rightarrow> byte list \<Rightarrow> bool" where
  "settled H cs v \<longleftrightarrow> chained H EMPTY_ACCUMULATOR cs v"

definition in_flight :: "(byte list \<Rightarrow> byte list) \<Rightarrow> stored_commit list \<Rightarrow> byte list \<Rightarrow> bool" where
  "in_flight H rows v \<longleftrightarrow> (\<exists>cs p acc a. rows = cs @ [p] \<and> settled H cs acc \<and> cm_confirmedAt p = None
     \<and> predicts H acc p a \<and> (v = acc \<or> v = a))"

definition record_ok :: "(byte list \<Rightarrow> byte list) \<Rightarrow> stored_commit list \<Rightarrow> byte list \<Rightarrow> bool" where
  "record_ok H rows v \<longleftrightarrow> settled H rows v \<or> in_flight H rows v"

lemma chained_append: "chained H acc (cs @ ds) v \<longleftrightarrow> (\<exists>a. chained H acc cs a \<and> chained H a ds v)"
  by (induction cs arbitrary: acc) auto

lemma chained_confirmed: "chained H acc cs v \<Longrightarrow> c \<in> set cs \<Longrightarrow> cm_confirmedAt c \<noteq> None"
  by (induction cs arbitrary: acc) auto

lemma chained_unique: "chained H acc cs v \<Longrightarrow> chained H acc cs w \<Longrightarrow> v = w"
  by (induction cs arbitrary: acc) (auto simp: predicts_def)

lemma settled_snoc: "settled H cs acc \<Longrightarrow> cm_confirmedAt p \<noteq> None \<Longrightarrow> predicts H acc p a \<Longrightarrow> settled H (cs @ [p]) a"
  by (auto simp: settled_def chained_append)

lemma settled_last: "settled H cs v \<Longrightarrow> toHex v = (if cs = [] then toHex EMPTY_ACCUMULATOR else ci_predicted (last cs))"
proof (cases cs rule: rev_cases)
  case (snoc ds d)
  moreover assume "settled H cs v"
  ultimately show ?thesis by (auto simp: settled_def chained_append predicts_def)
qed (simp add: settled_def)

lemma record_ok_confirmed: "record_ok H rows v \<Longrightarrow> list_all (\<lambda>c. cm_confirmedAt c \<noteq> None) rows \<Longrightarrow> settled H rows v"
  by (auto simp: record_ok_def in_flight_def)

lemma record_ok_pending:
  assumes "record_ok H rows v" "p \<in> set rows" "cm_confirmedAt p = None"
  obtains cs acc a where "rows = cs @ [p]" "settled H cs acc" "predicts H acc p a" "v = acc \<or> v = a"
proof -
  have "\<not> settled H rows v" using assms(2,3) chained_confirmed unfolding settled_def by blast
  with assms(1) obtain cs q acc a where r: "rows = cs @ [q]" "settled H cs acc" "cm_confirmedAt q = None" "predicts H acc q a"
      "v = acc \<or> v = a"
    by (auto simp: record_ok_def in_flight_def)
  have "p = q" using assms(2,3) r(1,2) chained_confirmed unfolding settled_def by fastforce
  with r show thesis by (intro that) auto
qed

section \<open>Updating rows\<close>

definition ids_ok :: "keeper_world \<Rightarrow> bool" where
  "ids_ok W \<longleftrightarrow> sorted_wrt (<) (map cm_id (kw_commits W)) \<and> list_all (\<lambda>c. cm_id c \<le> kw_lastId W) (kw_commits W)"

definition keeps_row :: "(stored_commit \<Rightarrow> stored_commit) \<Rightarrow> bool" where
  "keeps_row f \<longleftrightarrow> (\<forall>c. cm_id (f c) = cm_id c \<and> commit_intent.truncate (f c) = commit_intent.truncate c)"

lemma keeps_row_fields:
  assumes "keeps_row f"
  shows "cm_id (f c) = cm_id c" "ci_seasonId (f c) = ci_seasonId c" "ci_user (f c) = ci_user c"
    "predicts H acc (f c) a = predicts H acc c a" "ci_predicted (f c) = ci_predicted c" "ci_previous (f c) = ci_previous c"
    "ci_from (f c) = ci_from c" "ci_to (f c) = ci_to c"
  using assms by (auto simp: keeps_row_def commit_intent.defs predicts_def fold_commit_def)

lemma kept_rows [simp]:
  "keeps_row (\<lambda>c. c\<lparr>cm_attempts := cm_attempts c + 1\<rparr>)" "keeps_row (\<lambda>c. c\<lparr>cm_failed := b\<rparr>)"
  "keeps_row (\<lambda>c. c\<lparr>cm_txSignature := x, cm_slot := y, cm_confirmedAt := z, cm_failed := b\<rparr>)"
  by (simp_all add: keeps_row_def commit_intent.defs)

lemma update_commit_parts [simp]:
  "kw_chain (update_commit i f W) = kw_chain W" "kw_ledger (update_commit i f W) = kw_ledger W"
  "kw_halted (update_commit i f W) = kw_halted W" "kw_lastId (update_commit i f W) = kw_lastId W"
  "chain_value (update_commit i f W) = chain_value W"
  by (simp_all add: update_commit_def chain_value_def fun_eq_iff)

lemma ids_distinct: "ids_ok W \<Longrightarrow> c \<in> set (kw_commits W) \<Longrightarrow> d \<in> set (kw_commits W) \<Longrightarrow> cm_id c = cm_id d \<Longrightarrow> c = d"
  using strict_sorted_imp_sorted unfolding ids_ok_def
  by (metis distinct_map inj_onD strict_sorted_iff)

lemma update_ids:
  assumes "keeps_row f" "ids_ok W"
  shows "ids_ok (update_commit i f W)"
proof -
  have "map cm_id (kw_commits (update_commit i f W)) = map cm_id (kw_commits W)"
    using assms(1) by (simp add: update_commit_def keeps_row_fields)
  moreover have "list_all (\<lambda>c. cm_id c \<le> kw_lastId W) (kw_commits (update_commit i f W))"
    using assms by (auto simp: update_commit_def list_all_iff keeps_row_fields ids_ok_def)
  ultimately show ?thesis using assms(2) by (simp add: ids_ok_def)
qed

lemma own_update:
  "keeps_row f \<Longrightarrow> own s u (kw_commits (update_commit i f W)) = map (\<lambda>c. if cm_id c = i then f c else c) (own s u (kw_commits W))"
  by (simp add: own_def update_commit_def filter_map comp_def keeps_row_fields if_distrib cong: if_cong)

lemma own_update_other:
  assumes "keeps_row f" "ids_ok W" "p \<in> set (kw_commits W)" "(ci_seasonId p, ci_user p) \<noteq> (s, u)"
  shows "own s u (kw_commits (update_commit (cm_id p) f W)) = own s u (kw_commits W)"
proof -
  have "map (\<lambda>c. if cm_id c = cm_id p then f c else c) (own s u (kw_commits W)) = own s u (kw_commits W)"
    using assms(2-4) ids_distinct by (intro map_idI) (auto simp: own_def)
  with assms(1) show ?thesis by (simp add: own_update)
qed

lemma own_update_last:
  assumes "keeps_row f" "ids_ok W" "own s u (kw_commits W) = cs @ [p]"
  shows "own s u (kw_commits (update_commit (cm_id p) f W)) = cs @ [f p]"
proof -
  have sub: "set (cs @ [p]) \<subseteq> set (kw_commits W)" using assms(3) by (metis filter_is_subset own_def)
  have "sorted_wrt (<) (map cm_id (cs @ [p]))"
    using assms(2) unfolding ids_ok_def assms(3) [symmetric] own_def by (simp add: sorted_wrt_map sorted_wrt_filter)
  then have "\<forall>c \<in> set cs. cm_id c \<noteq> cm_id p" by (auto simp: sorted_wrt_append)
  then have "map (\<lambda>c. if cm_id c = cm_id p then f c else c) cs = cs" by (intro map_idI) auto
  with assms(1,3) show ?thesis by (simp add: own_update)
qed

section \<open>The world of the keeper\<close>

definition seasons_ok :: "'a ledger_scheme \<Rightarrow> bool" where
  "seasons_ok L \<longleftrightarrow> distinct (map te_id (seasons L)) \<and> distinct (map te_ordinal (seasons L))"

text \<open>Every record the chain holds is a record of the tables, as far as they got.\<close>

definition world_ok :: "(byte list \<Rightarrow> byte list) \<Rightarrow> keeper_world \<Rightarrow> bool" where
  "world_ok H W \<longleftrightarrow> ids_ok W \<and> seasons_ok (kw_ledger W)
     \<and> (\<forall>c \<in> set (kw_commits W). ci_seasonId c \<in> te_id ` set (seasons (kw_ledger W)))
     \<and> (\<forall>s u n. season_ordinals (kw_ledger W) s = Some n \<longrightarrow> record_ok H (own s u (kw_commits W)) (chain_value W (n, u)))
     \<and> (\<forall>n u. n \<notin> te_ordinal ` set (seasons (kw_ledger W)) \<longrightarrow> kw_chain W (n, u) = None)"

lemma season_ordinals_Some:
  "distinct (map te_id (seasons L)) \<Longrightarrow>
     season_ordinals L s = Some n \<longleftrightarrow> (\<exists>t \<in> set (seasons L). te_id t = s \<and> te_ordinal t = n)"
  unfolding season_ordinals_def
  by (subst map_of_eq_Some_iff) (auto simp: rev_map [symmetric] comp_def)

lemma ordinals_inj:
  assumes "seasons_ok L" "season_ordinals L s = Some n" "season_ordinals L s' = Some n"
  shows "s = s'"
proof -
  obtain t t' where "t \<in> set (seasons L)" "t' \<in> set (seasons L)" "te_id t = s" "te_id t' = s'" "te_ordinal t = te_ordinal t'"
    using assms by (auto simp: seasons_ok_def season_ordinals_Some)
  moreover from this have "t = t'" using assms(1) by (auto simp: seasons_ok_def distinct_map dest: inj_onD)
  ultimately show ?thesis by blast
qed

text \<open>A trader's requests leave the seasons alone, or open free play.\<close>

lemma recordTrade_seasons: "recordTrade i L = Inr (a, b, L') \<Longrightarrow> seasons L' = seasons L"
  by (auto simp: recordTrade_def put_snapshot_def insert_trade_def swap_balance_def put_position_def update_position_def
      insert_position_def Let_def split: option.splits)

lemma executeTrade_seasons: "executeTrade H dec sus rq click fill seen L = Inr (out, L') \<Longrightarrow> seasons L' = seasons L"
proof (cases "\<exists>f. out = Trade_filled f")
  case True
  moreover assume "executeTrade H dec sus rq click fill seen L = Inr (out, L')"
  ultimately obtain f where "executeTrade H dec sus rq click fill seen L = Inr (Trade_filled f, L')" by blast
  then show ?thesis by (rule executeTrade_filled) (rule recordTrade_seasons)
next
  case False
  moreover assume "executeTrade H dec sus rq click fill seen L = Inr (out, L')"
  ultimately show ?thesis using executeTrade_refused by blast
qed

lemma insert_account_seasons: "insert_account s u g b now L = Inr L' \<Longrightarrow> seasons L' = seasons L"
  by (auto simp: insert_account_def split: if_splits)

lemma ensureAccount_seasons: "ensureAccount s u now L = Inr (v, L') \<Longrightarrow> seasons L' = seasons L"
  by (auto simp: ensureAccount_def insert_account_seasons split: option.splits)

lemma startOver_seasons: "startOver s u now L = Inr (v, L') \<Longrightarrow> seasons L' = seasons L"
  by (auto simp: startOver_def Let_def insert_account_seasons dest!: ensureAccount_seasons split: option.splits)

definition opens_season :: "'a ledger_scheme \<Rightarrow> 'a ledger_scheme \<Rightarrow> bool" where
  "opens_season L L' \<longleftrightarrow> seasons L' = seasons L \<or> (\<exists>t. seasons L' = seasons L @ [t]
     \<and> te_id t \<notin> te_id ` set (seasons L) \<and> te_ordinal t \<notin> te_ordinal ` set (seasons L))"

lemma run_op_opens: "opens_season L (run_op H dec L op)"
proof (cases op)
  case Open_free_play
  show ?thesis
  proof (cases "List.find (\<lambda>s. te_ordinal s = FREE_PLAY_ORDINAL) (seasons L)")
    case None
    then have "FREE_PLAY_ORDINAL \<notin> te_ordinal ` set (seasons L)" by (auto simp: find_None_iff)
    with None next_id_new [of "map te_id (seasons L)"] show ?thesis
      by (simp add: Open_free_play run_op_def ensureFreePlaySeason_def opens_season_def Let_def)
  qed (simp add: Open_free_play run_op_def ensureFreePlaySeason_def opens_season_def)
qed (auto simp: run_op_def opens_season_def dest: ensureAccount_seasons startOver_seasons executeTrade_seasons split: sum.splits)

lemma own_none: "s \<notin> ci_seasonId ` set cs \<Longrightarrow> own s u cs = []"
  by (auto simp: own_def filter_empty_conv)

lemma trading_keeps_world:
  assumes "world_ok H W" "opens_season (kw_ledger W) L'"
  shows "world_ok H (W\<lparr>kw_ledger := L'\<rparr>)"
  using assms(2) unfolding opens_season_def
proof (elim disjE exE conjE)
  assume "seasons L' = seasons (kw_ledger W)"
  then show ?thesis using assms(1)
    by (simp add: world_ok_def ids_ok_def seasons_ok_def season_ordinals_def chain_value_def)
next
  fix t
  assume t: "seasons L' = seasons (kw_ledger W) @ [t]" "te_id t \<notin> te_id ` set (seasons (kw_ledger W))"
    "te_ordinal t \<notin> te_ordinal ` set (seasons (kw_ledger W))"
  have ok: "seasons_ok (kw_ledger W)" using assms(1) by (simp add: world_ok_def)
  then have ok': "seasons_ok L'" using t by (simp add: seasons_ok_def)
  have "record_ok H (own s u (kw_commits W)) (chain_value W (n, u))" if "season_ordinals L' s = Some n" for s u n
  proof (cases "s = te_id t")
    case True
    then have "n = te_ordinal t" using that ok' t(1,2) by (auto simp: season_ordinals_Some seasons_ok_def) (metis imageI)
    then have "kw_chain W (n, u) = None" using assms(1) t(3) by (auto simp: world_ok_def)
    moreover have "own s u (kw_commits W) = []" using assms(1) t(2) True by (intro own_none) (auto simp: world_ok_def)
    ultimately show ?thesis by (simp add: record_ok_def settled_def chain_value_def)
  next
    case False
    then have "season_ordinals (kw_ledger W) s = Some n"
      using that ok ok' t(1) by (auto simp: season_ordinals_Some seasons_ok_def)
    then show ?thesis using assms(1) by (simp add: world_ok_def)
  qed
  then show ?thesis using assms(1) ok' t(1) by (auto simp: world_ok_def ids_ok_def chain_value_def)
qed
text \<open>A change to the rows and the chain of one record.\<close>

definition elsewhere_same :: "int \<Rightarrow> int \<Rightarrow> string \<Rightarrow> keeper_world \<Rightarrow> keeper_world \<Rightarrow> bool" where
  "elsewhere_same s n u W W' \<longleftrightarrow> kw_ledger W' = kw_ledger W
     \<and> (\<forall>s' u'. (s', u') \<noteq> (s, u) \<longrightarrow> own s' u' (kw_commits W') = own s' u' (kw_commits W))
     \<and> (\<forall>key. key \<noteq> (n, u) \<longrightarrow> kw_chain W' key = kw_chain W key)
     \<and> ci_seasonId ` set (kw_commits W') \<subseteq> insert s (ci_seasonId ` set (kw_commits W))"

lemma elsewhere_trans:
  "elsewhere_same s n u W W' \<Longrightarrow> elsewhere_same s n u W' W'' \<Longrightarrow> elsewhere_same s n u W W''"
proof -
  assume a: "elsewhere_same s n u W W'" and b: "elsewhere_same s n u W' W''"
  have "ci_seasonId ` set (kw_commits W'') \<subseteq> insert s (ci_seasonId ` set (kw_commits W))"
    using a b unfolding elsewhere_same_def by blast
  moreover have "kw_ledger W'' = kw_ledger W" using a b by (simp only: elsewhere_same_def)
  moreover have "own s' u' (kw_commits W'') = own s' u' (kw_commits W)" if "(s', u') \<noteq> (s, u)" for s' u'
    using a b that unfolding elsewhere_same_def by metis
  moreover have "kw_chain W'' key = kw_chain W key" if "key \<noteq> (n, u)" for key
    using a b that unfolding elsewhere_same_def by metis
  ultimately show ?thesis unfolding elsewhere_same_def by blast
qed

lemma world_change:
  assumes W: "world_ok H W" and n: "season_ordinals (kw_ledger W) s = Some n" and ids: "ids_ok W'"
    and e: "elsewhere_same s n u W W'" and r: "record_ok H (own s u (kw_commits W')) (chain_value W' (n, u))"
  shows "world_ok H W'"
proof -
  have L: "kw_ledger W' = kw_ledger W" using e by (simp add: elsewhere_same_def)
  have ok: "seasons_ok (kw_ledger W)" using W by (simp add: world_ok_def)
  then obtain t where t: "t \<in> set (seasons (kw_ledger W))" "te_id t = s" "te_ordinal t = n"
    using n by (auto simp: seasons_ok_def season_ordinals_Some)
  have "record_ok H (own s' u' (kw_commits W')) (chain_value W' (n', u'))" if "season_ordinals (kw_ledger W) s' = Some n'" for s' u' n'
  proof (cases "(s', u') = (s, u)")
    case True
    then show ?thesis using r that n by simp
  next
    case False
    have "(n', u') \<noteq> (n, u)" using False ordinals_inj [OF ok n, of s'] that by auto
    then have "chain_value W' (n', u') = chain_value W (n', u')" using e by (simp add: elsewhere_same_def chain_value_def)
    then show ?thesis using e W that False by (auto simp: elsewhere_same_def world_ok_def)
  qed
  moreover have "ci_seasonId c \<in> te_id ` set (seasons (kw_ledger W))" if "c \<in> set (kw_commits W')" for c
  proof -
    have "ci_seasonId c \<in> insert s (ci_seasonId ` set (kw_commits W))" using e that unfolding elsewhere_same_def by blast
    then show ?thesis using W t by (auto simp: world_ok_def)
  qed
  moreover have "kw_chain W' (n', u') = None" if "n' \<notin> te_ordinal ` set (seasons (kw_ledger W))" for n' u'
  proof -
    have "(n', u') \<noteq> (n, u)" using that t by auto
    then have "kw_chain W' (n', u') = kw_chain W (n', u')" using e unfolding elsewhere_same_def by blast
    then show ?thesis using that W by (simp add: world_ok_def)
  qed
  ultimately show ?thesis using ids ok L by (simp add: world_ok_def)
qed

lemma update_elsewhere:
  assumes "keeps_row f" "ids_ok W" "p \<in> set (kw_commits W)"
  shows "elsewhere_same (ci_seasonId p) n (ci_user p) W (update_commit (cm_id p) f W)"
  unfolding elsewhere_same_def
proof (intro conjI allI impI)
  fix s' u' assume "(s', u') \<noteq> (ci_seasonId p, ci_user p)"
  then show "own s' u' (kw_commits (update_commit (cm_id p) f W)) = own s' u' (kw_commits W)"
    using own_update_other [OF assms] by metis
next
  show "ci_seasonId ` set (kw_commits (update_commit (cm_id p) f W)) \<subseteq> insert (ci_seasonId p) (ci_seasonId ` set (kw_commits W))"
    using assms(1) by (auto simp: update_commit_def keeps_row_fields)
qed simp_all

section \<open>Reconciling\<close>

definition unconfirmed :: "keeper_world \<Rightarrow> stored_commit set" where
  "unconfirmed W = {c \<in> set (kw_commits W). cm_confirmedAt c = None}"

lemma pending_record:
  assumes "world_ok H W" "p \<in> unconfirmed W" "season_ordinals (kw_ledger W) (ci_seasonId p) = Some n"
  obtains cs acc a where "own (ci_seasonId p) (ci_user p) (kw_commits W) = cs @ [p]" "settled H cs acc" "predicts H acc p a"
    "chain_value W (n, ci_user p) = acc \<or> chain_value W (n, ci_user p) = a"
proof -
  have "record_ok H (own (ci_seasonId p) (ci_user p) (kw_commits W)) (chain_value W (n, ci_user p))"
    using assms(1,3) by (simp add: world_ok_def)
  moreover have "p \<in> set (own (ci_seasonId p) (ci_user p) (kw_commits W))" "cm_confirmedAt p = None"
    using assms(2) by (auto simp: own_def unconfirmed_def)
  ultimately show thesis using that by (rule record_ok_pending)
qed

lemma unconfirmed_update:
  assumes "ids_ok W" "p \<in> set (kw_commits W)" "\<And>c. cm_confirmedAt (f c) \<noteq> None"
  shows "unconfirmed (update_commit (cm_id p) f W) = unconfirmed W - {p}"
proof (intro set_eqI iffI)
  fix x assume "x \<in> unconfirmed (update_commit (cm_id p) f W)"
  then have "x \<in> (\<lambda>c. if cm_id c = cm_id p then f c else c) ` set (kw_commits W)" and x: "cm_confirmedAt x = None"
    by (simp_all add: unconfirmed_def update_commit_def)
  then obtain c where c: "c \<in> set (kw_commits W)" "x = (if cm_id c = cm_id p then f c else c)" by blast
  have "cm_id c \<noteq> cm_id p" using c(2) x assms(3) [of c] by metis
  then have "x = c" "c \<noteq> p" using c(2) by auto
  then show "x \<in> unconfirmed W - {p}" using c(1) x by (simp add: unconfirmed_def)
next
  fix x assume "x \<in> unconfirmed W - {p}"
  then have x: "x \<in> set (kw_commits W)" "cm_confirmedAt x = None" "x \<noteq> p" by (simp_all add: unconfirmed_def)
  then have "cm_id x \<noteq> cm_id p" using ids_distinct [OF assms(1) x(1) assms(2)] by blast
  then have "x \<in> (\<lambda>c. if cm_id c = cm_id p then f c else c) ` set (kw_commits W)" by (intro image_eqI [OF _ x(1)]) simp
  then have "x \<in> set (kw_commits (update_commit (cm_id p) f W))" by (simp add: update_commit_def)
  then show "x \<in> unconfirmed (update_commit (cm_id p) f W)" using x(2) by (simp add: unconfirmed_def)
qed

lemma confirm_keeps:
  assumes W: "world_ok H W" and p: "p \<in> unconfirmed W" and n: "season_ordinals (kw_ledger W) (ci_seasonId p) = Some n"
    and v: "toHex (chain_value W (n, ci_user p)) = ci_predicted p"
  shows "world_ok H (markConfirmed (cm_id p) tx k now W)" "unconfirmed (markConfirmed (cm_id p) tx k now W) = unconfirmed W - {p}"
proof -
  let ?f = "\<lambda>c. c\<lparr>cm_txSignature := Some tx, cm_slot := Some k, cm_confirmedAt := Some now, cm_failed := False\<rparr>"
  let ?W = "markConfirmed (cm_id p) tx k now W"
  have ids: "ids_ok W" and pin: "p \<in> set (kw_commits W)" using W p by (simp_all add: world_ok_def unconfirmed_def)
  have W': "?W = update_commit (cm_id p) ?f W" by (simp add: markConfirmed_def)
  obtain cs acc a where r: "own (ci_seasonId p) (ci_user p) (kw_commits W) = cs @ [p]" "settled H cs acc" "predicts H acc p a"
      "chain_value W (n, ci_user p) = acc \<or> chain_value W (n, ci_user p) = a"
    using pending_record [OF W p n] .
  have a: "chain_value W (n, ci_user p) = a" using v r(3) by (simp add: predicts_def)
  have k: "keeps_row ?f" by simp
  have "own (ci_seasonId p) (ci_user p) (kw_commits ?W) = cs @ [?f p]"
    unfolding W' by (rule own_update_last [OF k ids r(1)])
  moreover have "predicts H acc (?f p) a" using r(3) keeps_row_fields(4) [OF k, of H acc p a] by blast
  then have "settled H (cs @ [?f p]) a" by (intro settled_snoc [OF r(2)]) simp_all
  ultimately have "record_ok H (own (ci_seasonId p) (ci_user p) (kw_commits ?W)) (chain_value ?W (n, ci_user p))"
    using a by (simp add: record_ok_def W')
  then show "world_ok H ?W" unfolding W'
    by (intro world_change [OF W n update_ids [OF k ids] update_elsewhere [OF k ids pin]])
  have "unconfirmed (update_commit (cm_id p) ?f W) = unconfirmed W - {p}" by (rule unconfirmed_update [OF ids pin]) simp
  then show "unconfirmed ?W = unconfirmed W - {p}" unfolding W' .
qed

lemma discard_keeps:
  assumes W: "world_ok H W" and p: "p \<in> unconfirmed W" and n: "season_ordinals (kw_ledger W) (ci_seasonId p) = Some n"
    and v: "toHex (chain_value W (n, ci_user p)) = ci_previous p"
  shows "world_ok H (discardIntent (cm_id p) W)" "unconfirmed (discardIntent (cm_id p) W) = unconfirmed W - {p}"
proof -
  let ?W = "discardIntent (cm_id p) W" and ?keep = "\<lambda>c. \<not> (cm_id c = cm_id p \<and> cm_confirmedAt c = None)"
  have ids: "ids_ok W" and pin: "p \<in> set (kw_commits W)" "cm_confirmedAt p = None"
    using W p by (simp_all add: world_ok_def unconfirmed_def)
  have keep: "?keep c \<longleftrightarrow> c \<noteq> p" if "c \<in> set (kw_commits W)" for c
    using ids_distinct [OF ids that pin(1)] pin(2) by auto
  have rows: "kw_commits ?W = filter (\<lambda>c. c \<noteq> p) (kw_commits W)"
    using keep by (simp add: discardIntent_def cong: filter_cong)
  obtain cs acc a where r: "own (ci_seasonId p) (ci_user p) (kw_commits W) = cs @ [p]" "settled H cs acc" "predicts H acc p a"
      "chain_value W (n, ci_user p) = acc \<or> chain_value W (n, ci_user p) = a"
    using pending_record [OF W p n] .
  have own: "own s u (kw_commits ?W) = filter (\<lambda>c. c \<noteq> p) (own s u (kw_commits W))" for s u
    by (simp add: rows own_def conj_commute)
  have "p \<notin> set cs" using r(2) pin(2) chained_confirmed unfolding settled_def by blast
  then have "own (ci_seasonId p) (ci_user p) (kw_commits ?W) = cs" unfolding own r(1) by (auto simp: filter_id_conv)
  moreover have "chain_value ?W (n, ci_user p) = acc"
    using v r(3) by (simp add: predicts_def chain_value_def discardIntent_def)
  ultimately have rec: "record_ok H (own (ci_seasonId p) (ci_user p) (kw_commits ?W)) (chain_value ?W (n, ci_user p))"
    using r(2) by (simp add: record_ok_def)
  have "ids_ok ?W" using ids unfolding ids_ok_def rows
    by (auto simp: list_all_iff discardIntent_def sorted_wrt_map intro: sorted_wrt_filter)
  moreover have "elsewhere_same (ci_seasonId p) n (ci_user p) W ?W"
    unfolding elsewhere_same_def own by (auto simp: rows discardIntent_def own_def filter_id_conv intro!: filter_cong)
  ultimately show "world_ok H ?W" using world_change [OF W n] rec by blast
  show "unconfirmed ?W = unconfirmed W - {p}" by (auto simp: unconfirmed_def rows)
qed

lemma reconcile_one_keeps:
  assumes W: "world_ok H W" and p: "p \<in> unconfirmed W"
    and run: "reconcile_one (season_ordinals (kw_ledger W)) now readable p W = (r, W')"
  shows "world_ok H W' \<and> kw_halted W' = kw_halted W \<and> kw_ledger W' = kw_ledger W \<and> r \<noteq> Some False
    \<and> (r = Some True \<longrightarrow> unconfirmed W' = unconfirmed W - {p})"
proof (cases "season_ordinals (kw_ledger W) (ci_seasonId p)")
  case None
  with W run show ?thesis by (auto simp: reconcile_one_def)
next
  case (Some n)
  obtain cs acc a where q: "predicts H acc p a" "chain_value W (n, ci_user p) = acc \<or> chain_value W (n, ci_user p) = a"
    using pending_record [OF W p Some] by blast
  then have "toHex (chain_value W (n, ci_user p)) = ci_predicted p \<or> toHex (chain_value W (n, ci_user p)) = ci_previous p"
    by (auto simp: predicts_def)
  then consider "toHex (chain_value W (n, ci_user p)) = ci_predicted p" | "toHex (chain_value W (n, ci_user p)) \<noteq> ci_predicted p"
      "toHex (chain_value W (n, ci_user p)) = ci_previous p" by blast
  then show ?thesis
  proof cases
    case 1
    note k = confirm_keeps [OF W p Some 1]
    show ?thesis
    proof (cases readable)
      case True
      with run Some 1 have "r = Some True" "\<exists>tx c. W' = markConfirmed (cm_id p) tx c now W"
        by (auto simp: reconcile_one_def Let_def)
      then obtain tx c where "r = Some True" "W' = markConfirmed (cm_id p) tx c now W" by blast
      with k show ?thesis by (simp add: markConfirmed_def)
    qed (use run Some W in \<open>simp add: reconcile_one_def\<close>)
  next
    case 2
    note k = discard_keeps [OF W p Some 2(2)]
    show ?thesis
    proof (cases readable)
      case True
      with run Some 2 have "r = Some True" "W' = discardIntent (cm_id p) W" by (simp_all add: reconcile_one_def Let_def)
      with k show ?thesis by (simp add: discardIntent_def)
    qed (use run Some W in \<open>simp add: reconcile_one_def\<close>)
  qed
qed

section \<open>Committing\<close>

interpretation by_commit: linear_comparator by_commit_id cm_id
  by unfold_locales (auto simp: by_commit_id_def)

interpretation newest_first: linear_comparator "\<lambda>l r. cm_id r - cm_id l" cm_id
  by unfold_locales auto

lemma rows_sorted: "ids_ok W \<Longrightarrow> sorted_wrt (\<lambda>l r. cm_id l < cm_id r) (filter P (kw_commits W))"
  by (simp add: ids_ok_def sorted_wrt_map sorted_wrt_filter)

lemma by_commit_sorts: "ids_ok W \<Longrightarrow> js_sort by_commit_id (filter P (kw_commits W)) = filter P (kw_commits W)"
  by (rule by_commit.sorted_id) (use rows_sorted in \<open>fastforce simp: by_commit_id_def intro: sorted_wrt_mono_rel [rotated]\<close>)

lemma newest_first_reverses:
  assumes "ids_ok W"
  shows "js_sort (\<lambda>l r. cm_id r - cm_id l) (filter P (kw_commits W)) = rev (filter P (kw_commits W))"
proof -
  let ?rows = "filter P (kw_commits W)"
  have "sorted_wrt (\<lambda>l r. cm_id r - cm_id l \<le> 0) (rev ?rows)"
    unfolding sorted_wrt_rev using rows_sorted [OF assms] by (rule sorted_wrt_mono_rel [rotated]) simp
  then have "js_sort (\<lambda>l r. cm_id r - cm_id l) (rev ?rows) = rev ?rows" by (rule newest_first.sorted_id)
  moreover have "inj_on cm_id (set ?rows)" using ids_distinct [OF assms] by (auto simp: inj_on_def)
  then have "js_sort (\<lambda>l r. cm_id r - cm_id l) ?rows = js_sort (\<lambda>l r. cm_id r - cm_id l) (rev ?rows)"
    by (intro newest_first.sort_perm) simp_all
  ultimately show ?thesis by simp
qed

lemma local_accumulator:
  assumes "ids_ok W" "settled H (own s u (kw_commits W)) acc"
  shows "localAccumulator W s u = toHex acc"
proof -
  let ?P = "\<lambda>c. ci_seasonId c = s \<and> ci_user c = u \<and> cm_confirmedAt c \<noteq> None"
  have "list_all (\<lambda>c. cm_confirmedAt c \<noteq> None) (own s u (kw_commits W))"
    using assms(2) chained_confirmed unfolding settled_def list_all_iff by blast
  then have rows: "filter ?P (kw_commits W) = own s u (kw_commits W)"
    unfolding own_def by (intro filter_cong) (auto simp: list_all_iff)
  show ?thesis
  proof (cases "own s u (kw_commits W)" rule: rev_cases)
    case Nil
    with settled_last [OF assms(2)] rows show ?thesis by (simp add: localAccumulator_def lastConfirmedCommit_def)
  next
    case (snoc cs c)
    with settled_last [OF assms(2)] rows newest_first_reverses [OF assms(1), of ?P] show ?thesis
      by (simp add: localAccumulator_def lastConfirmedCommit_def)
  qed
qed

definition intent_row :: "commit_intent \<Rightarrow> int \<Rightarrow> int \<Rightarrow> stored_commit" where
  "intent_row i n now = commit_intent.extend i (stored_commit.fields n None None now None 0 False)"

lemma intent_row_fields [simp]:
  "cm_id (intent_row i n now) = n" "ci_seasonId (intent_row i n now) = ci_seasonId i" "ci_user (intent_row i n now) = ci_user i"
  "cm_confirmedAt (intent_row i n now) = None" "fold_commit H acc (intent_row i n now) = fold_commit H acc i"
  "ci_previous (intent_row i n now) = ci_previous i" "ci_predicted (intent_row i n now) = ci_predicted i"
  "ci_from (intent_row i n now) = ci_from i" "ci_to (intent_row i n now) = ci_to i"
  by (simp_all add: intent_row_def commit_intent.defs stored_commit.defs fold_commit_def)

lemma recordIntent_Inr:
  "recordIntent i now W = Inr (n, W') \<Longrightarrow> n = kw_lastId W + 1
     \<and> W' = W\<lparr>kw_commits := kw_commits W @ [intent_row i n now], kw_lastId := n\<rparr> \<and> ci_from i \<le> ci_to i"
  by (auto simp: recordIntent_def Let_def intent_row_def)

lemma record_intent_keeps:
  assumes W: "world_ok H W" and n: "season_ordinals (kw_ledger W) s = Some n"
    and s: "settled H (own s u (kw_commits W)) acc" "chain_value W (n, u) = acc"
    and i: "ci_seasonId i = s" "ci_user i = u" "ci_previous i = toHex acc" "fold_commit H acc i = Inr a" "ci_predicted i = toHex a"
    and W1: "W1 = W\<lparr>kw_commits := kw_commits W @ [intent_row i k now], kw_lastId := k\<rparr>" "k = kw_lastId W + 1"
  shows "ids_ok W1 \<and> elsewhere_same s n u W W1 \<and> own s u (kw_commits W1) = own s u (kw_commits W) @ [intent_row i k now]
    \<and> predicts H acc (intent_row i k now) a"
proof -
  have "ids_ok W" using W by (simp add: world_ok_def)
  then have "ids_ok W1" by (auto simp: ids_ok_def W1 sorted_wrt_append list_all_iff)
  moreover have "elsewhere_same s n u W W1" by (auto simp: elsewhere_same_def W1 own_def i(1,2))
  ultimately show ?thesis using i by (simp add: W1 own_def predicts_def)
qed

text \<open>Landing moves the record of the intent from \<open>acc\<close> to \<open>a\<close>.\<close>

lemma land_moves:
  assumes "fold_commit H (chain_value W (n, ci_user i)) i = Inr a"
  shows "chain_value (land H n i W) (n, ci_user i) = a" "kw_commits (land H n i W) = kw_commits W"
    "kw_ledger (land H n i W) = kw_ledger W" "kw_halted (land H n i W) = kw_halted W" "kw_lastId (land H n i W) = kw_lastId W"
    "key \<noteq> (n, ci_user i) \<Longrightarrow> kw_chain (land H n i W) key = kw_chain W key" "kw_chain (land H n i W) (n, ci_user i) \<noteq> None"
proof -
  note e = assms [unfolded fold_commit_def]
  obtain r where r: "land H n i W = W\<lparr>kw_chain := (kw_chain W)((n, ci_user i) \<mapsto> r)\<rparr>" "cr_accumulator r = a"
    unfolding land_def Let_def e sum.case by simp
  then show "chain_value (land H n i W) (n, ci_user i) = a" "kw_commits (land H n i W) = kw_commits W"
    "kw_ledger (land H n i W) = kw_ledger W" "kw_halted (land H n i W) = kw_halted W" "kw_lastId (land H n i W) = kw_lastId W"
    "key \<noteq> (n, ci_user i) \<Longrightarrow> kw_chain (land H n i W) key = kw_chain W key" "kw_chain (land H n i W) (n, ci_user i) \<noteq> None"
    by (simp_all add: chain_value_def)
qed

definition honest :: "weather \<Rightarrow> bool" where
  "honest wx \<longleftrightarrow> (wx_receipt wx \<noteq> None \<longrightarrow> wx_landed wx)"

text \<open>
  The four stages of a commit: the intent is written, it is attempted, it is sent and may land, it
  fails or is confirmed. After each of them the record is one of the two things it can be.
\<close>

lemma same_status_update:
  assumes "keeps_row f" "\<And>c. cm_confirmedAt (f c) = cm_confirmedAt c" "ids_ok W"
    and "own s u (kw_commits W) = cs @ [p]" "settled H cs acc" "cm_confirmedAt p = None" "predicts H acc p a"
  shows "\<exists>p'. own s u (kw_commits (update_commit (cm_id p) f W)) = cs @ [p'] \<and> cm_id p' = cm_id p \<and> cm_confirmedAt p' = None
    \<and> predicts H acc p' a \<and> ci_seasonId p' = ci_seasonId p \<and> ci_user p' = ci_user p"
  using own_update_last [OF assms(1,3,4)] assms(2,6,7) keeps_row_fields [OF assms(1), where c = p]
  by (intro exI [of _ "f p"]) auto

definition flying :: "(byte list \<Rightarrow> byte list) \<Rightarrow> int \<Rightarrow> int \<Rightarrow> string \<Rightarrow> int \<Rightarrow> stored_commit list \<Rightarrow> byte list \<Rightarrow> byte list \<Rightarrow> keeper_world \<Rightarrow> keeper_world \<Rightarrow> bool" where
  "flying H s n u k cs acc a W W' \<longleftrightarrow> ids_ok W' \<and> elsewhere_same s n u W W' \<and> kw_halted W' = kw_halted W
     \<and> (\<exists>p. own s u (kw_commits W') = cs @ [p] \<and> cm_id p = k \<and> cm_confirmedAt p = None \<and> predicts H acc p a
          \<and> ci_seasonId p = s \<and> ci_user p = u)
     \<and> (chain_value W' (n, u) = acc \<or> chain_value W' (n, u) = a)"

lemma own_in: "own s u rows = cs @ [p] \<Longrightarrow> p \<in> set rows"
  unfolding own_def by (metis filter_is_subset in_set_conv_decomp subsetD)

lemma flying_update:
  assumes "flying H s n u k cs acc a W W'" "settled H cs acc" "keeps_row f" "\<And>c. cm_confirmedAt (f c) = cm_confirmedAt c"
  shows "flying H s n u k cs acc a W (update_commit k f W')"
proof -
  from assms(1) obtain p where f: "ids_ok W'" "elsewhere_same s n u W W'" "kw_halted W' = kw_halted W"
      "chain_value W' (n, u) = acc \<or> chain_value W' (n, u) = a"
    and p: "own s u (kw_commits W') = cs @ [p]" "cm_id p = k" "cm_confirmedAt p = None" "predicts H acc p a" "ci_seasonId p = s" "ci_user p = u"
    unfolding flying_def by blast
  have "elsewhere_same s n u W' (update_commit k f W')"
    using update_elsewhere [OF assms(3) f(1) own_in [OF p(1)], of n] p by simp
  then have "elsewhere_same s n u W (update_commit k f W')" using f(2) elsewhere_trans by blast
  with update_ids [OF assms(3) f(1)] same_status_update [OF assms(3,4) f(1) p(1) assms(2) p(3,4)] p f show ?thesis
    by (simp add: flying_def)
qed

lemma flying_world:
  assumes "world_ok H W" "season_ordinals (kw_ledger W) s = Some n" "settled H cs acc" "flying H s n u k cs acc a W W'"
  shows "world_ok H W'"
proof -
  have "in_flight H (own s u (kw_commits W')) (chain_value W' (n, u))"
    using assms(3,4) unfolding flying_def in_flight_def by blast
  then have "record_ok H (own s u (kw_commits W')) (chain_value W' (n, u))" by (simp add: record_ok_def)
  moreover have "ids_ok W'" "elsewhere_same s n u W W'" using assms(4) unfolding flying_def by blast+
  ultimately show ?thesis using world_change [OF assms(1,2)] by blast
qed

lemma flying_sent:
  assumes "flying H s n u k cs acc a W W'" "chain_value W' (n, u) = acc" "ci_user i = u" "fold_commit H acc i = Inr a"
  shows "flying H s n u k cs acc a W (sent_root H n wx i W')"
    "wx_landed wx \<Longrightarrow> kw_chain (sent_root H n wx i W') (n, u) \<noteq> None \<and> chain_value (sent_root H n wx i W') (n, u) = a"
proof -
  have l: "fold_commit H (chain_value W' (n, ci_user i)) i = Inr a" using assms(2-4) by simp
  note m = land_moves [OF l, unfolded assms(3)]
  show "flying H s n u k cs acc a W (sent_root H n wx i W')"
  proof (cases "wx_landed wx")
    case True
    have "elsewhere_same s n u W' (land H n i W')" by (auto simp: elsewhere_same_def m)
    then have "elsewhere_same s n u W (land H n i W')" using assms(1) elsewhere_trans unfolding flying_def by blast
    moreover have "ids_ok (land H n i W')" using assms(1) by (simp add: flying_def ids_ok_def m)
    ultimately show ?thesis using assms(1) True by (simp add: flying_def sent_root_def m)
  qed (use assms(1) in \<open>simp add: sent_root_def\<close>)
  show "wx_landed wx \<Longrightarrow> kw_chain (sent_root H n wx i W') (n, u) \<noteq> None \<and> chain_value (sent_root H n wx i W') (n, u) = a"
    using m by (simp add: sent_root_def)
qed

lemma read_back_value: "kw_chain W (n, u) \<noteq> None \<Longrightarrow> read_back n u W = toHex (chain_value W (n, u))"
  by (auto simp: read_back_def chain_value_def)

lemma flying_restarted: "flying H s n u k cs acc a W W' \<Longrightarrow> \<not> kw_halted W \<Longrightarrow> flying H s n u k cs acc a W (restarted W')"
  by (simp add: flying_def restarted_def ids_ok_def elsewhere_same_def chain_value_def)

definition quiet :: "int \<Rightarrow> string \<Rightarrow> keeper_world \<Rightarrow> bool" where
  "quiet s u W \<longleftrightarrow> list_all (\<lambda>c. cm_confirmedAt c \<noteq> None) (own s u (kw_commits W))"

definition kept :: "(byte list \<Rightarrow> byte list) \<Rightarrow> int \<Rightarrow> string \<Rightarrow> keeper_world \<Rightarrow> keeper_world \<Rightarrow> bool" where
  "kept H s u W W' \<longleftrightarrow> world_ok H W' \<and> \<not> kw_halted W' \<and> kw_ledger W' = kw_ledger W
     \<and> (\<forall>s' u'. (s', u') \<noteq> (s, u) \<longrightarrow> own s' u' (kw_commits W') = own s' u' (kw_commits W))"

lemma flying_kept:
  assumes "world_ok H W" "season_ordinals (kw_ledger W) s = Some n" "settled H cs acc" "\<not> kw_halted W" "flying H s n u k cs acc a W W'"
  shows "kept H s u W W'"
  using flying_world [OF assms(1-3,5)] assms(4,5) unfolding kept_def flying_def elsewhere_same_def by blast

text \<open>A commit in honest weather never halts, and leaves every record as it may be.\<close>

lemma commit_batch_keeps:
  assumes W: "world_ok H W" "\<not> kw_halted W" and n: "season_ordinals (kw_ledger W) (bt_seasonId b) = Some n"
    and q: "quiet (bt_seasonId b) (bt_user b) W" and wx: "honest wx"
    and run: "commit_batch H now wx n b r W = (out, W')"
  shows "kept H (bt_seasonId b) (bt_user b) W W' \<and> out \<noteq> Halt \<and> (\<forall>k. out = Committed k \<longrightarrow> quiet (bt_seasonId b) (bt_user b) W')"
proof -
  let ?s = "bt_seasonId b" and ?u = "bt_user b"
  define cs where "cs = own ?s ?u (kw_commits W)"
  define acc where "acc = chain_value W (n, ?u)"
  have ids: "ids_ok W" using W(1) by (simp add: world_ok_def)
  have cs: "settled H cs acc" using W(1) n q unfolding cs_def acc_def quiet_def
    by (auto simp: world_ok_def intro: record_ok_confirmed)
  have same: "kept H ?s ?u W W" using W by (simp add: kept_def)
  have loc: "localAccumulator W ?s ?u = toHex acc" using local_accumulator [OF ids] cs unfolding cs_def by blast
  show ?thesis
  proof (cases "predictAccumulator H (toHex acc) r (int (length (bt_tradeIds b))) (bt_engineVersion b)")
    case (Inl e)
    then show ?thesis using run W(2) loc same by (auto simp: commit_batch_def)
  next
    case (Inr predicted)
    let ?i = "intent_for b r (toHex acc) predicted"
    obtain a where a: "fold_commit H acc ?i = Inr a" "predicted = toHex a"
      using Inr by (auto simp: predictAccumulator_def fold_commit_def intent_for_def fromHex_toHex)
    show ?thesis
    proof (cases "recordIntent ?i now W")
      case (Inl e)
      then show ?thesis using run W(2) loc same Inr by (auto simp: commit_batch_def Let_def)
    next
      case rec: (Inr kW)
      obtain k W1 where kW: "kW = (k, W1)" by fastforce
      note k = recordIntent_Inr [OF rec [unfolded kW]]
      let ?W2 = "markAttempted k W1" and ?W3 = "sent_root H n wx ?i (markAttempted k W1)"
      have i: "ci_seasonId ?i = ?s" "ci_user ?i = ?u" "ci_previous ?i = toHex acc" "ci_predicted ?i = toHex a"
        by (simp_all add: intent_for_def a)
      have f1: "flying H ?s n ?u k cs acc a W W1"
        using record_intent_keeps [OF W(1) n cs [unfolded cs_def] acc_def [symmetric] i(1-3) a(1) i(4) conjunct1 [OF conjunct2 [OF k]] conjunct1 [OF k]] k i
        unfolding flying_def cs_def by (auto simp: acc_def chain_value_def)
      have v1: "chain_value W1 (n, ?u) = acc" using k by (simp add: acc_def chain_value_def)
      have f2: "flying H ?s n ?u k cs acc a W ?W2" unfolding markAttempted_def by (rule flying_update [OF f1 cs]) simp_all
      have v2: "chain_value ?W2 (n, ?u) = acc" using v1 by (simp add: markAttempted_def)
      note f3 = flying_sent [OF f2 v2 i(2) a(1), of wx]
      have fail: "flying H ?s n ?u k cs acc a W (markFailed k ?W3)" unfolding markFailed_def by (rule flying_update [OF f3(1) cs]) simp_all
      note fk = flying_kept [OF W(1) n cs W(2)]
      note run' = run [unfolded commit_batch_def Let_def loc Inr sum.case rec kW prod.case]
      show ?thesis
      proof (cases "wx_dies wx = Some Before_sending \<or> wx_dies wx = Some After_sending \<or> wx_receipt wx = None \<or> \<not> wx_readable wx")
        case True
        then show ?thesis using run' W(2) fk [OF f3(1)] fk [OF fail] fk [OF flying_restarted [OF f1 W(2)]]
            fk [OF flying_restarted [OF f3(1) W(2)]]
          by (auto split: if_splits option.splits)
      next
        case False
        then have landed: "wx_landed wx" using wx by (simp add: honest_def)
        note v3 = f3(2) [OF landed]
        have rb: "read_back n ?u ?W3 = predicted" using read_back_value v3 a(2) by simp
        from False obtain tx sl where tx: "wx_receipt wx = Some (tx, sl)" by (cases "wx_receipt wx") auto
        show ?thesis
        proof (cases "wx_dies wx = Some After_reading")
          case True
          then show ?thesis using run' W(2) fk [OF flying_restarted [OF f3(1) W(2)]] tx False rb by auto
        next
          case alive: False
          from f3(1) obtain p where p: "own ?s ?u (kw_commits ?W3) = cs @ [p]" "cm_id p = k" "cm_confirmedAt p = None" "predicts H acc p a"
              "ci_seasonId p = ?s" "ci_user p = ?u" unfolding flying_def by blast
          have w3: "world_ok H ?W3" by (rule flying_world [OF W(1) n cs f3(1)])
          have pu: "p \<in> unconfirmed ?W3" using own_in [OF p(1)] p(3) by (simp add: unconfirmed_def)
          have L3: "kw_ledger ?W3 = kw_ledger W" using f3(1) unfolding flying_def elsewhere_same_def by blast
          let ?W4 = "markConfirmed (cm_id p) tx sl now ?W3"
          have w4: "world_ok H ?W4"
            using confirm_keeps(1) [OF w3 pu] n L3 v3 p(4,5,6) by (simp add: predicts_def)
          have W4: "W' = ?W4" "out = Committed k" using run' tx False rb alive W(2) p(2) by auto
          have e: "elsewhere_same ?s n ?u W ?W4"
            using update_elsewhere [of _ ?W3 p n, folded markConfirmed_def] own_in [OF p(1)] f3(1) p(5,6) elsewhere_trans
            unfolding flying_def markConfirmed_def by (metis kept_rows(3))
          have "own ?s ?u (kw_commits ?W4) = cs @ [p\<lparr>cm_txSignature := Some tx, cm_slot := Some sl, cm_confirmedAt := Some now, cm_failed := False\<rparr>]"
            unfolding markConfirmed_def by (rule own_update_last [OF kept_rows(3) _ p(1)]) (use f3(1) in \<open>simp add: flying_def\<close>)
          then have "quiet ?s ?u ?W4" using cs chained_confirmed unfolding quiet_def settled_def list_all_iff by auto
          moreover have "\<not> kw_halted ?W4" using f3(1) W(2) by (simp add: flying_def markConfirmed_def)
          ultimately show ?thesis using W4 w4 e by (simp add: kept_def elsewhere_same_def)
        qed
      qed
    qed
  qed
qed


section \<open>A pass keeps the records\<close>

lemma world_restarted [simp]: "world_ok H (restarted W) = world_ok H W"
  by (simp add: world_ok_def restarted_def ids_ok_def chain_value_def)

lemma restarted_fields [simp]:
  "kw_ledger (restarted W) = kw_ledger W" "kw_halted (restarted W) = False" "kw_commits (restarted W) = kw_commits W"
  by (simp_all add: restarted_def)

lemma reconcile_keeps:
  "world_ok H W \<Longrightarrow> distinct ps \<Longrightarrow> set ps \<subseteq> unconfirmed W \<Longrightarrow> \<not> kw_halted W
    \<Longrightarrow> reconcile (season_ordinals (kw_ledger W)) now ps reads W = (r, W')
    \<Longrightarrow> world_ok H W' \<and> \<not> kw_halted W' \<and> kw_ledger W' = kw_ledger W \<and> r \<noteq> Some False
      \<and> (r = Some True \<longrightarrow> unconfirmed W' = unconfirmed W - set ps)"
proof (induction ps arbitrary: reads W)
  case (Cons p ps)
  show ?case
  proof (cases reads)
    case Nil
    with Cons.prems show ?thesis by auto
  next
    case reads: (Cons x xs)
    obtain v W1 where one: "reconcile_one (season_ordinals (kw_ledger W)) now x p W = (v, W1)" by fastforce
    have "p \<in> unconfirmed W" using Cons.prems(3) by simp
    note k = reconcile_one_keeps [OF Cons.prems(1) this one]
    show ?thesis
    proof (cases "v = Some True")
      case True
      have u: "unconfirmed W1 = unconfirmed W - {p}" using k True by blast
      then have sub: "set ps \<subseteq> unconfirmed W1" using Cons.prems(2,3) by auto
      have "reconcile (season_ordinals (kw_ledger W1)) now ps xs W1 = (r, W')"
        using Cons.prems(5) reads one True k by simp
      from Cons.IH [OF _ _ sub _ this] Cons.prems(2,4) k u show ?thesis by auto
    next
      case False
      then have "(r, W') = (v, W1)" using Cons.prems(5) reads one by (auto split: option.splits bool.splits)
      with k False Cons.prems(4) show ?thesis by blast
    qed
  qed
qed auto

lemma pending_rows: "set (pendingCommits W) = unconfirmed W"
  by (auto simp: pendingCommits_def unconfirmed_def)

lemma pending_distinct: "ids_ok W \<Longrightarrow> distinct (pendingCommits W)"
  unfolding pendingCommits_def by_commit_sorts
  by (auto simp: ids_ok_def strict_sorted_iff distinct_map intro: distinct_filter)

lemma run_batches_keeps:
  "world_ok H W \<Longrightarrow> \<not> kw_halted W \<Longrightarrow> list_all honest wxs
    \<Longrightarrow> (\<And>s u. (s, u) \<notin> set blocked \<Longrightarrow> quiet s u W)
    \<Longrightarrow> ordinals = season_ordinals (kw_ledger W)
    \<Longrightarrow> world_ok H (run_batches H dec ordinals now blocked bs wxs W)
      \<and> \<not> kw_halted (run_batches H dec ordinals now blocked bs wxs W)"
proof (induction H dec ordinals now blocked bs wxs W rule: run_batches.induct)
  case (2 H dec ordinals now blocked b bs wxs W)
  let ?key = "(bt_seasonId b, bt_user b)"
  note inv = "2.prems"(1,2)
  show ?case
  proof (cases "?key \<in> set blocked")
    case True
    then show ?thesis using "2.IH"(1) [OF refl True] "2.prems" by simp
  next
    case key: False
    show ?thesis
    proof (cases "rootFor H dec (kw_ledger W) b")
      case (Inl e)
      then show ?thesis using key inv by simp
    next
      case root: (Inr r)
      show ?thesis
      proof (cases r)
        case (Inl tradeId)
        then show ?thesis using "2.IH"(2) [OF refl key root Inl] "2.prems" key root by simp
      next
        case r: (Inr root_hex)
        show ?thesis
        proof (cases "ordinals (bt_seasonId b)")
          case None
          then show ?thesis using key root r inv by simp
        next
          case n: (Some n)
          show ?thesis
          proof (cases wxs)
            case Nil
            then show ?thesis using key root r n inv by simp
          next
            case wxs: (Cons wx wxs')
            obtain out W1 where c: "commit_batch H now wx n b root_hex W = (out, W1)" by fastforce
            have n': "season_ordinals (kw_ledger W) (bt_seasonId b) = Some n" and h: "honest wx" "list_all honest wxs'"
              using n "2.prems"(3,5) wxs by simp_all
            note k = commit_batch_keeps [OF inv n' "2.prems"(4) [OF key] h(1) c, unfolded kept_def]
            have quiet: "quiet s u W1" if "(s, u) \<notin> set blocked" "(s, u) \<noteq> ?key" for s u
              using k "2.prems"(4) that unfolding quiet_def by metis
            note ih = "2.IH"(3,4) [OF refl key root r n wxs c [symmetric]]
            show ?thesis
            proof (cases out)
              case (Committed i)
              then have "quiet s u W1" if "(s, u) \<notin> set blocked" for s u
                using k quiet that by (cases "(s, u) = ?key") auto
              then show ?thesis using ih(1) [OF Committed] Committed k h(2) "2.prems"(5) key root r n wxs c by simp
            next
              case Not_committed
              then show ?thesis using ih(2) [OF Not_committed] quiet k h(2) "2.prems"(5) key root r n wxs c by simp
            qed (use k key root r n wxs c in simp_all)
          qed
        qed
      qed
    qed
  qed
qed simp

definition unhalted :: "(byte list \<Rightarrow> byte list) \<Rightarrow> keeper_world \<Rightarrow> bool" where
  "unhalted H W \<longleftrightarrow> world_ok H W \<and> \<not> kw_halted W"

lemma runOnce_keeps:
  assumes "unhalted H W" "list_all honest wxs"
  shows "unhalted H (runOnce H dec collate (season_ordinals (kw_ledger W)) now reads wxs W)"
proof -
  have W: "world_ok H W" "\<not> kw_halted W" "ids_ok W" using assms(1) by (simp_all add: unhalted_def world_ok_def)
  obtain r W1 where rec: "reconcile (season_ordinals (kw_ledger W)) now (pendingCommits W) reads W = (r, W1)" by fastforce
  note k = reconcile_keeps [OF W(1) pending_distinct [OF W(3)] _ W(2) rec, unfolded pending_rows, OF subset_refl]
  show ?thesis
  proof (cases "r = Some True")
    case True
    then have "unconfirmed W1 = {}" using k by blast
    then have "quiet s u W1" for s u by (auto simp: quiet_def own_def unconfirmed_def list_all_iff)
    then have "world_ok H (run_batches H dec (season_ordinals (kw_ledger W)) now [] bs wxs W1)
      \<and> \<not> kw_halted (run_batches H dec (season_ordinals (kw_ledger W)) now [] bs wxs W1)" for bs
      using k assms(2) by (intro run_batches_keeps) simp_all
    then show ?thesis using True rec k by (simp add: runOnce_def unhalted_def split: sum.splits)
  next
    case False
    then have "runOnce H dec collate (season_ordinals (kw_ledger W)) now reads wxs W = W1"
      using rec by (auto simp: runOnce_def split: option.splits bool.splits)
    then show ?thesis using k by (simp add: unhalted_def)
  qed
qed

fun weathered :: "keeper_op \<Rightarrow> bool" where
  "weathered (Cycle deployed now reads wxs) \<longleftrightarrow> list_all honest wxs"
| "weathered _ \<longleftrightarrow> True"

lemma run_keeper_unhalted: "unhalted H W \<Longrightarrow> weathered op \<Longrightarrow> unhalted H (run_keeper H dec collate W op)"
proof (cases op)
  case (Trading lop)
  moreover assume "unhalted H W"
  ultimately show ?thesis using trading_keeps_world [OF _ run_op_opens] by (simp add: run_keeper_def unhalted_def)
next
  case (Cycle deployed now reads wxs)
  moreover assume "unhalted H W" "weathered op"
  ultimately show ?thesis using runOnce_keeps by (simp add: run_keeper_def keeper_tick_def)
next
  case Restart
  moreover assume "unhalted H W"
  ultimately show ?thesis by (simp add: run_keeper_def unhalted_def)
next
  case Resume
  moreover assume "unhalted H W"
  ultimately show ?thesis using world_restarted [of H W] by (simp add: run_keeper_def unhalted_def restarted_def)
qed

interpretation records: loop "run_keeper H dec collate" weathered "unhalted H" for H dec collate
  by unfold_locales (rule run_keeper_unhalted)

lemma new_world_unhalted:
  "distinct (map te_id ss) \<Longrightarrow> distinct (map te_ordinal ss) \<Longrightarrow> unhalted H (new_world ss)"
  by (simp add: unhalted_def world_ok_def new_world_def ids_ok_def seasons_ok_def new_ledger_def own_def record_ok_def
      settled_def chain_value_def)


section \<open>What the record says\<close>

text \<open>A commit as the proof endpoint lists it (src/app/app/api/proof/route.ts).\<close>

definition published :: "'a commit_intent_scheme \<Rightarrow> committed_batch" where
  "published c = \<lparr>cb_root = ci_merkleRoot c, cb_leaves = ci_leafCount c, cb_engineVersion = ci_engineVersion c\<rparr>"

lemma chained_replays:
  "chained H acc cs v \<Longrightarrow> run_res (\<lambda>acc e. rbind (fromHex (cb_root e)) (\<lambda>r. extendChain H acc r (cb_leaves e) (cb_engineVersion e)))
     acc (map published cs) = Inr v"
  by (induction cs arbitrary: acc) (auto simp: predicts_def fold_commit_def published_def)

lemma settled_replays: "settled H cs v \<Longrightarrow> replay_history H (map published cs) = Inr v"
  unfolding settled_def replay_history_def by (rule chained_replays)

lemma in_flight_replays:
  "settled H cs acc \<Longrightarrow> predicts H acc p a \<Longrightarrow> replay_history H (map published (cs @ [p])) = Inr a"
  unfolding settled_def replay_history_def
  by (simp only: map_append run_res_append chained_replays) (simp add: predicts_def fold_commit_def published_def)

lemma history_own: "ids_ok W \<Longrightarrow> commitHistory W s u = filter (\<lambda>c. cm_confirmedAt c \<noteq> None) (own s u (kw_commits W))"
  by (simp add: commitHistory_def by_commit_sorts own_def conj_ac)

lemma record_split:
  assumes "world_ok H W" "season_ordinals (kw_ledger W) s = Some n"
  obtains (settled) "settled H (commitHistory W s u) (chain_value W (n, u))" "own s u (kw_commits W) = commitHistory W s u"
    | (flying) p acc a where "settled H (commitHistory W s u) acc" "own s u (kw_commits W) = commitHistory W s u @ [p]"
      "cm_confirmedAt p = None" "predicts H acc p a" "chain_value W (n, u) = acc \<or> chain_value W (n, u) = a"
proof -
  have ids: "ids_ok W" using assms(1) by (simp add: world_ok_def)
  have "record_ok H (own s u (kw_commits W)) (chain_value W (n, u))" using assms by (simp add: world_ok_def)
  then consider "settled H (own s u (kw_commits W)) (chain_value W (n, u))" | "in_flight H (own s u (kw_commits W)) (chain_value W (n, u))"
    unfolding record_ok_def by blast
  then show thesis
  proof cases
    case 1
    then have "\<forall>c \<in> set (own s u (kw_commits W)). cm_confirmedAt c \<noteq> None"
      unfolding settled_def using chained_confirmed by blast
    then have "commitHistory W s u = own s u (kw_commits W)" by (simp only: history_own [OF ids] filter_True)
    with 1 show thesis by (intro settled) simp_all
  next
    case 2
    then obtain cs p acc a where r: "own s u (kw_commits W) = cs @ [p]" "settled H cs acc" "cm_confirmedAt p = None"
        "predicts H acc p a" "chain_value W (n, u) = acc \<or> chain_value W (n, u) = a"
      unfolding in_flight_def by blast
    have "\<forall>c \<in> set cs. cm_confirmedAt c \<noteq> None"
      using r(2) unfolding settled_def using chained_confirmed by blast
    then have "filter (\<lambda>c. cm_confirmedAt c \<noteq> None) cs = cs" by (simp only: filter_True)
    then have "commitHistory W s u = cs" using r(1,3) by (simp add: history_own [OF ids])
    with r show thesis by (intro flying [of acc p a]) simp_all
  qed
qed


definition sample_ops :: "keeper_op list" where
  "sample_ops = [Trading Open_free_play, Trading (Visit 1 ''ann'' 5),
     Cycle True 7 [] [\<lparr>wx_dies = Some After_sending, wx_landed = True, wx_receipt = None, wx_readable = True\<rparr>],
     Restart, Cycle True 9 [True] [\<lparr>wx_dies = None, wx_landed = True, wx_receipt = Some (''sig'', 3), wx_readable = True\<rparr>]]"

lemma sample_ops_weathered: "list_all weathered sample_ops"
  by (simp add: sample_ops_def honest_def)

text \<open>Ann buys and trades; the keeper dies right after sending, is started again, and finds what landed.\<close>

definition counting_hash :: "byte list \<Rightarrow> byte list" where
  "counting_hash b = replicate 31 0 @ [b ! 31 + 1]"

definition died_sending :: weather where
  "died_sending = \<lparr>wx_dies = Some After_sending, wx_landed = True, wx_receipt = None, wx_readable = True\<rparr>"

abbreviation keep_ann :: "keeper_op list \<Rightarrow> keeper_world" where
  "keep_ann \<equiv> foldl (run_keeper counting_hash key_of text_order) (new_world [])"

definition ann_story :: "keeper_op list" where
  "ann_story = map Trading ann_arrives @ [Cycle True 100 [] [died_sending], Restart, Cycle True 160 [True] []]"

definition calmed :: "keeper_world \<Rightarrow> bool" where
  "calmed W \<longleftrightarrow> season_ordinals (kw_ledger W) 1 = Some (- 1) \<and> map te_ordinal (seasons (kw_ledger W)) = [- 1]
     \<and> length (commitHistory W 1 ''ann'') = 1 \<and> pendingCommits W = []"

lemma ann_story_runs: "calmed (keep_ann ann_story)"
  by code_simp

lemmas ann_story_values = ann_story_runs [unfolded calmed_def]

lemma story_weathered: "list_all weathered ann_story"
  by (simp add: ann_story_def ann_arrives_def honest_def died_sending_def)


lemma latest_last:
  assumes "ids_ok W" "list_all (\<lambda>c. cm_confirmedAt c \<noteq> None) cs" "own s u (kw_commits W) = cs @ ps"
    and "list_all (\<lambda>c. cm_confirmedAt c = None) ps" "c \<in> set (latest_commits W)" "ci_seasonId c = s" "ci_user c = u"
  shows "cs \<noteq> [] \<and> last cs = c"
proof -
  have c: "c \<in> set (own s u (kw_commits W))" "cm_confirmedAt c \<noteq> None"
    and max: "\<And>d. d \<in> set (own s u (kw_commits W)) \<Longrightarrow> cm_confirmedAt d \<noteq> None \<Longrightarrow> cm_id d \<le> cm_id c"
    using assms(5-7) by (auto simp: latest_commits_def own_def list_all_iff)
  then have "c \<in> set cs" using assms(3,4) by (auto simp: list_all_iff)
  then obtain ds d where cs: "cs = ds @ [d]" by (cases cs rule: rev_cases) auto
  have "sorted_wrt (\<lambda>l r. cm_id l < cm_id r) (own s u (kw_commits W))" unfolding own_def by (rule rows_sorted [OF assms(1)])
  then have "\<forall>e \<in> set ds. cm_id e < cm_id d" unfolding assms(3) cs by (auto simp: sorted_wrt_append)
  moreover have "cm_id d \<le> cm_id c" using max [of d] assms(2,3) by (simp add: cs)
  ultimately show ?thesis using \<open>c \<in> set cs\<close> cs by auto
qed



end
