(* ===== verification/Evidence.thy ===== *)
theory Evidence
  imports Keeper
begin

text \<open>
  What a stranger is given to check a record with: the response of src/app/app/api/proof/route.ts,
  which rebuilds every committed batch from the stored trades. Shown here is that whatever it serves
  verifies against the chain (packages/commit/src/verify.ts), because nothing a trader or the keeper
  does afterwards changes what a committed range rebuilds to.
\<close>

section \<open>The proof endpoint\<close>

record served_proof =
  sv_seasonId :: int
  sv_ordinal :: int
  sv_record :: "(trade_leaf \<times> string \<times> string) list"
  sv_batches :: "(committed_batch \<times> trade_leaf list) list"

text \<open>The season of the trader's last confirmed commit, the highest ordinal first.\<close>

definition season_with_commits :: "keeper_world \<Rightarrow> string \<Rightarrow> season_terms option" where
  "season_with_commits W trader = (case js_sort (\<lambda>(s, c) (t, d). if te_ordinal s \<noteq> te_ordinal t then te_ordinal t - te_ordinal s
         else cm_id d - cm_id c)
       (List.map_filter (\<lambda>c. map_option (\<lambda>s. (s, c)) (season_of (kw_ledger W) (ci_seasonId c)))
         (filter (\<lambda>c. ci_user c = trader \<and> cm_confirmedAt c \<noteq> None) (kw_commits W))) of
     [] \<Rightarrow> None | (s, c) # _ \<Rightarrow> Some s)"

definition record_row :: "(byte list \<Rightarrow> byte list) \<Rightarrow> (string \<Rightarrow> byte list option) \<Rightarrow> loaded_trade \<Rightarrow> (trade_leaf \<times> string \<times> string) res" where
  "record_row H dec x = rbind (hashLeaf H dec (toLeaf x)) (\<lambda>h. Inr (toLeaf x, tr_leafHash (ld_trade x), toHex h))"

definition proof_batch :: "(byte list \<Rightarrow> byte list) \<Rightarrow> (string \<Rightarrow> byte list option) \<Rightarrow> 'a ledger_scheme \<Rightarrow> int \<Rightarrow> string
    \<Rightarrow> stored_commit \<Rightarrow> (committed_batch \<times> trade_leaf list) res" where
  "proof_batch H dec L seasonId trader c =
     rbind (leavesFor H dec (loadTrades L seasonId trader (ci_from c) (ci_to c))) (\<lambda>r. case r of
       Inl _ \<Rightarrow> Inl Plain_error
     | Inr leaves \<Rightarrow> rbind (ensure (int (length leaves) = ci_leafCount c) Plain_error) (\<lambda>_. Inr (published c, leaves)))"

definition MAX_SAFE_INTEGER :: int where "MAX_SAFE_INTEGER = 9007199254740991"

definition serve_proof :: "(byte list \<Rightarrow> byte list) \<Rightarrow> (string \<Rightarrow> byte list option) \<Rightarrow> keeper_world \<Rightarrow> string \<Rightarrow> int option
    \<Rightarrow> served_proof res" where
  "serve_proof H dec W trader asked =
     (let season = (case asked of None \<Rightarrow> None | Some n \<Rightarrow> List.find (\<lambda>s. te_ordinal s = n) (seasons (kw_ledger W))) in
      rbind (ensure (\<not> (asked \<noteq> None \<and> season = None)) Plain_error) (\<lambda>_.
      let chosen = (case season of Some s \<Rightarrow> Some s | None \<Rightarrow> season_with_commits W trader);
          ordinal = (case chosen of Some s \<Rightarrow> te_ordinal s | None \<Rightarrow> - 1) in
      (case (case chosen of Some s \<Rightarrow> (te_id s, kw_ledger W) | None \<Rightarrow> ensureFreePlaySeason (kw_ledger W)) of
         (seasonId, L) \<Rightarrow>
           rbind (traverse (record_row H dec) (loadTrades L seasonId trader 0 MAX_SAFE_INTEGER)) (\<lambda>rows.
           rbind (traverse (proof_batch H dec L seasonId trader) (commitHistory W seasonId trader)) (\<lambda>batches.
           Inr \<lparr>sv_seasonId = seasonId, sv_ordinal = ordinal, sv_record = rows, sv_batches = batches\<rparr>)))))"

section \<open>What was stored stays\<close>

text \<open>The tables grow by rows with new ids, by one trade at a time; every trade has its snapshot.\<close>

definition grows :: "'a ledger_scheme \<Rightarrow> 'a ledger_scheme \<Rightarrow> bool" where
  "grows L L' \<longleftrightarrow> (\<exists>ts ps ss. trades L' = trades L @ ts \<and> snapshots L' = snapshots L @ ps \<and> seasons L' = seasons L @ ss
     \<and> length ts \<le> 1 \<and> (\<forall>t \<in> set ts. \<forall>u \<in> set (trades L). tr_id u < tr_id t))"

definition snapped :: "'a ledger_scheme \<Rightarrow> bool" where
  "snapped L \<longleftrightarrow> tr_snapshotId ` set (trades L) \<subseteq> ss_id ` set (snapshots L)"

lemma grows_same: "trades L' = trades L \<Longrightarrow> snapshots L' = snapshots L \<Longrightarrow> seasons L' = seasons L \<Longrightarrow> grows L L'"
  by (simp add: grows_def)

lemma swap_balance_tables:
  "swap_balance a b n now L = Inr L' \<Longrightarrow> trades L' = trades L \<and> snapshots L' = snapshots L \<and> seasons L' = seasons L"
  by (auto simp: swap_balance_def Let_def)

lemma put_position_tables:
  "put_position w e now L = Inr L' \<Longrightarrow> trades L' = trades L \<and> snapshots L' = snapshots L \<and> seasons L' = seasons L"
  by (auto simp: put_position_def update_position_def insert_position_def Let_def split: option.splits)

lemma put_snapshot_tables:
  assumes "put_snapshot w now L = Inr (i, L')"
  shows "trades L' = trades L \<and> seasons L' = seasons L \<and> (\<exists>ps. snapshots L' = snapshots L @ ps) \<and> i \<in> ss_id ` set (snapshots L')"
  using assms by (auto simp: put_snapshot_def Let_def find_Some_iff split: option.splits)

lemma recordTrade_grows:
  assumes "recordTrade i L = Inr (tid, sequence, L')"
  shows "grows L L' \<and> (snapped L \<longrightarrow> snapped L')"
proof -
  obtain sid L1 leaf tid2 L2 L3 where s: "put_snapshot (ti_snapshot i) (ti_now i) L = Inr (sid, L1)"
    and t: "insert_trade (ti_trade i) sid leaf sequence (ti_now i) L1 = Inr (tid2, L2)"
    and b: "swap_balance (tw_accountId (ti_trade i)) (ti_expectedBalance i) (ti_newBalance i) (ti_now i) L2 = Inr L3"
    and p: "put_position (ti_position i) (ti_expectedTokens i) (ti_now i) L3 = Inr L'"
    using assms by (auto simp: recordTrade_def Let_def)
  note tabs = put_snapshot_tables [OF s] swap_balance_tables [OF b] put_position_tables [OF p]
  obtain r where r: "trades L2 = trades L1 @ [r]" "tr_id r = next_id (map tr_id (trades L1))" "tr_snapshotId r = sid"
      "snapshots L2 = snapshots L1" "seasons L2 = seasons L1"
    using t by (auto simp: insert_trade_def Let_def)
  have "\<forall>u \<in> set (trades L). tr_id u < tr_id r" using tabs r(2) Ledger.next_id_fresh [of _ "map tr_id (trades L)"] by auto
  then show ?thesis using tabs r by (auto simp: grows_def snapped_def)
qed

lemma insert_account_tables:
  "insert_account s u g b now L = Inr L' \<Longrightarrow> trades L' = trades L \<and> snapshots L' = snapshots L \<and> seasons L' = seasons L"
  by (auto simp: insert_account_def split: if_splits)

lemma ensureAccount_tables:
  "ensureAccount s u now L = Inr (v, L') \<Longrightarrow> trades L' = trades L \<and> snapshots L' = snapshots L \<and> seasons L' = seasons L"
  by (auto simp: ensureAccount_def dest: insert_account_tables split: option.splits)

lemma run_op_grows: "grows L (run_op H dec L op) \<and> (snapped L \<longrightarrow> snapped (run_op H dec L op))"
proof (cases op)
  case Open_free_play
  then show ?thesis by (auto simp: run_op_def ensureFreePlaySeason_def Let_def grows_def snapped_def split: option.splits)
next
  case (Visit s u now)
  have "grows L L' \<and> (snapped L \<longrightarrow> snapped L')" if "ensureAccount s u now L = Inr (v, L')" for v L'
    using ensureAccount_tables [OF that] by (simp add: grows_same snapped_def)
  then show ?thesis using Visit by (auto simp: run_op_def grows_same split: sum.splits)
next
  case (Start_over s u now)
  have "grows L L' \<and> (snapped L \<longrightarrow> snapped L')" if "startOver s u now L = Inr (v, L')" for v L'
  proof -
    from that obtain g b L1 where "insert_account s u g b now L = Inr L1" "ensureAccount s u now L1 = Inr (v, L')"
      by (auto simp: startOver_def Let_def split: option.splits)
    from insert_account_tables [OF this(1)] ensureAccount_tables [OF this(2)] show ?thesis by (simp add: grows_same snapped_def)
  qed
  then show ?thesis using Start_over by (auto simp: run_op_def grows_same split: sum.splits)
next
  case (Place_order sus rq click fill seen)
  have "grows L L' \<and> (snapped L \<longrightarrow> snapped L')" if e: "executeTrade H dec sus rq click fill seen L = Inr (out, L')" for out L'
  proof (cases "\<exists>f. out = Trade_filled f")
    case True
    with e obtain f where "executeTrade H dec sus rq click fill seen L = Inr (Trade_filled f, L')" by blast
    then show ?thesis by (rule executeTrade_filled) (rule recordTrade_grows)
  next
    case False
    with executeTrade_refused [OF e] show ?thesis by (auto simp: grows_same)
  qed
  then show ?thesis using Place_order by (auto simp: run_op_def grows_same split: sum.splits)
qed

section \<open>A committed range rebuilds to its root\<close>

definition built :: "(byte list \<Rightarrow> byte list) \<Rightarrow> (string \<Rightarrow> byte list option) \<Rightarrow> ledger \<Rightarrow> commit_intent \<Rightarrow> bool" where
  "built H dec L i \<longleftrightarrow> (\<exists>b. bt_seasonId b = ci_seasonId i \<and> bt_user b = ci_user i \<and> bt_from b = ci_from i \<and> bt_to b = ci_to i
     \<and> int (length (bt_tradeIds b)) = ci_leafCount i \<and> bt_to b \<in> tr_id ` set (trades L)
     \<and> season_of L (bt_seasonId b) \<noteq> None \<and> rootFor H dec L b = Inr (Inr (ci_merkleRoot i)))"

lemma load_row_grows:
  assumes "grows L L'" "snapped L" "t \<in> set (trades L)" "season_of L (tw_seasonId (tr_write t)) \<noteq> None"
  shows "load_row L' t = load_row L t"
proof -
  have "tr_snapshotId t \<in> ss_id ` set (snapshots L)" using assms(2,3) by (auto simp: snapped_def)
  then have "snapshot_of L (tr_snapshotId t) \<noteq> None" by (auto simp: snapshot_of_def find_None_iff)
  with assms(1,4) show ?thesis by (auto simp: load_row_def snapshot_of_def season_of_def grows_def find_append split: option.splits)
qed

lemma loadTrades_grows:
  assumes "grows L L'" "snapped L" "season_of L s \<noteq> None" "toId \<in> tr_id ` set (trades L)"
  shows "loadTrades L' s u fromId toId = loadTrades L s u fromId toId"
proof -
  let ?P = "\<lambda>t. tw_seasonId (tr_write t) = s \<and> tw_user (tr_write t) = u \<and> fromId \<le> tr_id t \<and> tr_id t \<le> toId"
  obtain ts where ts: "trades L' = trades L @ ts" "\<forall>t \<in> set ts. \<forall>u \<in> set (trades L). tr_id u < tr_id t"
    using assms(1) unfolding grows_def by blast
  have "filter ?P ts = []" using ts(2) assms(4) by (fastforce simp: filter_empty_conv)
  then have "filter ?P (trades L') = filter ?P (trades L)" by (simp add: ts(1))
  moreover have "List.map_filter (load_row L') (filter ?P (trades L)) = List.map_filter (load_row L) (filter ?P (trades L))"
    unfolding List.map_filter_def
    by (intro arg_cong2 [where f = map] filter_cong refl map_cong) (use load_row_grows [OF assms(1,2)] assms(3) in auto)
  ultimately show ?thesis by (simp add: loadTrades_def)
qed

lemma built_grows:
  assumes "built H dec L i" "grows L L'" "snapped L"
  shows "built H dec L' i"
proof -
  from assms(1) obtain b where b: "bt_seasonId b = ci_seasonId i" "bt_user b = ci_user i" "bt_from b = ci_from i" "bt_to b = ci_to i"
      "int (length (bt_tradeIds b)) = ci_leafCount i" "bt_to b \<in> tr_id ` set (trades L)"
      "season_of L (bt_seasonId b) \<noteq> None" "rootFor H dec L b = Inr (Inr (ci_merkleRoot i))"
    unfolding built_def by blast
  have "rootFor H dec L' b = rootFor H dec L b"
    by (simp add: rootFor_def loadTrades_grows [OF assms(2,3) b(7,6)])
  moreover have "bt_to b \<in> tr_id ` set (trades L')" using b(6) assms(2) by (auto simp: grows_def)
  moreover have "season_of L' (bt_seasonId b) \<noteq> None"
    using b(7) assms(2) by (auto simp: grows_def season_of_def find_append)
  ultimately show ?thesis using b unfolding built_def by metis
qed

definition intents :: "keeper_world \<Rightarrow> commit_intent set" where
  "intents W = set (map commit_intent.truncate (kw_commits W))"

definition rebuildable :: "(byte list \<Rightarrow> byte list) \<Rightarrow> (string \<Rightarrow> byte list option) \<Rightarrow> keeper_world \<Rightarrow> bool" where
  "rebuildable H dec W \<longleftrightarrow> snapped (kw_ledger W) \<and> (\<forall>i \<in> intents W. built H dec (kw_ledger W) i)"

lemma update_commit_intents: "keeps_row f \<Longrightarrow> intents (update_commit i f W) = intents W"
  unfolding intents_def by (rule arg_cong [where f = set]) (simp add: update_commit_def keeps_row_def)

lemma intent_row_truncate: "commit_intent.truncate (intent_row i n now) = i"
  by (simp add: intent_row_def commit_intent.defs stored_commit.defs)

lemma marks_keep_tables [simp]:
  "kw_ledger (markAttempted i W) = kw_ledger W" "kw_ledger (markConfirmed i tx k now W) = kw_ledger W"
  "kw_ledger (markFailed i W) = kw_ledger W" "kw_ledger (discardIntent i W) = kw_ledger W" "kw_ledger (sent_root H n wx j W) = kw_ledger W"
  by (simp_all add: markAttempted_def markConfirmed_def markFailed_def update_commit_def discardIntent_def sent_root_def land_def Let_def
      split: sum.splits)

lemma intents_simps [simp]:
  "intents (markAttempted i W) = intents W" "intents (markConfirmed i tx k now W) = intents W" "intents (markFailed i W) = intents W"
  "intents (sent_root H n wx j W) = intents W" "intents (restarted W) = intents W" "intents (W\<lparr>kw_halted := x\<rparr>) = intents W"
  "intents (W\<lparr>kw_ledger := L\<rparr>) = intents W"
  "intents (W\<lparr>kw_commits := kw_commits W @ [intent_row j n now], kw_lastId := k\<rparr>) = insert j (intents W)"
  by (simp_all add: markAttempted_def markConfirmed_def markFailed_def update_commit_intents)
    (simp_all add: intents_def sent_root_def land_def Let_def intent_row_truncate restarted_def split: sum.splits)

lemma discard_intents: "intents (discardIntent i W) \<subseteq> intents W"
  by (auto simp: intents_def discardIntent_def)

lemma commit_batch_intents:
  assumes "commit_batch H now wx n b r W = (out, W')"
    and own: "\<And>p q. intent_for b r p q \<in> X" "intents W \<subseteq> X"
  shows "kw_ledger W' = kw_ledger W \<and> intents W' \<subseteq> X"
  using assms(1)
  by (auto simp: commit_batch_def Let_def own dest!: recordIntent_Inr intro: subsetD [OF own(2)]
      split: if_splits sum.splits option.splits prod.splits)

text \<open>The batches of a plan end at trades that were waiting.\<close>

lemma flush_batch_ends: "set (map bt_to (flush_batch ts)) \<subseteq> pt_id ` set ts"
  by (cases ts) (auto simp: flush_batch_def)

lemma plan_loop_ends: "set (map bt_to (plan_loop m cur ts)) \<subseteq> pt_id ` (set cur \<union> set ts)"
proof (induction m cur ts rule: plan_loop.induct)
  case (1 m cur)
  then show ?case using flush_batch_ends [of cur] by simp
next
  case (2 m cur t ts)
  then have "set (map bt_to (plan_loop m [t] ts)) \<subseteq> pt_id ` (set cur \<union> set (t # ts))" if "breaks m cur t" using that by auto
  moreover have "set (map bt_to (flush_batch cur)) \<subseteq> pt_id ` (set cur \<union> set (t # ts))" using flush_batch_ends [of cur] by blast
  ultimately show ?case using 2 by (simp add: image_Un)
qed

lemma planned_ends:
  assumes "planBatches collate (uncommittedTrades W k) m = Inr bs" "b \<in> set bs"
  shows "bt_to b \<in> tr_id ` set (trades (kw_ledger W))"
proof -
  have "bt_to b \<in> set (map bt_to bs)" using assms(2) by simp
  also have "\<dots> \<subseteq> pt_id ` set (uncommittedTrades W k)"
    using assms(1) plan_loop_ends [of m "[]" "js_sort (plan_order collate) (uncommittedTrades W k)"]
    by (simp add: planBatches_def)
  also have "\<dots> \<subseteq> tr_id ` set (trades (kw_ledger W))"
    by (auto simp: uncommittedTrades_def pending_of_def dest!: in_set_takeD)
  finally show ?thesis .
qed

lemma season_ordinals_season: "season_ordinals L s = Some n \<Longrightarrow> season_of L s \<noteq> None"
  by (auto simp: season_ordinals_def season_of_def find_None_iff dest!: map_of_SomeD)

lemma run_batches_rebuildable:
  "rebuildable H dec W \<Longrightarrow> ordinals = season_ordinals (kw_ledger W)
    \<Longrightarrow> \<forall>b \<in> set bs. bt_to b \<in> tr_id ` set (trades (kw_ledger W))
    \<Longrightarrow> rebuildable H dec (run_batches H dec ordinals now blocked bs wxs W)"
proof (induction H dec ordinals now blocked bs wxs W rule: run_batches.induct)
  case (2 H dec ordinals now blocked b bs wxs W)
  let ?key = "(bt_seasonId b, bt_user b)"
  note prems = "2.prems"
  have stop: "rebuildable H dec (restarted W)" using prems(1) by (simp add: rebuildable_def)
  show ?case
  proof (cases "?key \<in> set blocked")
    case True
    then show ?thesis using "2.IH"(1) [OF refl True] prems by simp
  next
    case key: False
    show ?thesis
    proof (cases "rootFor H dec (kw_ledger W) b")
      case (Inl e)
      then show ?thesis using key prems(1) by simp
    next
      case root: (Inr r)
      show ?thesis
      proof (cases r)
        case (Inl tradeId)
        then show ?thesis using "2.IH"(2) [OF refl key root Inl] prems key root by simp
      next
        case r: (Inr root_hex)
        show ?thesis
        proof (cases "ordinals (bt_seasonId b)")
          case None
          then show ?thesis using key root r prems(1) by simp
        next
          case n: (Some n)
          show ?thesis
          proof (cases wxs)
            case Nil
            then show ?thesis using key root r n stop by simp
          next
            case wxs: (Cons wx wxs')
            obtain out W1 where run: "commit_batch H now wx n b root_hex W = (out, W1)" by fastforce
            have "built H dec (kw_ledger W) (intent_for b root_hex p q)" for p q
              unfolding built_def using root r n prems season_ordinals_season [of "kw_ledger W"]
              by (intro exI [of _ b]) (auto simp: intent_for_def)
            then have "kw_ledger W1 = kw_ledger W \<and> intents W1 \<subseteq> {i. built H dec (kw_ledger W) i}"
              using prems(1) by (intro commit_batch_intents [OF run]) (auto simp: rebuildable_def)
            then have W1: "rebuildable H dec W1" "kw_ledger W1 = kw_ledger W" using prems(1) by (auto simp: rebuildable_def)
            note ih = "2.IH"(3,4) [OF refl key root r n wxs run [symmetric]]
            show ?thesis
            proof (cases out)
              case (Committed i)
              then show ?thesis using ih(1) [OF Committed] W1 prems(2,3) key root r n wxs run by simp
            next
              case Not_committed
              then show ?thesis using ih(2) [OF Not_committed] W1 prems(2,3) key root r n wxs run by simp
            qed (use W1 key root r n wxs run in simp_all)
          qed
        qed
      qed
    qed
  qed
qed simp

lemma reconcile_one_intents: "reconcile_one ordinals now readable p W = (r, W') \<Longrightarrow> kw_ledger W' = kw_ledger W \<and> intents W' \<subseteq> intents W"
  using discard_intents by (auto simp: reconcile_one_def Let_def split: option.splits if_splits)

lemma reconcile_intents: "reconcile ordinals now ps reads W = (r, W') \<Longrightarrow> kw_ledger W' = kw_ledger W \<and> intents W' \<subseteq> intents W"
proof (induction ordinals now ps reads W rule: reconcile.induct)
  case (3 ordinals now p ps x xs W)
  obtain v W1 where one: "reconcile_one ordinals now x p W = (v, W1)" by fastforce
  note k = reconcile_one_intents [OF one]
  show ?case
  proof (cases "v = Some True")
    case True
    with "3.IH" [OF one [symmetric]] "3.prems" one k show ?thesis by auto
  next
    case False
    then have "W' = W1" using "3.prems" one by (auto split: option.splits bool.splits)
    with k show ?thesis by simp
  qed
qed auto

lemma run_keeper_rebuildable: "rebuildable H dec W \<Longrightarrow> rebuildable H dec (run_keeper H dec collate W op)"
proof (cases op)
  case (Trading lop)
  moreover assume "rebuildable H dec W"
  ultimately show ?thesis using run_op_grows [of "kw_ledger W" H dec lop]
    by (auto simp: run_keeper_def rebuildable_def intro: built_grows)
next
  case (Cycle deployed now reads wxs)
  assume W: "rebuildable H dec W"
  let ?ords = "season_ordinals (kw_ledger W)"
  obtain r W1 where rec: "reconcile ?ords now (pendingCommits W) reads W = (r, W1)" by fastforce
  then have W1: "rebuildable H dec W1" "?ords = season_ordinals (kw_ledger W1)"
    using W reconcile_intents [OF rec] by (auto simp: rebuildable_def)
  have "rebuildable H dec (runOnce H dec collate ?ords now reads wxs W)"
  proof (cases "r = Some True")
    case True
    show ?thesis
    proof (cases "planBatches collate (uncommittedTrades W1 5000) DEFAULT_MAX_BATCH")
      case (Inl e)
      then show ?thesis using True rec W1(1) by (simp add: runOnce_def)
    next
      case (Inr bs)
      then have "rebuildable H dec (run_batches H dec ?ords now [] bs wxs W1)"
        using planned_ends by (intro run_batches_rebuildable [OF W1]) blast
      then show ?thesis using True rec Inr by (simp add: runOnce_def)
    qed
  next
    case False
    then have "runOnce H dec collate ?ords now reads wxs W = W1"
      using rec by (auto simp: runOnce_def split: option.splits bool.splits)
    then show ?thesis using W1(1) by simp
  qed
  then show ?thesis using W by (simp add: Cycle run_keeper_def keeper_tick_def)
qed (simp_all add: run_keeper_def rebuildable_def)

interpretation stored: loop "run_keeper H dec collate" "\<lambda>_. True" "rebuildable H dec" for H dec collate
  by unfold_locales (rule run_keeper_rebuildable)

lemma new_world_rebuildable: "rebuildable H dec (new_world ss)"
  by (simp add: rebuildable_def new_world_def snapped_def new_ledger_def intents_def)

section \<open>What is served verifies\<close>

lemma leavesFor_leaves: "leavesFor H dec xs = Inr (Inr ls) \<Longrightarrow> ls = map toLeaf xs"
proof (induction xs arbitrary: ls)
  case (Cons x xs)
  then obtain rest where rest: "leavesFor H dec xs = Inr rest" "(case rest of Inl i \<Rightarrow> Inl i | Inr ls \<Rightarrow> Inr (toLeaf x # ls)) = Inr ls"
    by (auto split: if_splits)
  then show ?case using Cons.IH by (cases rest) auto
qed simp

lemma proof_batch_Inr:
  assumes "proof_batch H dec L s u c = Inr (cb, leaves)"
  shows "leavesFor H dec (loadTrades L s u (ci_from c) (ci_to c)) = Inr (Inr leaves) \<and> int (length leaves) = ci_leafCount c \<and> cb = published c"
proof -
  from assms obtain r where "leavesFor H dec (loadTrades L s u (ci_from c) (ci_to c)) = Inr r"
    "(case r of Inl _ \<Rightarrow> Inl Plain_error | Inr leaves \<Rightarrow> rbind (ensure (int (length leaves) = ci_leafCount c) Plain_error) (\<lambda>_. Inr (published c, leaves))) = Inr (cb, leaves)"
    by (auto simp: proof_batch_def)
  then show ?thesis by (cases r) auto
qed

lemma proof_batch_root:
  assumes "built H dec L (commit_intent.truncate c)" "proof_batch H dec L (ci_seasonId c) (ci_user c) c = Inr (cb, leaves)"
  shows "cb = published c \<and> (\<exists>hs r. traverse (hashLeaf H dec) leaves = Inr hs \<and> merkleRoot H hs = Inr r \<and> cb_root cb = toHex r)"
proof -
  let ?X = "loadTrades L (ci_seasonId c) (ci_user c) (ci_from c) (ci_to c)"
  from assms(1) obtain b where b: "bt_seasonId b = ci_seasonId c" "bt_user b = ci_user c" "bt_from b = ci_from c" "bt_to b = ci_to c"
      "int (length (bt_tradeIds b)) = ci_leafCount c" "rootFor H dec L b = Inr (Inr (ci_merkleRoot c))"
    by (auto simp: built_def commit_intent.defs)
  have l: "leavesFor H dec ?X = Inr (Inr leaves)" "int (length leaves) = ci_leafCount c" "cb = published c"
    using proof_batch_Inr [OF assms(2)] by simp_all
  let ?own = "filter (\<lambda>x. tr_id (ld_trade x) \<in> set (bt_tradeIds b)) ?X"
  have "length ?own = length (bt_tradeIds b)" using b(6) unfolding rootFor_def b(1-4) Let_def by (auto split: if_splits)
  also have "\<dots> = length ?X" using b(5) l(2) leavesFor_leaves [OF l(1)] by simp
  finally have "?own = ?X" by (metis filter_id_conv length_filter_less nat_less_le)
  then show ?thesis using b(6) l unfolding rootFor_def b(1-4) Let_def
    by (auto simp: published_def split: if_splits)
qed

lemma in_map_filter: "y \<in> set (List.map_filter f xs) \<longleftrightarrow> (\<exists>x \<in> set xs. f x = Some y)"
  by (induction xs) (auto simp: List.map_filter_simps split: option.splits)

abbreviation committed_seasons :: "keeper_world \<Rightarrow> string \<Rightarrow> (season_terms \<times> stored_commit) list" where
  "committed_seasons W trader \<equiv> List.map_filter (\<lambda>c. map_option (\<lambda>s. (s, c)) (season_of (kw_ledger W) (ci_seasonId c)))
     (filter (\<lambda>c. ci_user c = trader \<and> cm_confirmedAt c \<noteq> None) (kw_commits W))"

lemma in_committed_seasons:
  "(s, c) \<in> set (committed_seasons W trader) \<longleftrightarrow> c \<in> set (kw_commits W) \<and> ci_user c = trader \<and> cm_confirmedAt c \<noteq> None
     \<and> season_of (kw_ledger W) (ci_seasonId c) = Some s"
  unfolding in_map_filter by auto

lemma season_of_in: "season_of L i = Some s \<Longrightarrow> s \<in> set (seasons L)"
  unfolding season_of_def find_Some_iff by (metis nth_mem)

lemma season_with_commits_in:
  assumes "season_with_commits W trader = Some s"
  shows "s \<in> set (seasons (kw_ledger W))"
proof -
  let ?cmp = "\<lambda>(s, c) (t, d). if te_ordinal s \<noteq> te_ordinal t then te_ordinal t - te_ordinal s else cm_id d - cm_id c"
  from assms obtain c rest where "js_sort ?cmp (committed_seasons W trader) = (s, c) # rest"
    unfolding season_with_commits_def by (auto split: list.splits)
  then have "(s, c) \<in> set (js_sort ?cmp (committed_seasons W trader))" by simp
  then have "(s, c) \<in> set (committed_seasons W trader)" by (simp only: set_js_sort)
  then show ?thesis unfolding in_committed_seasons using season_of_in by blast
qed

lemma no_commits_without_a_season:
  assumes "world_ok H W" "season_with_commits W trader = None"
  shows "commitHistory W s trader = []"
proof (rule ccontr)
  assume "commitHistory W s trader \<noteq> []"
  then obtain c where "c \<in> set (commitHistory W s trader)" by (meson list.set_sel(1))
  then have c: "c \<in> set (kw_commits W)" "ci_user c = trader" "cm_confirmedAt c \<noteq> None" by (auto simp: commitHistory_def)
  then have "ci_seasonId c \<in> te_id ` set (seasons (kw_ledger W))" using assms(1) by (simp add: world_ok_def)
  then obtain t where "season_of (kw_ledger W) (ci_seasonId c) = Some t"
    by (cases "season_of (kw_ledger W) (ci_seasonId c)") (auto simp: season_of_def find_None_iff)
  with c have "(t, c) \<in> set (committed_seasons W trader)" unfolding in_committed_seasons by blast
  then have "committed_seasons W trader \<noteq> []" by fastforce
  then show False using assms(2) unfolding season_with_commits_def by (simp split: list.splits prod.splits)
qed

lemma serve_proof_Inr:
  assumes "serve_proof H dec W trader asked = Inr P" "world_ok H W"
  shows "sv_batches P = [] \<or> (season_ordinals (kw_ledger W) (sv_seasonId P) = Some (sv_ordinal P)
    \<and> traverse (proof_batch H dec (kw_ledger W) (sv_seasonId P) trader) (commitHistory W (sv_seasonId P) trader) = Inr (sv_batches P))"
proof -
  define season where "season = (case asked of None \<Rightarrow> None | Some n \<Rightarrow> List.find (\<lambda>s. te_ordinal s = n) (seasons (kw_ledger W)))"
  define chosen where "chosen = (case season of Some s \<Rightarrow> Some s | None \<Rightarrow> season_with_commits W trader)"
  note run = assms(1) [unfolded serve_proof_def Let_def, folded season_def, folded chosen_def]
  have ok: "seasons_ok (kw_ledger W)" using assms(2) by (simp add: world_ok_def)
  show ?thesis
  proof (cases chosen)
    case None
    then have "season_with_commits W trader = None" by (simp add: chosen_def split: option.splits)
    note none = no_commits_without_a_season [OF assms(2) this]
    then show ?thesis using run None by (auto split: prod.splits)
  next
    case (Some s)
    then have "s \<in> set (seasons (kw_ledger W))"
      by (auto simp: chosen_def season_def find_Some_iff split: option.splits dest: season_with_commits_in)
    then have "season_ordinals (kw_ledger W) (te_id s) = Some (te_ordinal s)"
      using ok by (auto simp: season_ordinals_Some seasons_ok_def)
    then show ?thesis using run Some by auto
  qed
qed


definition served_one :: "keeper_world \<Rightarrow> bool" where
  "served_one W \<longleftrightarrow> (case serve_proof counting_hash key_of W ''ann'' None of
     Inl _ \<Rightarrow> False | Inr P \<Rightarrow> map (\<lambda>b. length (snd b)) (sv_batches P) = [1])"

lemma ann_story_served: "served_one (keep_ann ann_story)"
  by code_simp


end
