(* ===== verification/Coverage.thy ===== *)
theory Coverage
  imports Evidence
begin

text \<open>
  Every trade is committed once and in order: a plan cuts the waiting trades into batches without
  loss (packages/keeper/src/plan.ts), the commits of a record tile its trades from the first one on,
  and so every committed batch can be served again (src/app/app/api/proof/route.ts).
\<close>

section \<open>A plan is a partition\<close>

definition group_ok :: "nat \<Rightarrow> pending_trade list \<Rightarrow> bool" where
  "group_ok m g \<longleftrightarrow> g \<noteq> [] \<and> length g \<le> m \<and> list_all (\<lambda>t. pt_seasonId t = pt_seasonId (hd g) \<and> pt_user t = pt_user (hd g)
     \<and> pt_engineVersion t = pt_engineVersion (hd g)) g"

definition batch_of :: "pending_trade list \<Rightarrow> planned_batch" where
  "batch_of g = \<lparr>bt_seasonId = pt_seasonId (hd g), bt_user = pt_user (hd g), bt_tradeIds = map pt_id g,
     bt_from = pt_id (hd g), bt_to = pt_id (last g), bt_engineVersion = pt_engineVersion (hd g)\<rparr>"

lemma flush_batch_group: "g \<noteq> [] \<Longrightarrow> flush_batch g = [batch_of g]"
  by (cases g) (simp_all add: flush_batch_def batch_of_def)

lemma group_grows: "\<not> breaks m cur t \<Longrightarrow> cur = [] \<or> group_ok m cur \<Longrightarrow> 1 \<le> m \<Longrightarrow> group_ok m (cur @ [t])"
  by (cases cur) (auto simp: breaks_def group_ok_def)

lemma plan_loop_groups:
  "1 \<le> m \<Longrightarrow> cur = [] \<or> group_ok m cur
    \<Longrightarrow> \<exists>gs. plan_loop m cur ts = map batch_of gs \<and> concat gs = cur @ ts \<and> list_all (group_ok m) gs"
proof (induction m cur ts rule: plan_loop.induct)
  case (1 m cur)
  show ?case
  proof (cases "cur = []")
    case True
    then show ?thesis by (intro exI [of _ "[]"]) (simp add: flush_batch_def)
  next
    case False
    then show ?thesis using "1.prems" by (intro exI [of _ "[cur]"]) (simp add: flush_batch_group)
  qed
next
  case (2 m cur t ts)
  show ?case
  proof (cases "breaks m cur t")
    case True
    then have cur: "cur \<noteq> []" by (auto simp: breaks_def)
    have "group_ok m [t]" using "2.prems"(1) by (simp add: group_ok_def)
    with "2.IH"(1) [OF True "2.prems"(1)] obtain gs where
      "plan_loop m [t] ts = map batch_of gs" "concat gs = [t] @ ts" "list_all (group_ok m) gs" by blast
    then show ?thesis using True cur "2.prems"(2) by (intro exI [of _ "cur # gs"]) (simp add: flush_batch_group)
  next
    case False
    from "2.IH"(2) [OF False "2.prems"(1)] group_grows [OF False "2.prems"(2,1)] False show ?thesis by simp
  qed
qed

lemma planned_groups:
  assumes "planBatches collate ts m = Inr bs"
  obtains gs where "bs = map batch_of gs" "concat gs = js_sort (plan_order collate) ts" "list_all (group_ok m) gs"
  using plan_loop_groups [of m "[]" "js_sort (plan_order collate) ts"] assms by (auto simp: planBatches_def)

text \<open>
  C29: a plan cuts the waiting trades, sorted, into batches: none is lost, none is repeated, every
  batch holds between one trade and the limit, all of one season, one wallet and one engine, and
  its range is that of its trades. Only a limit of nothing is refused.
\<close>

theorem plan_partitions_the_trades:
  "case planBatches collate ts m of
     Inl e \<Rightarrow> m = 0
   | Inr bs \<Rightarrow> concat (map bt_tradeIds bs) = map pt_id (js_sort (plan_order collate) ts)
       \<and> list_all (\<lambda>b. 1 \<le> length (bt_tradeIds b) \<and> length (bt_tradeIds b) \<le> m
           \<and> bt_from b = hd (bt_tradeIds b) \<and> bt_to b = last (bt_tradeIds b)
           \<and> list_all (\<lambda>i. list_ex (\<lambda>t. pt_id t = i \<and> pt_seasonId t = bt_seasonId b \<and> pt_user t = bt_user b
               \<and> pt_engineVersion t = bt_engineVersion b) ts) (bt_tradeIds b)) bs"
proof (cases "planBatches collate ts m")
  case (Inl e)
  then show ?thesis by (simp add: planBatches_def rbind_eq_Inl)
next
  case (Inr bs)
  then obtain gs where gs: "bs = map batch_of gs" "concat gs = js_sort (plan_order collate) ts" "list_all (group_ok m) gs"
    by (rule planned_groups)
  have ids: "concat (map bt_tradeIds bs) = map pt_id (js_sort (plan_order collate) ts)"
    unfolding gs(1) gs(2) [symmetric] by (simp add: batch_of_def map_concat comp_def)
  have each: "1 \<le> length (bt_tradeIds b) \<and> length (bt_tradeIds b) \<le> m \<and> bt_from b = hd (bt_tradeIds b) \<and> bt_to b = last (bt_tradeIds b)
      \<and> (\<forall>i \<in> set (bt_tradeIds b). \<exists>t \<in> set ts. pt_id t = i \<and> pt_seasonId t = bt_seasonId b \<and> pt_user t = bt_user b
               \<and> pt_engineVersion t = bt_engineVersion b)" if b: "b \<in> set bs" for b
  proof -
    obtain g where g: "g \<in> set gs" "b = batch_of g" using b gs(1) by auto
    have "set g \<subseteq> set (concat gs)" using g(1) by auto
    then have sub: "set g \<subseteq> set ts" unfolding gs(2) set_js_sort .
    have "group_ok m g" using gs(3) g(1) by (simp add: list_all_iff)
    then have ok: "g \<noteq> []" "length g \<le> m" "\<forall>t \<in> set g. pt_seasonId t = pt_seasonId (hd g) \<and> pt_user t = pt_user (hd g)
        \<and> pt_engineVersion t = pt_engineVersion (hd g)" unfolding group_ok_def list_all_iff by blast+
    have "\<exists>t \<in> set ts. pt_id t = i \<and> pt_seasonId t = bt_seasonId b \<and> pt_user t = bt_user b \<and> pt_engineVersion t = bt_engineVersion b"
      if "i \<in> set (bt_tradeIds b)" for i
    proof -
      from that obtain t where "t \<in> set g" "pt_id t = i" by (auto simp: g(2) batch_of_def)
      moreover note bspec [OF ok(3) this(1)]
      ultimately have "pt_seasonId t = bt_seasonId b \<and> pt_user t = bt_user b \<and> pt_engineVersion t = bt_engineVersion b" "t \<in> set ts" "pt_id t = i"
        using sub by (simp_all add: g(2) batch_of_def subsetD)
      then show ?thesis by blast
    qed
    with ok(1,2) show ?thesis by (simp add: g(2) batch_of_def hd_map last_map Suc_le_eq)
  qed
  show ?thesis unfolding Inr sum.case list_all_iff list_ex_iff using ids each by blast
qed

section \<open>The commits tile the trades\<close>

definition tile :: "commit_intent \<Rightarrow> int list \<Rightarrow> bool" where
  "tile i seg \<longleftrightarrow> seg \<noteq> [] \<and> ci_from i = hd seg \<and> ci_to i = last seg \<and> ci_leafCount i = int (length seg)"

definition record_ids :: "'a ledger_scheme \<Rightarrow> int \<Rightarrow> string \<Rightarrow> int list" where
  "record_ids L s u = map tr_id (filter (\<lambda>t. tw_seasonId (tr_write t) = s \<and> tw_user (tr_write t) = u) (trades L))"

definition intents_of :: "int \<Rightarrow> string \<Rightarrow> keeper_world \<Rightarrow> commit_intent list" where
  "intents_of s u W = map commit_intent.truncate (own s u (kw_commits W))"

definition tiles :: "int \<Rightarrow> string \<Rightarrow> keeper_world \<Rightarrow> int list \<Rightarrow> bool" where
  "tiles s u W rest \<longleftrightarrow> (\<exists>segs. list_all2 tile (intents_of s u W) segs \<and> record_ids (kw_ledger W) s u = concat segs @ rest)"

definition tiled :: "keeper_world \<Rightarrow> bool" where
  "tiled W \<longleftrightarrow> sorted_wrt (<) (map tr_id (trades (kw_ledger W))) \<and> (\<forall>s u. \<exists>rest. tiles s u W rest)"

lemma sorted_record_ids: "sorted_wrt (<) (map tr_id (trades L)) \<Longrightarrow> sorted_wrt (<) (record_ids L s u)"
  by (simp add: record_ids_def sorted_wrt_map sorted_wrt_filter)

text \<open>A range of a strictly ascending list is the segment between its ends.\<close>

lemma sorted_ends: "sorted xs \<Longrightarrow> (x :: int) \<in> set xs \<Longrightarrow> hd xs \<le> x \<and> x \<le> last xs"
proof (induction xs)
  case (Cons a xs)
  then show ?case by (cases "xs = []") (auto dest: last_in_set)
qed simp

lemma between_segment:
  assumes "sorted_wrt (<) (A @ seg @ B)" "seg \<noteq> []"
  shows "filter (\<lambda>x. hd seg \<le> x \<and> x \<le> last seg) (A @ seg @ B) = (seg :: int list)"
proof -
  have e: "hd seg \<in> set seg" "last seg \<in> set seg" using assms(2) by simp_all
  then have "\<forall>a \<in> set A. a < hd seg" "\<forall>b \<in> set B. last seg < b" using assms(1) unfolding sorted_wrt_append set_append by blast+
  then have "filter (\<lambda>x. hd seg \<le> x \<and> x \<le> last seg) A = []" "filter (\<lambda>x. hd seg \<le> x \<and> x \<le> last seg) B = []"
    by (auto simp: filter_empty_conv)
  moreover have "sorted seg" using assms(1) by (simp add: sorted_wrt_append strict_sorted_imp_sorted)
  then have "filter (\<lambda>x. hd seg \<le> x \<and> x \<le> last seg) seg = seg" unfolding filter_id_conv using sorted_ends by blast
  ultimately show ?thesis by simp
qed

lemma segment_of:
  assumes "list_all2 tile is segs" "i \<in> set is"
  obtains segs1 seg segs2 where "segs = segs1 @ seg # segs2" "tile i seg"
proof -
  obtain k where "k < length is" "is ! k = i" using assms(2) by (auto simp: in_set_conv_nth)
  then have "k < length segs" "tile i (segs ! k)" using assms(1) by (auto simp: list_all2_conv_all_nth)
  then show thesis using that [of "take k segs" "segs ! k" "drop (Suc k) segs"] by (simp add: id_take_nth_drop [symmetric])
qed

lemma tiled_range:
  assumes "list_all2 tile is segs" "sorted_wrt (<) (concat segs @ rest)" "i \<in> set is"
  obtains seg where "tile i seg" "seg \<in> set segs" "filter (\<lambda>x. ci_from i \<le> x \<and> x \<le> ci_to i) (concat segs @ rest) = seg"
proof -
  obtain segs1 seg segs2 where s: "segs = segs1 @ seg # segs2" "tile i seg" by (rule segment_of [OF assms(1,3)])
  have "filter (\<lambda>x. hd seg \<le> x \<and> x \<le> last seg) (concat segs1 @ seg @ (concat segs2 @ rest)) = seg"
    by (rule between_segment) (use assms(2) s in \<open>simp_all add: tile_def\<close>)
  then show thesis using s by (intro that [of seg]) (simp_all add: tile_def)
qed

lemma covered_iff:
  assumes "list_all2 tile is segs" "sorted_wrt (<) (concat segs @ rest)" "x \<in> set (concat segs @ rest)"
  shows "(\<exists>i \<in> set is. ci_from i \<le> x \<and> x \<le> ci_to i) \<longleftrightarrow> x \<in> set (concat segs)"
proof
  assume "\<exists>i \<in> set is. ci_from i \<le> x \<and> x \<le> ci_to i"
  then obtain i where i: "i \<in> set is" "ci_from i \<le> x" "x \<le> ci_to i" by blast
  obtain seg where seg: "seg \<in> set segs" "filter (\<lambda>x. ci_from i \<le> x \<and> x \<le> ci_to i) (concat segs @ rest) = seg"
    by (rule tiled_range [OF assms(1,2) i(1)])
  have "x \<in> set (filter (\<lambda>x. ci_from i \<le> x \<and> x \<le> ci_to i) (concat segs @ rest))" using assms(3) i by simp
  then show "x \<in> set (concat segs)" unfolding seg(2) using seg(1) by auto
next
  assume "x \<in> set (concat segs)"
  then obtain seg where "seg \<in> set segs" "x \<in> set seg" by auto
  then obtain k where k: "k < length segs" "x \<in> set (segs ! k)" by (metis in_set_conv_nth)
  then have t: "tile (is ! k) (segs ! k)" "is ! k \<in> set is" using assms(1) by (auto simp: list_all2_conv_all_nth)
  have "concat segs = concat (take k segs) @ segs ! k @ concat (drop (Suc k) segs)"
    by (metis concat.simps(2) concat_append id_take_nth_drop k(1))
  then have "sorted (segs ! k)" using assms(2) by (simp add: sorted_wrt_append strict_sorted_imp_sorted)
  then have "hd (segs ! k) \<le> x \<and> x \<le> last (segs ! k)" using k(2) by (rule sorted_ends)
  then show "\<exists>i \<in> set is. ci_from i \<le> x \<and> x \<le> ci_to i" using t by (intro bexI [of _ "is ! k"]) (simp_all add: tile_def)
qed

section \<open>A plan continues the tiling\<close>

text \<open>What the code relies on of \<open>localeCompare\<close>: it is a total order of the addresses.\<close>

definition collates :: "(string \<Rightarrow> string \<Rightarrow> int) \<Rightarrow> bool" where
  "collates collate \<longleftrightarrow> (\<forall>a b. collate a b \<le> 0 \<or> collate b a \<le> 0) \<and> (\<forall>a b. collate a b \<le> 0 \<and> collate b a \<le> 0 \<longrightarrow> a = b)
     \<and> (\<forall>a b c. collate a b \<le> 0 \<and> collate b c \<le> 0 \<longrightarrow> collate a c \<le> 0)"

lemma text_order_collates: "collates text_order"
  by (auto simp: collates_def text_order_def)

lemma plan_order_comparator: "collates collate \<Longrightarrow> comparator (plan_order collate)"
proof
  fix x y z
  assume c: "collates collate"
  have tot: "collate a b \<le> 0 \<or> collate b a \<le> 0" for a b using c unfolding collates_def by blast
  then have r: "collate a a \<le> 0" for a by blast
  show "plan_order collate x y \<le> 0 \<or> plan_order collate y x \<le> 0"
    using tot [of "pt_user x" "pt_user y"] by (auto simp: plan_order_def)
  assume xy: "plan_order collate x y \<le> 0" and yz: "plan_order collate y z \<le> 0"
  have s: "pt_seasonId x \<le> pt_seasonId y" "pt_seasonId y \<le> pt_seasonId z" using xy yz by (auto simp: plan_order_def split: if_splits)
  show "plan_order collate x z \<le> 0"
  proof (cases "pt_seasonId x = pt_seasonId z")
    case False
    then show ?thesis using s by (simp add: plan_order_def)
  next
    case True
    then have same: "pt_seasonId x = pt_seasonId y" "pt_seasonId y = pt_seasonId z" using s by simp_all
    have u: "collate (pt_user x) (pt_user y) \<le> 0" "collate (pt_user y) (pt_user z) \<le> 0"
      using xy yz same r by (auto simp: plan_order_def split: if_splits)
    then have xz: "collate (pt_user x) (pt_user z) \<le> 0" using c unfolding collates_def by blast
    show ?thesis
    proof (cases "pt_user x = pt_user z")
      case True
      then have "pt_user x = pt_user y" using u c unfolding collates_def by metis
      then show ?thesis using True xy yz same by (simp add: plan_order_def)
    qed (use xz same in \<open>simp add: plan_order_def\<close>)
  qed
qed

abbreviation of_record :: "int \<Rightarrow> string \<Rightarrow> pending_trade \<Rightarrow> bool" where
  "of_record s u t \<equiv> pt_seasonId t = s \<and> pt_user t = u"

lemma planned_in_order:
  assumes "collates collate"
  shows "sorted (map pt_id (filter (of_record s u) (js_sort (plan_order collate) ts)))"
proof -
  have "sorted_wrt (\<lambda>a b. plan_order collate a b \<le> 0) (filter (of_record s u) (js_sort (plan_order collate) ts))"
    by (intro sorted_wrt_filter comparator.sort_sorted [OF plan_order_comparator [OF assms]])
  then have "sorted_wrt (\<lambda>a b. pt_id a \<le> pt_id b) (filter (of_record s u) (js_sort (plan_order collate) ts))"
    by (rule sorted_wrt_mono_rel [rotated]) (auto simp: plan_order_def)
  then show ?thesis by (simp add: sorted_map)
qed

lemma sorted_same_mset: "sorted xs \<Longrightarrow> sorted ys \<Longrightarrow> mset xs = mset ys \<Longrightarrow> xs = (ys :: int list)"
  by (metis properties_for_sort)

lemma sorting_keeps_the_record:
  assumes "collates collate" "sorted (map pt_id (filter (of_record s u) ts))"
  shows "map pt_id (filter (of_record s u) (js_sort (plan_order collate) ts)) = map pt_id (filter (of_record s u) ts)"
proof -
  have "mset (map pt_id (filter (of_record s u) (js_sort (plan_order collate) ts))) = mset (map pt_id (filter (of_record s u) ts))"
    by (simp only: mset_map mset_filter mset_js_sort)
  from sorted_same_mset [OF planned_in_order [OF assms(1)] assms(2) this] show ?thesis .
qed

lemma filter_take: "\<exists>j. filter P (take k xs) = take j (filter P xs)"
proof (induction xs arbitrary: k)
  case (Cons x xs)
  show ?case
  proof (cases k)
    case (Suc n)
    from Cons [of n] obtain j where "filter P (take n xs) = take j (filter P xs)" by blast
    then show ?thesis using Suc by (cases "P x") (auto intro: exI [of _ "Suc j"] exI [of _ j])
  qed (auto intro: exI [of _ 0])
qed simp

lemma batches_of_record:
  "list_all (group_ok m) gs \<Longrightarrow> concat (map bt_tradeIds (filter (\<lambda>b. bt_seasonId b = s \<and> bt_user b = u) (map batch_of gs)))
     = map pt_id (filter (of_record s u) (concat gs))"
proof (induction gs)
  case (Cons g gs)
  have "group_ok m g" using Cons.prems by simp
  then have g: "\<forall>t \<in> set g. pt_seasonId t = pt_seasonId (hd g) \<and> pt_user t = pt_user (hd g)"
    unfolding group_ok_def list_all_iff by blast
  have "of_record s u t \<longleftrightarrow> of_record s u (hd g)" if "t \<in> set g" for t using bspec [OF g that] by simp
  then have "filter (of_record s u) g = filter (\<lambda>_. of_record s u (hd g)) g" by (rule filter_cong [OF refl])
  also have "\<dots> = (if of_record s u (hd g) then g else [])" by simp
  finally have "filter (of_record s u) g = (if of_record s u (hd g) then g else [])" .
  then show ?case using Cons by (simp add: batch_of_def)
qed simp

lemma intents_of_own: "set (intents_of s u W) = commit_intent.truncate ` {c \<in> set (kw_commits W). ci_seasonId c = s \<and> ci_user c = u}"
  by (auto simp: intents_of_def own_def)

lemma uncommitted_ids:
  assumes "list_all2 tile (intents_of s u W) segs" "record_ids (kw_ledger W) s u = concat segs @ rest"
    and "sorted_wrt (<) (map tr_id (trades (kw_ledger W)))"
  shows "map pt_id (filter (of_record s u) (map pending_of
      (filter (\<lambda>t. \<not> list_ex (\<lambda>c. covers c t) (kw_commits W)) (trades (kw_ledger W))))) = rest"
proof -
  let ?in = "\<lambda>t. tw_seasonId (tr_write t) = s \<and> tw_user (tr_write t) = u"
  have srt: "sorted_wrt (<) (concat segs @ rest)" using sorted_record_ids [OF assms(3)] unfolding assms(2) [symmetric] .
  have cov: "list_ex (\<lambda>c. covers c t) (kw_commits W) \<longleftrightarrow> tr_id t \<in> set (concat segs)" if "t \<in> set (trades (kw_ledger W))" "?in t" for t
  proof -
    have "tr_id t \<in> set (record_ids (kw_ledger W) s u)" using that by (auto simp: record_ids_def)
    from covered_iff [OF assms(1) srt this [unfolded assms(2)]] show ?thesis
      using that(2) by (auto simp: intents_of_own covers_def list_ex_iff commit_intent.defs)
  qed
  have "map pt_id (filter (of_record s u) (map pending_of (filter (\<lambda>t. \<not> list_ex (\<lambda>c. covers c t) (kw_commits W)) (trades (kw_ledger W)))))
      = map tr_id (filter (\<lambda>t. ?in t \<and> tr_id t \<notin> set (concat segs)) (trades (kw_ledger W)))"
    by (simp add: filter_map comp_def pending_of_def) (rule arg_cong [where f = "map tr_id"], rule filter_cong, use cov in auto)
  also have "\<dots> = filter (\<lambda>x. x \<notin> set (concat segs)) (record_ids (kw_ledger W) s u)"
    by (simp add: record_ids_def filter_map comp_def conj_commute)
  also have "\<dots> = rest"
  proof -
    have "set (concat segs) \<inter> set rest = {}" using strict_sorted_iff srt by (metis distinct_append)
    then have "filter (\<lambda>x. x \<notin> set (concat segs)) rest = rest" by (auto simp: filter_id_conv)
    moreover have "filter (\<lambda>x. x \<notin> set (concat segs)) (concat segs) = []" by (simp add: filter_empty_conv)
    ultimately show ?thesis unfolding assms(2) filter_append by simp
  qed
  finally show ?thesis .
qed

lemma plan_continues:
  assumes "collates collate" "tiled W" "planBatches collate (uncommittedTrades W k) m = Inr bs"
  shows "\<exists>rest. tiles s u W (concat (map bt_tradeIds (filter (\<lambda>b. bt_seasonId b = s \<and> bt_user b = u) bs)) @ rest)"
proof -
  let ?X = "map pending_of (filter (\<lambda>t. \<not> list_ex (\<lambda>c. covers c t) (kw_commits W)) (trades (kw_ledger W)))"
  obtain segs rest where t: "list_all2 tile (intents_of s u W) segs" "record_ids (kw_ledger W) s u = concat segs @ rest"
    and srt: "sorted_wrt (<) (map tr_id (trades (kw_ledger W)))"
    using assms(2) unfolding tiled_def tiles_def by blast
  have X: "map pt_id (filter (of_record s u) ?X) = rest" by (rule uncommitted_ids [OF t srt])
  have rest: "sorted rest" using sorted_record_ids [OF srt, of s u] by (simp add: t(2) sorted_wrt_append strict_sorted_imp_sorted)
  obtain j where "filter (of_record s u) (uncommittedTrades W k) = take j (filter (of_record s u) (js_sort (plan_order text_order) ?X))"
    unfolding uncommittedTrades_def using filter_take by blast
  then have U: "map pt_id (filter (of_record s u) (uncommittedTrades W k)) = take j rest"
    using sorting_keeps_the_record [OF text_order_collates, of s u ?X] X rest by (simp flip: take_map)
  obtain gs where gs: "bs = map batch_of gs" "concat gs = js_sort (plan_order collate) (uncommittedTrades W k)" "list_all (group_ok m) gs"
    using planned_groups [OF assms(3)] .
  have "concat (map bt_tradeIds (filter (\<lambda>b. bt_seasonId b = s \<and> bt_user b = u) bs)) = take j rest"
    unfolding gs(1) batches_of_record [OF gs(3)] gs(2)
    using sorting_keeps_the_record [OF assms(1), of s u "uncommittedTrades W k"] U rest by (simp add: sorted_wrt_take)
  then show ?thesis using t unfolding tiles_def by (intro exI [of _ "drop j rest"] exI [of _ segs]) simp
qed

section \<open>The keeper keeps the tiling\<close>

definition ilist :: "keeper_world \<Rightarrow> commit_intent list" where
  "ilist W = map commit_intent.truncate (kw_commits W)"

lemma intents_of_ilist: "intents_of s u W = filter (\<lambda>i. ci_seasonId i = s \<and> ci_user i = u) (ilist W)"
  by (simp add: intents_of_def ilist_def own_def filter_map comp_def commit_intent.defs)

lemma truncate_marks:
  "commit_intent.truncate (c\<lparr>cm_attempts := x\<rparr>) = commit_intent.truncate c"
  "commit_intent.truncate (c\<lparr>cm_txSignature := t, cm_slot := k, cm_confirmedAt := n\<rparr>) = commit_intent.truncate c"
  "commit_intent.truncate (c\<lparr>cm_failed := f\<rparr>) = commit_intent.truncate c"
  by (simp_all add: commit_intent.defs)

lemma ilist_simps [simp]:
  "ilist (markAttempted i W) = ilist W" "ilist (markConfirmed i tx k now W) = ilist W" "ilist (markFailed i W) = ilist W"
  "ilist (sent_root H n wx j W) = ilist W" "ilist (restarted W) = ilist W" "ilist (W\<lparr>kw_halted := x\<rparr>) = ilist W"
  "ilist (W\<lparr>kw_ledger := L\<rparr>) = ilist W"
  "ilist (W\<lparr>kw_commits := kw_commits W @ [intent_row j n now], kw_lastId := k\<rparr>) = ilist W @ [j]"
  by (simp_all add: ilist_def markAttempted_def markConfirmed_def markFailed_def update_commit_def sent_root_def land_def
      restarted_def Let_def intent_row_truncate truncate_marks split: sum.splits)

lemma commit_batch_ilist:
  assumes "commit_batch H now wx n b r W = (out, W')"
  shows "kw_ledger W' = kw_ledger W \<and> ((\<exists>p q. ilist W' = ilist W @ [intent_for b r p q]) \<or> (ilist W' = ilist W \<and> (\<forall>k. out \<noteq> Committed k)))"
proof (cases "kw_halted W")
  case True
  then show ?thesis using assms by (simp add: commit_batch_def)
next
  case alive: False
  let ?prev = "localAccumulator W (bt_seasonId b) (bt_user b)"
  show ?thesis
  proof (cases "predictAccumulator H ?prev r (int (length (bt_tradeIds b))) (bt_engineVersion b)")
    case (Inl e)
    then show ?thesis using assms alive by (auto simp: commit_batch_def)
  next
    case p: (Inr p)
    let ?i = "intent_for b r ?prev p"
    show ?thesis
    proof (cases "recordIntent ?i now W")
      case (Inl e)
      then show ?thesis using assms alive p by (auto simp: commit_batch_def Let_def)
    next
      case rec: (Inr kW)
      obtain k W1 where kW: "kW = (k, W1)" by fastforce
      note k = recordIntent_Inr [OF rec [unfolded kW]]
      have "kw_ledger W' = kw_ledger W1 \<and> ilist W' = ilist W1"
        using assms alive p rec unfolding kW
        by (auto simp: commit_batch_def Let_def split: if_splits option.splits)
      moreover have "ilist W1 = ilist W @ [?i]" "kw_ledger W1 = kw_ledger W" using k by simp_all
      ultimately show ?thesis by auto
    qed
  qed
qed

definition whole :: "planned_batch \<Rightarrow> bool" where
  "whole b \<longleftrightarrow> bt_tradeIds b \<noteq> [] \<and> bt_from b = hd (bt_tradeIds b) \<and> bt_to b = last (bt_tradeIds b)"

lemma planned_whole:
  assumes "planBatches collate ts m = Inr bs"
  shows "list_all whole bs"
proof -
  obtain gs where gs: "bs = map batch_of gs" "list_all (group_ok m) gs" using planned_groups [OF assms] by metis
  have "whole (batch_of g)" if "g \<in> set gs" for g
  proof -
    have "g \<noteq> []" using gs(2) that by (simp add: list_all_iff group_ok_def)
    then show ?thesis by (simp add: whole_def batch_of_def hd_map last_map)
  qed
  then show ?thesis by (simp add: gs(1) list_all_iff)
qed

abbreviation of_batch :: "int \<Rightarrow> string \<Rightarrow> planned_batch \<Rightarrow> bool" where
  "of_batch s u b \<equiv> bt_seasonId b = s \<and> bt_user b = u"

definition lined_up :: "planned_batch list \<Rightarrow> (int \<times> string) list \<Rightarrow> keeper_world \<Rightarrow> bool" where
  "lined_up bs blocked W \<longleftrightarrow> sorted_wrt (<) (map tr_id (trades (kw_ledger W))) \<and> list_all whole bs
     \<and> (\<forall>s u. \<exists>rest. tiles s u W ((if (s, u) \<in> set blocked then [] else concat (map bt_tradeIds (filter (of_batch s u) bs))) @ rest))"

lemma lined_up_tiled: "lined_up bs blocked W \<Longrightarrow> tiled W"
  unfolding lined_up_def tiled_def by blast

lemma lined_up_cong: "ilist W' = ilist W \<Longrightarrow> kw_ledger W' = kw_ledger W \<Longrightarrow> lined_up bs blocked W' = lined_up bs blocked W"
  by (simp add: lined_up_def tiles_def intents_of_ilist)

lemma tiled_cong: "ilist W' = ilist W \<Longrightarrow> kw_ledger W' = kw_ledger W \<Longrightarrow> tiled W' = tiled W"
  by (simp add: tiled_def tiles_def intents_of_ilist)

lemma lined_up_tail:
  assumes "lined_up (b # bs) blocked W" "(bt_seasonId b, bt_user b) \<in> set blocked \<or> blocked' = (bt_seasonId b, bt_user b) # blocked"
    and "blocked' = blocked \<or> blocked' = (bt_seasonId b, bt_user b) # blocked"
  shows "lined_up bs blocked' W"
  unfolding lined_up_def
proof (intro conjI allI)
  fix s u
  obtain rest where r: "tiles s u W ((if (s, u) \<in> set blocked then [] else concat (map bt_tradeIds (filter (of_batch s u) (b # bs)))) @ rest)"
    using assms(1) unfolding lined_up_def by blast
  show "\<exists>rest. tiles s u W ((if (s, u) \<in> set blocked' then [] else concat (map bt_tradeIds (filter (of_batch s u) bs))) @ rest)"
  proof (cases "(s, u) \<in> set blocked'")
    case True
    then show ?thesis using r by auto
  next
    case False
    then have "(s, u) \<notin> set blocked" "\<not> of_batch s u b" using assms(2,3) by auto
    then show ?thesis using r False by auto
  qed
qed (use assms(1) in \<open>simp_all add: lined_up_def\<close>)

lemma lined_up_commit:
  assumes "lined_up (b # bs) blocked W" "(bt_seasonId b, bt_user b) \<notin> set blocked"
    and "ilist W' = ilist W @ [intent_for b r p q]" "kw_ledger W' = kw_ledger W"
  shows "lined_up bs blocked W'"
  unfolding lined_up_def
proof (intro conjI allI)
  fix s u
  obtain rest where r: "tiles s u W ((if (s, u) \<in> set blocked then [] else concat (map bt_tradeIds (filter (of_batch s u) (b # bs)))) @ rest)"
    using assms(1) unfolding lined_up_def by blast
  show "\<exists>rest. tiles s u W' ((if (s, u) \<in> set blocked then [] else concat (map bt_tradeIds (filter (of_batch s u) bs))) @ rest)"
  proof (cases "of_batch s u b")
    case True
    then have nb: "(s, u) \<notin> set blocked" using assms(2) by auto
    have "tiles s u W (bt_tradeIds b @ concat (map bt_tradeIds (filter (of_batch s u) bs)) @ rest)" using r nb True by simp
    then obtain segs where segs: "list_all2 tile (intents_of s u W) segs"
        "record_ids (kw_ledger W) s u = concat segs @ bt_tradeIds b @ concat (map bt_tradeIds (filter (of_batch s u) bs)) @ rest"
      unfolding tiles_def by blast
    have "intents_of s u W' = intents_of s u W @ [intent_for b r p q]"
      using True by (simp add: intents_of_ilist assms(3) intent_for_def)
    moreover have "tile (intent_for b r p q) (bt_tradeIds b)"
      using assms(1) by (simp add: lined_up_def whole_def tile_def intent_for_def)
    ultimately have "list_all2 tile (intents_of s u W') (segs @ [bt_tradeIds b])" using segs(1) by (simp add: list_all2_appendI)
    then show ?thesis using segs(2) nb unfolding tiles_def assms(4)
      by (intro exI [of _ rest] exI [of _ "segs @ [bt_tradeIds b]"]) simp
  next
    case False
    have "intents_of s u W' = intents_of s u W" using False by (simp add: intents_of_ilist assms(3) intent_for_def)
    then have "tiles s u W' rs = tiles s u W rs" for rs by (simp add: tiles_def assms(4))
    moreover have f: "filter (of_batch s u) (b # bs) = filter (of_batch s u) bs" using False by simp
    ultimately show ?thesis using r [unfolded f] by blast
  qed
qed (use assms(1,4) in \<open>simp_all add: lined_up_def\<close>)

lemma lined_up_block: "lined_up bs blocked W \<Longrightarrow> lined_up bs (k # blocked) W"
proof -
  assume a: "lined_up bs blocked W"
  have "\<exists>rest. tiles s u W ((if (s, u) \<in> set (k # blocked) then [] else concat (map bt_tradeIds (filter (of_batch s u) bs))) @ rest)" for s u
  proof -
    obtain rest where r: "tiles s u W ((if (s, u) \<in> set blocked then [] else concat (map bt_tradeIds (filter (of_batch s u) bs))) @ rest)"
      using a unfolding lined_up_def by blast
    then show ?thesis by (cases "(s, u) \<in> set (k # blocked)") auto
  qed
  with a show ?thesis unfolding lined_up_def by blast
qed

lemma run_batches_tiled:
  "lined_up bs blocked W \<Longrightarrow> tiled (run_batches H dec ordinals now blocked bs wxs W)"
proof (induction H dec ordinals now blocked bs wxs W rule: run_batches.induct)
  case (1 H dec ordinals now blocked wxs W)
  then show ?case by (simp add: lined_up_tiled)
next
  case (2 H dec ordinals now blocked b bs wxs W)
  let ?key = "(bt_seasonId b, bt_user b)"
  have W: "tiled W" "tiled (restarted W)" using lined_up_tiled [OF "2.prems"] tiled_cong [of "restarted W" W] by simp_all
  have next_blocked: "lined_up bs (?key # blocked) W" by (rule lined_up_tail [OF "2.prems"]) simp_all
  show ?case
  proof (cases "?key \<in> set blocked")
    case True
    then have "lined_up bs blocked W" using lined_up_tail [OF "2.prems"] by blast
    then show ?thesis using "2.IH"(1) [OF refl True] True by simp
  next
    case key: False
    show ?thesis
    proof (cases "rootFor H dec (kw_ledger W) b")
      case (Inl e)
      then show ?thesis using key W by simp
    next
      case root: (Inr r)
      show ?thesis
      proof (cases r)
        case (Inl tradeId)
        then show ?thesis using "2.IH"(2) [OF refl key root Inl next_blocked] key root by simp
      next
        case r: (Inr root_hex)
        show ?thesis
        proof (cases "ordinals (bt_seasonId b)")
          case None
          then show ?thesis using key root r W by simp
        next
          case n: (Some n)
          show ?thesis
          proof (cases wxs)
            case Nil
            then show ?thesis using key root r n W by simp
          next
            case wxs: (Cons wx wxs')
            obtain out W1 where run: "commit_batch H now wx n b root_hex W = (out, W1)" by fastforce
            note c = commit_batch_ilist [OF run]
            have blk: "lined_up bs (?key # blocked) W1"
            proof (cases "ilist W1 = ilist W")
              case True
              then show ?thesis using lined_up_cong next_blocked c by blast
            next
              case False
              then obtain p q where "ilist W1 = ilist W @ [intent_for b root_hex p q]" using c by blast
              then have "lined_up bs blocked W1" using lined_up_commit [OF "2.prems" key] c by blast
              then show ?thesis by (rule lined_up_block)
            qed
            note ih = "2.IH"(3,4) [OF refl key root r n wxs run [symmetric]]
            show ?thesis
            proof (cases out)
              case (Committed i)
              then have "lined_up bs blocked W1" using lined_up_commit [OF "2.prems" key] c by blast
              then show ?thesis using ih(1) [OF Committed] Committed key root r n wxs run by simp
            next
              case Not_committed
              then show ?thesis using ih(2) [OF Not_committed blk] key root r n wxs run by simp
            qed (use lined_up_tiled [OF blk] key root r n wxs run in simp_all)
          qed
        qed
      qed
    qed
  qed
qed

lemma tiled_marks [simp]:
  "tiled (restarted W) = tiled W" "tiled (markConfirmed i tx k now W) = tiled W" "tiled (W\<lparr>kw_halted := x\<rparr>) = tiled W"
  by (rule tiled_cong; simp)+

lemma discard_tiled:
  assumes W: "world_ok H W" "tiled W" and p: "p \<in> unconfirmed W" and n: "season_ordinals (kw_ledger W) (ci_seasonId p) = Some n"
  shows "tiled (discardIntent (cm_id p) W)"
proof -
  let ?W = "discardIntent (cm_id p) W"
  have ids: "ids_ok W" and pin: "p \<in> set (kw_commits W)" "cm_confirmedAt p = None"
    using W(1) p by (simp_all add: world_ok_def unconfirmed_def)
  have keep: "\<not> (cm_id c = cm_id p \<and> cm_confirmedAt c = None) \<longleftrightarrow> c \<noteq> p" if "c \<in> set (kw_commits W)" for c
    using ids_distinct [OF ids that pin(1)] pin(2) by auto
  have rows: "kw_commits ?W = filter (\<lambda>c. c \<noteq> p) (kw_commits W)" using keep by (simp add: discardIntent_def cong: filter_cong)
  have own: "own s u (kw_commits ?W) = filter (\<lambda>c. c \<noteq> p) (own s u (kw_commits W))" for s u
    by (simp add: rows own_def conj_commute)
  obtain cs acc where cs: "own (ci_seasonId p) (ci_user p) (kw_commits W) = cs @ [p]" "settled H cs acc"
    using pending_record [OF W(1) p n] by metis
  have "p \<notin> set cs" using cs(2) pin(2) chained_confirmed unfolding settled_def by blast
  then have mine: "own (ci_seasonId p) (ci_user p) (kw_commits ?W) = cs" unfolding own cs(1) by (auto simp: filter_id_conv)
  have "\<exists>rest. tiles s u ?W rest" for s u
  proof -
    obtain segs rest where t: "list_all2 tile (intents_of s u W) segs" "record_ids (kw_ledger W) s u = concat segs @ rest"
      using W(2) unfolding tiled_def tiles_def by blast
    show ?thesis
    proof (cases "(s, u) = (ci_seasonId p, ci_user p)")
      case True
      then have "intents_of s u W = intents_of s u ?W @ [commit_intent.truncate p]" using cs(1) mine by (simp add: intents_of_def)
      with t(1) obtain segs' seg where "segs = segs' @ [seg]" "list_all2 tile (intents_of s u ?W) segs'"
        by (auto simp: list_all2_append1 list_all2_Cons1)
      then show ?thesis using t(2) unfolding tiles_def by (intro exI [of _ "seg @ rest"] exI [of _ segs']) (simp add: discardIntent_def)
    next
      case False
      then have "p \<notin> set (own s u (kw_commits W))" by (auto simp: own_def)
      then have "own s u (kw_commits ?W) = own s u (kw_commits W)" unfolding own by (auto simp: filter_id_conv)
      then show ?thesis using t unfolding tiles_def by (intro exI [of _ rest] exI [of _ segs]) (simp add: intents_of_def discardIntent_def)
    qed
  qed
  then show ?thesis using W(2) by (simp add: tiled_def discardIntent_def)
qed

lemma reconcile_one_tiled:
  assumes W: "world_ok H W" "tiled W" and p: "p \<in> unconfirmed W"
    and run: "reconcile_one (season_ordinals (kw_ledger W)) now readable p W = (r, W')"
  shows "tiled W'"
proof (cases "season_ordinals (kw_ledger W) (ci_seasonId p)")
  case None
  with W run show ?thesis by (simp add: reconcile_one_def)
next
  case (Some n)
  have "W' = W \<or> (\<exists>tx k. W' = markConfirmed (cm_id p) tx k now W) \<or> W' = discardIntent (cm_id p) W \<or> W' = W\<lparr>kw_halted := True\<rparr>"
    using run Some by (auto simp: reconcile_one_def Let_def split: if_splits)
  then show ?thesis using W(2) discard_tiled [OF W p Some] by auto
qed

lemma reconcile_tiled:
  "world_ok H W \<Longrightarrow> distinct ps \<Longrightarrow> set ps \<subseteq> unconfirmed W \<Longrightarrow> tiled W
    \<Longrightarrow> reconcile (season_ordinals (kw_ledger W)) now ps reads W = (r, W') \<Longrightarrow> tiled W'"
proof (induction ps arbitrary: reads W)
  case (Cons p ps)
  show ?case
  proof (cases reads)
    case Nil
    then show ?thesis using Cons.prems by auto
  next
    case reads: (Cons x xs)
    obtain v W1 where one: "reconcile_one (season_ordinals (kw_ledger W)) now x p W = (v, W1)" by fastforce
    have p: "p \<in> unconfirmed W" using Cons.prems(3) by simp
    note k = reconcile_one_keeps [OF Cons.prems(1) p one] reconcile_one_tiled [OF Cons.prems(1,4) p one]
    show ?thesis
    proof (cases "v = Some True")
      case True
      have sub: "set ps \<subseteq> unconfirmed W1" using k(1) True Cons.prems(2,3) by auto
      have "reconcile (season_ordinals (kw_ledger W1)) now ps xs W1 = (r, W')"
        using Cons.prems(5) reads one True k(1) by simp
      from Cons.IH [OF _ _ sub k(2) this] Cons.prems(2) k(1) show ?thesis by simp
    next
      case False
      then have "W' = W1" using Cons.prems(5) reads one by (auto split: option.splits bool.splits)
      with k(2) show ?thesis by simp
    qed
  qed
qed auto

lemma trading_tiled:
  assumes "tiled W" "grows (kw_ledger W) L'"
  shows "tiled (W\<lparr>kw_ledger := L'\<rparr>)"
proof -
  obtain ts where ts: "trades L' = trades (kw_ledger W) @ ts" "length ts \<le> 1" "\<forall>t \<in> set ts. \<forall>u \<in> set (trades (kw_ledger W)). tr_id u < tr_id t"
    using assms(2) unfolding grows_def by blast
  have "sorted_wrt (<) (map tr_id ts)" using ts(2) by (cases ts) simp_all
  then have "sorted_wrt (<) (map tr_id (trades L'))" using assms(1) ts(1,3) by (auto simp: tiled_def sorted_wrt_append)
  moreover have "\<exists>rest. tiles s u (W\<lparr>kw_ledger := L'\<rparr>) rest" for s u
  proof -
    obtain segs rest where t: "list_all2 tile (intents_of s u W) segs" "record_ids (kw_ledger W) s u = concat segs @ rest"
      using assms(1) unfolding tiled_def tiles_def by blast
    have "\<exists>more. record_ids L' s u = record_ids (kw_ledger W) s u @ more" by (simp add: record_ids_def ts(1))
    then show ?thesis using t unfolding tiles_def by (auto simp: intents_of_def)
  qed
  ultimately show ?thesis by (simp add: tiled_def)
qed

definition in_order :: "(byte list \<Rightarrow> byte list) \<Rightarrow> keeper_world \<Rightarrow> bool" where
  "in_order H W \<longleftrightarrow> unhalted H W \<and> tiled W"

lemma runOnce_tiled:
  assumes c: "collates collate" and W: "in_order H W"
  shows "tiled (runOnce H dec collate (season_ordinals (kw_ledger W)) now reads wxs W)"
proof -
  have W: "world_ok H W" "\<not> kw_halted W" "ids_ok W" "tiled W" using W by (simp_all add: in_order_def unhalted_def world_ok_def)
  obtain r W1 where rec: "reconcile (season_ordinals (kw_ledger W)) now (pendingCommits W) reads W = (r, W1)" by fastforce
  have t: "tiled W1" using reconcile_tiled [OF W(1) pending_distinct [OF W(3)] _ W(4) rec] pending_rows by blast
  show ?thesis
  proof (cases "r = Some True")
    case True
    show ?thesis
    proof (cases "planBatches collate (uncommittedTrades W1 5000) DEFAULT_MAX_BATCH")
      case (Inl e)
      then show ?thesis using True rec t by (simp add: runOnce_def)
    next
      case (Inr bs)
      have "lined_up bs [] W1" unfolding lined_up_def
        using plan_continues [OF c t Inr] planned_whole [OF Inr] t by (simp add: tiled_def)
      then show ?thesis using True rec Inr run_batches_tiled by (simp add: runOnce_def)
    qed
  next
    case False
    then have "runOnce H dec collate (season_ordinals (kw_ledger W)) now reads wxs W = W1"
      using rec by (auto simp: runOnce_def split: option.splits bool.splits)
    then show ?thesis using t by simp
  qed
qed

lemma run_keeper_in_order:
  assumes "collates collate" "in_order H W" "weathered op"
  shows "in_order H (run_keeper H dec collate W op)"
proof -
  have "tiled (run_keeper H dec collate W op)"
  proof (cases op)
    case (Trading lop)
    then show ?thesis using assms(2) trading_tiled run_op_grows by (auto simp: run_keeper_def in_order_def)
  next
    case (Cycle deployed now reads wxs)
    then show ?thesis using assms(2) runOnce_tiled [OF assms(1,2)] by (simp add: run_keeper_def keeper_tick_def in_order_def)
  qed (use assms(2) in \<open>simp_all add: run_keeper_def in_order_def\<close>)
  then show ?thesis using run_keeper_unhalted assms(2,3) by (simp add: in_order_def)
qed

interpretation orderly: loop "run_keeper H dec collate" weathered "\<lambda>W. collates collate \<longrightarrow> in_order H W" for H dec collate
  by unfold_locales (use run_keeper_in_order in blast)

lemma new_world_in_order:
  "distinct (map te_id ss) \<Longrightarrow> distinct (map te_ordinal ss) \<Longrightarrow> in_order H (new_world ss)"
  using new_world_unhalted by (simp add: in_order_def tiled_def tiles_def new_world_def new_ledger_def record_ids_def intents_of_def own_def)

lemma runs_in_order:
  assumes "distinct (map te_id ss)" "distinct (map te_ordinal ss)" "list_all weathered ops" "collates collate"
  shows "in_order H (foldl (run_keeper H dec collate) (new_world ss) ops)"
  using orderly.fold_inv [where H = H and dec = dec and collate = collate] new_world_in_order [OF assms(1,2)] assms(3,4) by blast

section \<open>What follows\<close>

lemma leavesFor_sealed:
  "leavesFor H dec xs = Inr (Inr ls) \<Longrightarrow> x \<in> set xs \<Longrightarrow> \<exists>h. hashLeaf H dec (toLeaf x) = Inr h \<and> toHex h = tr_leafHash (ld_trade x)"
proof (induction xs arbitrary: ls)
  case (Cons y ys)
  then obtain h rest where h: "hashLeaf H dec (toLeaf y) = Inr h" "toHex h = tr_leafHash (ld_trade y)"
    and rest: "leavesFor H dec ys = Inr rest" "(case rest of Inl i \<Rightarrow> Inl i | Inr ls \<Rightarrow> Inr (toLeaf y # ls)) = Inr ls"
    by (auto split: if_splits)
  obtain ls' where "rest = Inr ls'" using rest(2) by (cases rest) auto
  then have "\<exists>h. hashLeaf H dec (toLeaf x) = Inr h \<and> toHex h = tr_leafHash (ld_trade x)" if "x \<in> set ys"
    using Cons.IH rest(1) that by blast
  then show ?case using h Cons.prems(2) by auto
qed simp

lemma map_filter_length: "\<forall>x \<in> set xs. f x \<noteq> None \<Longrightarrow> length (List.map_filter f xs) = length xs"
  by (induction xs) (auto simp: List.map_filter_simps split: option.splits)

lemma committed_range_loads:
  assumes t: "tiled W" and b: "rebuildable H dec W" and c: "c \<in> set (kw_commits W)"
  obtains leaves where "leavesFor H dec (loadTrades (kw_ledger W) (ci_seasonId c) (ci_user c) (ci_from c) (ci_to c)) = Inr (Inr leaves)"
    "int (length leaves) = ci_leafCount c" "season_of (kw_ledger W) (ci_seasonId c) \<noteq> None"
proof -
  let ?L = "kw_ledger W" and ?s = "ci_seasonId c" and ?u = "ci_user c"
  let ?X = "loadTrades ?L ?s ?u (ci_from c) (ci_to c)"
  let ?P = "\<lambda>t. tw_seasonId (tr_write t) = ?s \<and> tw_user (tr_write t) = ?u \<and> ci_from c \<le> tr_id t \<and> tr_id t \<le> ci_to c"
  have i: "commit_intent.truncate c \<in> set (intents_of ?s ?u W)" using c by (simp add: intents_of_own)
  obtain segs rest where s: "list_all2 tile (intents_of ?s ?u W) segs" "record_ids ?L ?s ?u = concat segs @ rest"
    using t unfolding tiled_def tiles_def by blast
  have "sorted_wrt (<) (concat segs @ rest)" using t sorted_record_ids [of ?L ?s ?u] by (simp add: tiled_def s(2))
  from tiled_range [OF s(1) this i] obtain seg where "tile (commit_intent.truncate c) seg"
    "filter (\<lambda>x. ci_from c \<le> x \<and> x \<le> ci_to c) (record_ids ?L ?s ?u) = seg"
    by (auto simp: commit_intent.defs s(2))
  then have "int (length (filter (\<lambda>x. ci_from c \<le> x \<and> x \<le> ci_to c) (record_ids ?L ?s ?u))) = ci_leafCount c"
    by (simp add: tile_def commit_intent.defs)
  then have n: "int (length (filter ?P (trades ?L))) = ci_leafCount c"
    by (simp add: record_ids_def filter_map comp_def conj_ac)
  have "built H dec ?L (commit_intent.truncate c)" using b c by (auto simp: rebuildable_def intents_def)
  then obtain p where p: "bt_seasonId p = ?s" "bt_user p = ?u" "bt_from p = ci_from c" "bt_to p = ci_to c"
      "int (length (bt_tradeIds p)) = ci_leafCount c" "season_of ?L ?s \<noteq> None" "rootFor H dec ?L p = Inr (Inr (ci_merkleRoot c))"
    by (auto simp: built_def commit_intent.defs)
  have "load_row ?L t \<noteq> None" if "t \<in> set (filter ?P (trades ?L))" for t
  proof -
    have "tr_snapshotId t \<in> ss_id ` set (snapshots ?L)" using that b by (auto simp: rebuildable_def snapped_def)
    then have "snapshot_of ?L (tr_snapshotId t) \<noteq> None" by (auto simp: snapshot_of_def find_None_iff)
    then show ?thesis using that p(6) by (auto simp: load_row_def)
  qed
  then have X: "length ?X = length (filter ?P (trades ?L))" unfolding loadTrades_def length_js_sort by (intro map_filter_length) blast
  let ?own = "filter (\<lambda>x. tr_id (ld_trade x) \<in> set (bt_tradeIds p)) ?X"
  have "length ?own = length (bt_tradeIds p)" using p(7) unfolding rootFor_def p(1-4) Let_def by (auto split: if_splits)
  also have "\<dots> = length ?X" using p(5) n X by simp
  finally have own: "?own = ?X" by (metis filter_id_conv length_filter_less nat_less_le)
  then obtain y where y: "leavesFor H dec ?X = Inr y" "(case y of Inl i \<Rightarrow> Inr (Inl i) | Inr leaves \<Rightarrow>
      rbind (traverse (hashLeaf H dec) leaves) (\<lambda>hs. rbind (merkleRoot H hs) (\<lambda>r. Inr (Inr (toHex r))))) = Inr (Inr (ci_merkleRoot c))"
    using p(7) unfolding rootFor_def p(1-4) Let_def by (auto split: if_splits)
  then obtain leaves where l: "leavesFor H dec ?X = Inr (Inr leaves)" by (cases y) auto
  then show thesis using that X n p(6) leavesFor_leaves [OF l] by simp
qed

text \<open>
  C5: the commits of a record tile its trades. In the order they were written, the commits hold
  consecutive runs of the trades of the record from the first one on; none is skipped, none is
  committed twice, and what is left waits behind them.
\<close>

theorem commits_tile_the_record:
  assumes "distinct (map te_id ss)" "distinct (map te_ordinal ss)" "list_all weathered ops" "collates collate"
    and "W = foldl (run_keeper H dec collate) (new_world ss) ops"
  shows "\<exists>runs rest. record_ids (kw_ledger W) s u = concat runs @ rest \<and> distinct (concat runs @ rest)
    \<and> list_all2 (\<lambda>c run. run \<noteq> [] \<and> ci_from c = hd run \<and> ci_to c = last run \<and> ci_leafCount c = int (length run)
        \<and> run = filter (\<lambda>i. ci_from c \<le> i \<and> i \<le> ci_to c) (record_ids (kw_ledger W) s u)) (own s u (kw_commits W)) runs"
proof -
  have t: "tiled W" using runs_in_order [OF assms(1-4)] by (simp add: in_order_def assms(5))
  then obtain segs rest where s: "list_all2 tile (intents_of s u W) segs" "record_ids (kw_ledger W) s u = concat segs @ rest"
    unfolding tiled_def tiles_def by blast
  have srt: "sorted_wrt (<) (concat segs @ rest)" using t sorted_record_ids [of "kw_ledger W" s u] by (simp add: tiled_def s(2))
  have "list_all2 (\<lambda>c run. run \<noteq> [] \<and> ci_from c = hd run \<and> ci_to c = last run \<and> ci_leafCount c = int (length run)
        \<and> run = filter (\<lambda>i. ci_from c \<le> i \<and> i \<le> ci_to c) (record_ids (kw_ledger W) s u)) (own s u (kw_commits W)) segs"
  proof (rule list_all2_all_nthI)
    show n: "length (own s u (kw_commits W)) = length segs" using list_all2_lengthD [OF s(1)] by (simp add: intents_of_def)
    fix k assume k: "k < length (own s u (kw_commits W))"
    let ?c = "own s u (kw_commits W) ! k"
    have i: "tile (commit_intent.truncate ?c) (segs ! k)" using list_all2_nthD [OF s(1), of k] k by (simp add: intents_of_def)
    have "concat segs = concat (take k segs) @ segs ! k @ concat (drop (Suc k) segs)"
      by (metis concat.simps(2) concat_append id_take_nth_drop k n)
    then have "filter (\<lambda>x. hd (segs ! k) \<le> x \<and> x \<le> last (segs ! k)) (concat segs @ rest) = segs ! k"
      using between_segment [of "concat (take k segs)" "segs ! k" "concat (drop (Suc k) segs) @ rest"] srt i by (simp add: tile_def)
    then show "segs ! k \<noteq> [] \<and> ci_from ?c = hd (segs ! k) \<and> ci_to ?c = last (segs ! k) \<and> ci_leafCount ?c = int (length (segs ! k))
        \<and> segs ! k = filter (\<lambda>i. ci_from ?c \<le> i \<and> i \<le> ci_to ?c) (record_ids (kw_ledger W) s u)"
      using i by (simp add: tile_def commit_intent.defs s(2))
  qed
  moreover have "distinct (concat segs @ rest)" using srt strict_sorted_iff by blast
  ultimately show ?thesis using s(2) by blast
qed

lemma covered_is_sealed:
  assumes t: "tiled W" and b: "rebuildable H dec W" and c: "c \<in> set (kw_commits W)" "t \<in> set (trades (kw_ledger W))" "covers c t"
  shows "\<exists>x h. load_row (kw_ledger W) t = Some x \<and> hashLeaf H dec (toLeaf x) = Inr h \<and> toHex h = tr_leafHash t"
proof -
  from committed_range_loads [OF t b c(1)] obtain leaves where
    l: "leavesFor H dec (loadTrades (kw_ledger W) (ci_seasonId c) (ci_user c) (ci_from c) (ci_to c)) = Inr (Inr leaves)"
    and season: "season_of (kw_ledger W) (ci_seasonId c) \<noteq> None" by blast
  have "snapshot_of (kw_ledger W) (tr_snapshotId t) \<noteq> None"
    using b c(2) by (auto simp: rebuildable_def snapped_def snapshot_of_def find_None_iff) (metis imageE image_subset_iff)
  then obtain x where x: "load_row (kw_ledger W) t = Some x" "ld_trade x = t"
    using season c(3) by (auto simp: load_row_def covers_def)
  have "x \<in> set (loadTrades (kw_ledger W) (ci_seasonId c) (ci_user c) (ci_from c) (ci_to c))"
    using x(1) c(2,3) unfolding loadTrades_def set_js_sort in_map_filter by (auto simp: covers_def)
  from leavesFor_sealed [OF l this] x show ?thesis by auto
qed

text \<open>
  C28: only sealed trades are committed. Every trade a commit covers is rebuilt from the stored
  rows, its snapshot and its season, to the hash that was sealed with it when it filled.
\<close>

theorem committed_trades_are_sealed:
  assumes "distinct (map te_id ss)" "distinct (map te_ordinal ss)" "list_all weathered ops" "collates collate"
    and "W = foldl (run_keeper H dec collate) (new_world ss) ops"
    and "c \<in> set (kw_commits W)" "t \<in> set (trades (kw_ledger W))" "covers c t"
  shows "\<exists>x h. load_row (kw_ledger W) t = Some x \<and> hashLeaf H dec (toLeaf x) = Inr h \<and> toHex h = tr_leafHash t"
proof -
  have "tiled W" using runs_in_order [OF assms(1-4)] by (simp add: in_order_def assms(5))
  moreover have "rebuildable H dec W" unfolding assms(5) by (rule stored.fold_inv [OF new_world_rebuildable]) (simp add: list_all_iff)
  ultimately show ?thesis using assms(6-8) by (rule covered_is_sealed)
qed

text \<open>
  C27: the proof of a record is always served. For every season there is, if the stored trades of
  the record can be hashed at all, the endpoint answers with every committed batch.
\<close>

theorem proof_is_always_served:
  assumes "distinct (map te_id ss)" "distinct (map te_ordinal ss)" "list_all weathered ops" "collates collate"
    and "W = foldl (run_keeper H dec collate) (new_world ss) ops" "season_ordinals (kw_ledger W) s = Some n"
    and "\<forall>x \<in> set (loadTrades (kw_ledger W) s trader 0 MAX_SAFE_INTEGER). \<exists>h. hashLeaf H dec (toLeaf x) = Inr h"
  shows "\<exists>P. serve_proof H dec W trader (Some n) = Inr P \<and> sv_seasonId P = s \<and> sv_ordinal P = n
    \<and> map fst (sv_batches P) = map published (commitHistory W s trader)"
proof -
  let ?L = "kw_ledger W"
  have o: "in_order H W" using runs_in_order [OF assms(1-4)] by (simp add: assms(5))
  then have t: "tiled W" and w: "world_ok H W" by (simp_all add: in_order_def unhalted_def)
  have b: "rebuildable H dec W" unfolding assms(5) by (rule stored.fold_inv [OF new_world_rebuildable]) (simp add: list_all_iff)
  have ok: "seasons_ok ?L" using w by (simp add: world_ok_def)
  then obtain r where r: "r \<in> set (seasons ?L)" "te_id r = s" "te_ordinal r = n"
    using assms(6) by (auto simp: season_ordinals_Some seasons_ok_def)
  then obtain r' where r': "List.find (\<lambda>s. te_ordinal s = n) (seasons ?L) = Some r'"
    by (cases "List.find (\<lambda>s. te_ordinal s = n) (seasons ?L)") (auto simp: find_None_iff)
  then have "r' \<in> set (seasons ?L)" "te_ordinal r' = n" by (auto simp: find_Some_iff)
  then have "r' = r" using r ok by (auto simp: seasons_ok_def distinct_map dest: inj_onD)
  have one: "\<exists>leaves. proof_batch H dec ?L s trader c = Inr (published c, leaves)" if "c \<in> set (commitHistory W s trader)" for c
  proof -
    have c: "c \<in> set (kw_commits W)" "ci_seasonId c = s" "ci_user c = trader" using that by (auto simp: commitHistory_def)
    from committed_range_loads [OF t b c(1)] obtain leaves where
      "leavesFor H dec (loadTrades ?L s trader (ci_from c) (ci_to c)) = Inr (Inr leaves)" "int (length leaves) = ci_leafCount c"
      unfolding c(2,3) by blast
    then show ?thesis by (simp add: proof_batch_def)
  qed
  then obtain f where f: "\<And>c. c \<in> set (commitHistory W s trader) \<Longrightarrow> proof_batch H dec ?L s trader c = Inr (published c, f c)" by metis
  have bs: "traverse (proof_batch H dec ?L s trader) (commitHistory W s trader) = Inr (map (\<lambda>c. (published c, f c)) (commitHistory W s trader))"
    by (rule traverse_pure) (rule f)
  obtain g where "\<And>x. x \<in> set (loadTrades ?L s trader 0 MAX_SAFE_INTEGER) \<Longrightarrow> hashLeaf H dec (toLeaf x) = Inr (g x)" using assms(7) by metis
  then have rows: "traverse (record_row H dec) (loadTrades ?L s trader 0 MAX_SAFE_INTEGER)
      = Inr (map (\<lambda>x. (toLeaf x, tr_leafHash (ld_trade x), toHex (g x))) (loadTrades ?L s trader 0 MAX_SAFE_INTEGER))"
    by (intro traverse_pure) (simp add: record_row_def)
  show ?thesis using r' \<open>r' = r\<close> r bs rows by (simp add: serve_proof_def Let_def comp_def)
qed

section \<open>Ann's record, for the witnesses\<close>

definition recorded_story :: "keeper_world \<Rightarrow> bool" where
  "recorded_story W \<longleftrightarrow> list_ex (\<lambda>c. list_ex (covers c) (trades (kw_ledger W))) (kw_commits W)
     \<and> list_all (\<lambda>x. case hashLeaf counting_hash key_of (toLeaf x) of Inl _ \<Rightarrow> False | Inr _ \<Rightarrow> True)
         (loadTrades (kw_ledger W) 1 ''ann'' 0 MAX_SAFE_INTEGER)
     \<and> length (own 1 ''ann'' (kw_commits W)) = 1"

lemma ann_story_recorded: "recorded_story (keep_ann ann_story)"
  by code_simp

theorem commits_tile_the_record_witness:
  "\<exists>run rest. record_ids (kw_ledger (keep_ann ann_story)) 1 ''ann'' = run @ rest \<and> run \<noteq> []"
proof -
  have "distinct (map te_id [])" "distinct (map te_ordinal [])" by simp_all
  from commits_tile_the_record [OF this story_weathered text_order_collates refl, where H = counting_hash and dec = key_of and s = 1 and u = "''ann''"]
  obtain runs rest where r: "record_ids (kw_ledger (keep_ann ann_story)) 1 ''ann'' = concat runs @ rest"
    "list_all2 (\<lambda>c run. run \<noteq> []) (own 1 ''ann'' (kw_commits (keep_ann ann_story))) runs"
    by (elim exE conjE) (erule meta_allE, erule meta_allE, drule meta_mp, assumption, drule meta_mp, erule list_all2_mono, rule conjunct1, assumption, assumption)
  have "length runs = 1" using list_all2_lengthD [OF r(2)] ann_story_recorded by (simp add: recorded_story_def)
  then obtain run where "runs = [run]" by (auto simp: length_Suc_conv)
  with r show ?thesis by (auto simp: list_all2_Cons2)
qed

theorem committed_trades_are_sealed_witness:
  "\<exists>t x h. t \<in> set (trades (kw_ledger (keep_ann ann_story))) \<and> load_row (kw_ledger (keep_ann ann_story)) t = Some x
     \<and> hashLeaf counting_hash key_of (toLeaf x) = Inr h \<and> toHex h = tr_leafHash t"
proof -
  obtain c t where c: "c \<in> set (kw_commits (keep_ann ann_story))" "t \<in> set (trades (kw_ledger (keep_ann ann_story)))" "covers c t"
    using ann_story_recorded unfolding recorded_story_def list_ex_iff by blast
  have "distinct (map te_id [])" "distinct (map te_ordinal [])" by simp_all
  from committed_trades_are_sealed [OF this story_weathered text_order_collates refl c] c(2) show ?thesis by blast
qed

theorem proof_is_always_served_witness:
  "\<exists>P. serve_proof counting_hash key_of (keep_ann ann_story) ''ann'' (Some (- 1)) = Inr P \<and> length (sv_batches P) = 1"
proof -
  have "\<forall>x \<in> set (loadTrades (kw_ledger (keep_ann ann_story)) 1 ''ann'' 0 MAX_SAFE_INTEGER). \<exists>h. hashLeaf counting_hash key_of (toLeaf x) = Inr h"
    using ann_story_recorded unfolding recorded_story_def list_all_iff by (fastforce split: sum.splits)
  moreover have "distinct (map te_id [])" "distinct (map te_ordinal [])" by simp_all
  ultimately have "\<exists>P. serve_proof counting_hash key_of (keep_ann ann_story) ''ann'' (Some (- 1)) = Inr P \<and> sv_seasonId P = 1 \<and> sv_ordinal P = - 1
      \<and> map fst (sv_batches P) = map published (commitHistory (keep_ann ann_story) 1 ''ann'')"
    by (intro proof_is_always_served [OF _ _ story_weathered text_order_collates refl conjunct1 [OF ann_story_values]])
  then obtain P where P: "serve_proof counting_hash key_of (keep_ann ann_story) ''ann'' (Some (- 1)) = Inr P"
    "map fst (sv_batches P) = map published (commitHistory (keep_ann ann_story) 1 ''ann'')" by blast
  have "length (sv_batches P) = 1" using arg_cong [OF P(2), of length] ann_story_values by simp
  with P(1) show ?thesis by blast
qed

section \<open>A broken seal\<close>

lemma run_batches_ledger: "kw_ledger (run_batches H dec ordinals now blocked bs wxs W) = kw_ledger W"
proof (induction H dec ordinals now blocked bs wxs W rule: run_batches.induct)
  case (2 H dec ordinals now blocked b bs wxs W)
  then show ?case
    by (auto simp: Let_def dest: commit_batch_ilist split: sum.splits option.splits list.splits prod.splits commit_outcome.splits)
qed simp

lemma runOnce_ledger: "kw_ledger (runOnce H dec collate ordinals now reads wxs W) = kw_ledger W"
proof -
  obtain r W1 where rec: "reconcile ordinals now (pendingCommits W) reads W = (r, W1)" by fastforce
  then show ?thesis using reconcile_intents [OF rec] run_batches_ledger
    by (cases "r = Some True") (auto simp: runOnce_def split: option.splits bool.splits sum.splits)
qed

definition lasts :: "stored_trade \<Rightarrow> loaded_trade \<Rightarrow> keeper_world \<Rightarrow> bool" where
  "lasts t x W \<longleftrightarrow> t \<in> set (trades (kw_ledger W)) \<and> load_row (kw_ledger W) t = Some x"

lemma load_row_lasts: "grows L L' \<Longrightarrow> load_row L t = Some x \<Longrightarrow> load_row L' t = Some x"
  by (auto simp: load_row_def snapshot_of_def season_of_def grows_def find_append split: option.splits)

lemma run_keeper_lasts: "lasts t x W \<Longrightarrow> lasts t x (run_keeper H dec collate W op)"
proof (cases op)
  case (Trading lop)
  moreover assume "lasts t x W"
  moreover have g: "grows (kw_ledger W) (run_op H dec (kw_ledger W) lop)" using run_op_grows by blast
  ultimately show ?thesis using load_row_lasts [OF g] by (auto simp: lasts_def run_keeper_def grows_def)
qed (simp_all add: lasts_def run_keeper_def keeper_tick_def runOnce_ledger restarted_def)

interpretation lasting: loop "run_keeper H dec collate" "\<lambda>_. True" "lasts t x" for H dec collate t x
  by unfold_locales (rule run_keeper_lasts)

lemma covered_prefix:
  assumes "tiled W" "t \<in> set (trades (kw_ledger W))" "t' \<in> set (trades (kw_ledger W))" "c \<in> set (kw_commits W)" "covers c t'"
    and "tw_seasonId (tr_write t) = tw_seasonId (tr_write t')" "tw_user (tr_write t) = tw_user (tr_write t')" "tr_id t \<le> tr_id t'"
  shows "\<exists>d \<in> set (kw_commits W). covers d t"
proof -
  let ?s = "tw_seasonId (tr_write t)" and ?u = "tw_user (tr_write t)"
  obtain segs rest where s: "list_all2 tile (intents_of ?s ?u W) segs" "record_ids (kw_ledger W) ?s ?u = concat segs @ rest"
    using assms(1) unfolding tiled_def tiles_def by blast
  have srt: "sorted_wrt (<) (concat segs @ rest)" using assms(1) sorted_record_ids [of "kw_ledger W" ?s ?u] by (simp add: tiled_def s(2))
  have ids: "tr_id t \<in> set (concat segs @ rest)" "tr_id t' \<in> set (concat segs @ rest)"
    unfolding s(2) [symmetric] using assms(2,3,6,7) by (auto simp: record_ids_def)
  have "\<exists>i \<in> set (intents_of ?s ?u W). ci_from i \<le> tr_id t' \<and> tr_id t' \<le> ci_to i"
    using assms(4-7) by (force simp: intents_of_own covers_def commit_intent.defs)
  then have "tr_id t' \<in> set (concat segs)" using covered_iff [OF s(1) srt ids(2)] by blast
  moreover have "tr_id t \<notin> set rest \<or> tr_id t' \<notin> set (concat segs)"
    using srt assms(8) unfolding sorted_wrt_append by fastforce
  ultimately have "tr_id t \<in> set (concat segs)" using ids(1) by auto
  then have "\<exists>i \<in> set (intents_of ?s ?u W). ci_from i \<le> tr_id t \<and> tr_id t \<le> ci_to i" using covered_iff [OF s(1) srt ids(1)] by blast
  then show ?thesis by (auto simp: intents_of_own covers_def commit_intent.defs)
qed

text \<open>
  C26: a trade whose seal is broken ends its record. If a stored trade does not rebuild to its
  hash, because another reading of its pool had been stored for the same slot, then whatever
  happens afterwards neither it nor any further trade of the wallet in that season is ever committed.
\<close>

theorem broken_seal_ends_the_record:
  assumes "distinct (map te_id ss)" "distinct (map te_ordinal ss)" "list_all weathered (ops @ later)" "collates collate"
    and "W = foldl (run_keeper H dec collate) (new_world ss) ops" "W' = foldl (run_keeper H dec collate) W later"
    and "t \<in> set (trades (kw_ledger W))" "load_row (kw_ledger W) t = Some x" "hashLeaf H dec (toLeaf x) = Inr h" "toHex h \<noteq> tr_leafHash t"
    and "t' \<in> set (trades (kw_ledger W'))" "tw_seasonId (tr_write t') = tw_seasonId (tr_write t)" "tw_user (tr_write t') = tw_user (tr_write t)"
      "tr_id t \<le> tr_id t'"
  shows "\<not> list_ex (\<lambda>c. covers c t') (kw_commits W')"
proof
  assume "list_ex (\<lambda>c. covers c t') (kw_commits W')"
  then obtain c where c: "c \<in> set (kw_commits W')" "covers c t'" by (auto simp: list_ex_iff)
  have W': "W' = foldl (run_keeper H dec collate) (new_world ss) (ops @ later)" by (simp add: assms(5,6))
  have tl: "tiled W'" using runs_in_order [OF assms(1-4)] unfolding W' by (simp add: in_order_def)
  have b: "rebuildable H dec W'" unfolding W' by (rule stored.fold_inv [OF new_world_rebuildable]) (simp add: list_all_iff)
  have "lasts t x W'" unfolding assms(6) by (rule lasting.fold_inv) (simp_all add: lasts_def assms(7,8) list_all_iff)
  then have t: "t \<in> set (trades (kw_ledger W'))" "load_row (kw_ledger W') t = Some x" by (simp_all add: lasts_def)
  obtain d where "d \<in> set (kw_commits W')" "covers d t"
    using covered_prefix [OF tl t(1) assms(11) c] assms(12-14) by auto
  from covered_is_sealed [OF tl b this(1) t(1) this(2)] t(2) assms(9,10) show False by auto
qed

definition moved_market :: market_read where
  "moved_market = Resolved (Some (launch_pool\<lparr>solReserve := solReserve launch_pool + 1000000\<rparr>)) 400000000"

text \<open>Ann and Bob buy in the same slot, and the pool moves within it.\<close>

definition bob_order :: trade_request where
  "bob_order = (ann_order 10000000000 Buy 1000000000 20)\<lparr>rq_user := ''bob'',
     rq_account := (ann_account 10000000000)\<lparr>av_id := 2, av_user := ''bob''\<rparr>\<rparr>"

definition one_slot :: "keeper_op list" where
  "one_slot = map Trading (ann_arrives @ [Visit 1 ''bob'' 15, Place_order False bob_order moved_market moved_market (new_ledger [])])"

definition reserve_hash :: "byte list \<Rightarrow> byte list" where
  "reserve_hash b = take 32 (drop 110 b)"

definition some_broken :: "keeper_world \<Rightarrow> bool" where
  "some_broken W \<longleftrightarrow> list_ex (\<lambda>t. case load_row (kw_ledger W) t of None \<Rightarrow> False
     | Some x \<Rightarrow> (case hashLeaf reserve_hash key_of (toLeaf x) of Inl _ \<Rightarrow> False | Inr h \<Rightarrow> toHex h \<noteq> tr_leafHash t)) (trades (kw_ledger W))"

lemma one_slot_breaks: "some_broken (foldl (run_keeper reserve_hash key_of text_order) (new_world []) one_slot)"
  by code_simp

theorem broken_seal_ends_the_record_witness:
  "\<exists>t \<in> set (trades (kw_ledger (foldl (run_keeper reserve_hash key_of text_order) (new_world []) one_slot))).
     \<not> list_ex (\<lambda>c. covers c t) (kw_commits (foldl (run_keeper reserve_hash key_of text_order)
       (foldl (run_keeper reserve_hash key_of text_order) (new_world []) one_slot) [Cycle True 100 [] [], Cycle True 160 [] []]))"
proof -
  let ?W = "foldl (run_keeper reserve_hash key_of text_order) (new_world []) one_slot"
  let ?later = "[Cycle True 100 [] [], Cycle True 160 [] []]"
  obtain t where "t \<in> set (trades (kw_ledger ?W))" "case load_row (kw_ledger ?W) t of None \<Rightarrow> False
     | Some x \<Rightarrow> (case hashLeaf reserve_hash key_of (toLeaf x) of Inl _ \<Rightarrow> False | Inr h \<Rightarrow> toHex h \<noteq> tr_leafHash t)"
    using one_slot_breaks unfolding some_broken_def list_ex_iff by blast
  then obtain x h where t: "t \<in> set (trades (kw_ledger ?W))" "load_row (kw_ledger ?W) t = Some x"
      "hashLeaf reserve_hash key_of (toLeaf x) = Inr h" "toHex h \<noteq> tr_leafHash t"
    by (auto split: option.splits sum.splits)
  have weather: "list_all weathered (one_slot @ ?later)" by (simp add: one_slot_def ann_arrives_def)
  have "lasts t x (foldl (run_keeper reserve_hash key_of text_order) ?W ?later)"
    by (rule lasting.fold_inv) (simp_all add: lasts_def t(1,2))
  then have "t \<in> set (trades (kw_ledger (foldl (run_keeper reserve_hash key_of text_order) ?W ?later)))" unfolding lasts_def by blast
  moreover have "distinct (map te_id [])" "distinct (map te_ordinal [])" by simp_all
  ultimately have "\<not> list_ex (\<lambda>c. covers c t) (kw_commits (foldl (run_keeper reserve_hash key_of text_order) ?W ?later))"
    by (intro broken_seal_ends_the_record [OF _ _ weather text_order_collates refl refl t]) simp_all
  with t(1) show ?thesis by blast
qed

end
