(* ===== verification/Duels.thy ===== *)
theory Duels
  imports Board
begin

text \<open>
  Head to head duels: the agreement and its arithmetic (packages/db/src/duels.ts), what an account
  is worth (app/lib/duel-equity.ts), the route that offers and answers (app/app/api/duel/route.ts)
  and the worker that closes them (app/lib/duel-settle.ts). A duel moves no money. What a statement
  read before it wrote is an argument of its own, so requests may interleave in any way. The pools
  that could be read, by token, and the hash of a seal are parameters.
\<close>

section \<open>The table\<close>

datatype duel_status = D_offered | D_live | D_settled | D_declined | D_withdrawn | D_expired

record duel_row =
  du_id :: int
  du_seasonId :: int
  du_challenger :: string
  du_opponent :: string
  du_status :: duel_status
  du_windowSeconds :: int
  du_createdAt :: int
  du_offerExpiresAt :: int
  du_startedAt :: "int option"
  du_endsAt :: "int option"
  du_settledAt :: "int option"
  du_challengerOpen :: "int option"
  du_opponentOpen :: "int option"
  du_challengerClose :: "int option"
  du_opponentClose :: "int option"
  du_challengerBps :: "int option"
  du_opponentBps :: "int option"
  du_unpricedOpen :: int
  du_unpricedClose :: int
  du_winner :: "string option"
  du_seal :: "string option"

text \<open>The refusals of duels.ts, then those of the route.\<close>

datatype duel_error =
    Yourself | No_such_window | In_a_duel | Offer_between_you | Too_many_offers
  | No_such_duel | Not_offered_to_you | Not_your_offer | Not_an_offer duel_status | Offer_lapsed
  | You_are_busy | They_are_busy | No_longer_open
  | Nobody_by_that_name | No_season_to_duel_in | Season_not_open | You_have_not_entered | They_have_not_entered
  | Past_the_end | No_account

definition DUEL_WINDOWS :: "int list" where "DUEL_WINDOWS = [3600, 21600, 86400]"

definition OFFER_TTL_MS :: int where "OFFER_TTL_MS = 30 * 60000"

definition MAX_OPEN_OFFERS :: nat where "MAX_OPEN_OFFERS = 5"

abbreviation fights :: "string \<Rightarrow> duel_row \<Rightarrow> bool" where
  "fights u d \<equiv> du_challenger d = u \<or> du_opponent d = u"

abbreviation is_live :: "duel_row \<Rightarrow> bool" where
  "is_live d \<equiv> du_status d = D_live"

definition new_duel :: "int \<Rightarrow> int \<Rightarrow> string \<Rightarrow> string \<Rightarrow> int \<Rightarrow> int \<Rightarrow> duel_row" where
  "new_duel i seasonId challenger opponent windowSeconds now = \<lparr>du_id = i, du_seasonId = seasonId, du_challenger = challenger,
     du_opponent = opponent, du_status = D_offered, du_windowSeconds = windowSeconds, du_createdAt = now,
     du_offerExpiresAt = now + OFFER_TTL_MS, du_startedAt = None, du_endsAt = None, du_settledAt = None,
     du_challengerOpen = None, du_opponentOpen = None, du_challengerClose = None, du_opponentClose = None,
     du_challengerBps = None, du_opponentBps = None, du_unpricedOpen = 0, du_unpricedClose = 0, du_winner = None, du_seal = None\<rparr>"

text \<open>The checks see \<open>seen\<close>; the insert goes into \<open>T\<close>.\<close>

definition offerDuel :: "duel_row list \<Rightarrow> int \<Rightarrow> string \<Rightarrow> string \<Rightarrow> int \<Rightarrow> int \<Rightarrow> duel_row list \<Rightarrow> duel_error + duel_row \<times> duel_row list" where
  "offerDuel seen seasonId challenger opponent windowSeconds now T =
     (if challenger = opponent then Inl Yourself
      else if windowSeconds \<notin> set DUEL_WINDOWS then Inl No_such_window
      else if list_ex (\<lambda>d. is_live d \<and> (fights challenger d \<or> fights opponent d)) seen then Inl In_a_duel
      else if list_ex (\<lambda>d. du_status d = D_offered \<and> du_offerExpiresAt d > now
          \<and> (du_challenger d = challenger \<and> du_opponent d = opponent \<or> du_challenger d = opponent \<and> du_opponent d = challenger)) seen
      then Inl Offer_between_you
      else if length (filter (\<lambda>d. du_challenger d = challenger \<and> du_status d = D_offered \<and> du_offerExpiresAt d > now) seen) \<ge> MAX_OPEN_OFFERS
      then Inl Too_many_offers
      else let d = new_duel (next_id (map du_id T)) seasonId challenger opponent windowSeconds now in Inr (d, T @ [d]))"

definition duelById :: "duel_row list \<Rightarrow> int \<Rightarrow> duel_row option" where
  "duelById T i = List.find (\<lambda>d. du_id d = i) T"

text \<open>An update of the rows that match, and the first row it returns.\<close>

definition update_duels :: "(duel_row \<Rightarrow> bool) \<Rightarrow> (duel_row \<Rightarrow> duel_row) \<Rightarrow> duel_row list \<Rightarrow> duel_row list" where
  "update_duels hit f T = map (\<lambda>d. if hit d then f d else d) T"

text \<open>The partial unique indexes: one live duel per challenger, and one per opponent.\<close>

definition live_indexes_hold :: "duel_row list \<Rightarrow> bool" where
  "live_indexes_hold T \<longleftrightarrow> distinct (map du_challenger (filter is_live T)) \<and> distinct (map du_opponent (filter is_live T))"

definition started :: "int \<Rightarrow> int \<Rightarrow> int \<Rightarrow> int \<Rightarrow> int \<Rightarrow> duel_row \<Rightarrow> duel_row" where
  "started windowSeconds challengerOpen opponentOpen unpriced now d = d\<lparr>du_status := D_live, du_startedAt := Some now,
     du_endsAt := Some (now + windowSeconds * 1000), du_challengerOpen := Some challengerOpen,
     du_opponentOpen := Some opponentOpen, du_unpricedOpen := unpriced\<rparr>"

definition acceptDuel :: "duel_row list \<Rightarrow> duel_row list \<Rightarrow> int \<Rightarrow> string \<Rightarrow> int \<Rightarrow> int \<Rightarrow> int \<Rightarrow> int \<Rightarrow> duel_row list
    \<Rightarrow> duel_error + duel_row \<times> duel_row list" where
  "acceptDuel seen busy i opponent challengerOpen opponentOpen unpriced now T = (case duelById seen i of
       None \<Rightarrow> Inl No_such_duel
     | Some d \<Rightarrow>
         if du_opponent d \<noteq> opponent then Inl Not_offered_to_you
         else if du_status d \<noteq> D_offered then Inl (Not_an_offer (du_status d))
         else if du_offerExpiresAt d \<le> now then Inl Offer_lapsed
         else (case List.find (\<lambda>x. is_live x \<and> (fights (du_challenger d) x \<or> fights (du_opponent d) x)) busy of
             Some x \<Rightarrow> Inl (if fights (du_opponent d) x then You_are_busy else They_are_busy)
           | None \<Rightarrow>
               let hit = (\<lambda>x. du_id x = i \<and> du_status x = D_offered \<and> du_offerExpiresAt x > now);
                   T' = update_duels hit (started (du_windowSeconds d) challengerOpen opponentOpen unpriced now) T in
               if \<not> live_indexes_hold T' then Inl In_a_duel
               else (case List.find hit T of
                   None \<Rightarrow> Inl No_longer_open
                 | Some x \<Rightarrow> Inr (started (du_windowSeconds d) challengerOpen opponentOpen unpriced now x, T'))))"

text \<open>Decline an offer, or withdraw one's own.\<close>

definition closeOffer :: "duel_row list \<Rightarrow> int \<Rightarrow> string \<Rightarrow> bool \<Rightarrow> duel_row list \<Rightarrow> duel_error + duel_row \<times> duel_row list" where
  "closeOffer seen i by_user declined T = (case duelById seen i of
       None \<Rightarrow> Inl No_such_duel
     | Some d \<Rightarrow>
         if du_status d \<noteq> D_offered then Inl (Not_an_offer (du_status d))
         else if (if declined then du_opponent d else du_challenger d) \<noteq> by_user
         then Inl (if declined then Not_offered_to_you else Not_your_offer)
         else let hit = (\<lambda>x. du_id x = i \<and> du_status x = D_offered);
                  close = (\<lambda>x. x\<lparr>du_status := if declined then D_declined else D_withdrawn\<rparr>) in
           (case List.find hit T of
              None \<Rightarrow> Inl No_longer_open
            | Some x \<Rightarrow> Inr (close x, update_duels hit close T)))"

definition duel_returnBps :: "int \<Rightarrow> int \<Rightarrow> int" where
  "duel_returnBps from_equity to_equity = (if from_equity \<le> 0 then 0
     else to_num (((to_equity - from_equity) * 10000) sdiv from_equity))"

fun join_lines :: "string list \<Rightarrow> string" where
  "join_lines [] = []"
| "join_lines [x] = x"
| "join_lines (x # xs) = x @ CHR 0x0A # join_lines xs"

definition duel_seal_body :: "duel_row \<Rightarrow> string" where
  "duel_seal_body d = join_lines
     [''duel/1'', show_int (du_id d), show_int (du_seasonId d), du_challenger d, du_opponent d,
      show_int (the (du_startedAt d)), show_int (the (du_endsAt d)),
      show_int (the (du_challengerOpen d)), show_int (the (du_opponentOpen d)),
      show_int (the (du_challengerClose d)), show_int (the (du_opponentClose d)),
      show_int (du_unpricedOpen d), show_int (du_unpricedClose d)]"

definition duelSeal :: "(string \<Rightarrow> string) \<Rightarrow> duel_row \<Rightarrow> string" where
  "duelSeal sha d = sha (duel_seal_body d)"

definition dueDuels :: "duel_row list \<Rightarrow> int \<Rightarrow> nat \<Rightarrow> duel_row list" where
  "dueDuels T now limit = take limit (js_sort (\<lambda>l r. the (du_endsAt l) - the (du_endsAt r))
     (filter (\<lambda>d. is_live d \<and> sql_holds (\<lambda>t. t \<le> now) (du_endsAt d)) T))"

text \<open>The result is worked out from the row that was read, and written if it is live still.\<close>

definition scored :: "(string \<Rightarrow> string) \<Rightarrow> duel_row \<Rightarrow> int \<Rightarrow> int \<Rightarrow> int \<Rightarrow> int \<Rightarrow> duel_row \<Rightarrow> duel_row" where
  "scored sha d challengerClose opponentClose unpriced now x =
     (let c = duel_returnBps (the (du_challengerOpen d)) challengerClose;
          p = duel_returnBps (the (du_opponentOpen d)) opponentClose in
      x\<lparr>du_status := D_settled, du_settledAt := Some now, du_challengerClose := Some challengerClose,
        du_opponentClose := Some opponentClose, du_challengerBps := Some c, du_opponentBps := Some p,
        du_unpricedClose := unpriced,
        du_winner := (if c = p then None else if c > p then Some (du_challenger d) else Some (du_opponent d)),
        du_seal := Some (duelSeal sha (d\<lparr>du_challengerClose := Some challengerClose, du_opponentClose := Some opponentClose,
          du_unpricedClose := unpriced\<rparr>))\<rparr>)"

definition settleDuel :: "(string \<Rightarrow> string) \<Rightarrow> duel_row list \<Rightarrow> int \<Rightarrow> int \<Rightarrow> int \<Rightarrow> int \<Rightarrow> int \<Rightarrow> duel_row list
    \<Rightarrow> duel_row option \<times> duel_row list" where
  "settleDuel sha seen i challengerClose opponentClose unpriced now T = (case duelById seen i of
       None \<Rightarrow> (None, T)
     | Some d \<Rightarrow>
         if \<not> is_live d \<or> du_challengerOpen d = None \<or> du_opponentOpen d = None \<or> du_startedAt d = None \<or> du_endsAt d = None
         then (None, T)
         else let hit = (\<lambda>x. du_id x = i \<and> is_live x);
                  score = scored sha d challengerClose opponentClose unpriced now in
           (map_option score (List.find hit T), update_duels hit score T))"

definition expireOffers :: "int \<Rightarrow> duel_row list \<Rightarrow> nat \<times> duel_row list" where
  "expireOffers now T = (let hit = (\<lambda>d. du_status d = D_offered \<and> du_offerExpiresAt d \<le> now) in
     (length (filter hit T), update_duels hit (\<lambda>d. d\<lparr>du_status := D_expired\<rparr>) T))"

definition duelsFor :: "duel_row list \<Rightarrow> string \<Rightarrow> nat \<Rightarrow> duel_row list" where
  "duelsFor T user limit = take limit (js_sort (\<lambda>l r. du_createdAt r - du_createdAt l) (filter (fights user) T))"

definition liveDuelFor :: "duel_row list \<Rightarrow> string \<Rightarrow> duel_row option" where
  "liveDuelFor T user = List.find (\<lambda>d. is_live d \<and> fights user d) T"

record duel_record =
  dr_won :: nat
  dr_lost :: nat
  dr_drawn :: nat

fun count_duels :: "string \<Rightarrow> duel_row list \<Rightarrow> duel_record \<Rightarrow> duel_record" where
  "count_duels user [] r = r"
| "count_duels user (d # ds) r = count_duels user ds (case du_winner d of
       None \<Rightarrow> r\<lparr>dr_drawn := dr_drawn r + 1\<rparr>
     | Some w \<Rightarrow> if w = user then r\<lparr>dr_won := dr_won r + 1\<rparr> else r\<lparr>dr_lost := dr_lost r + 1\<rparr>)"

definition duelRecord :: "duel_row list \<Rightarrow> string \<Rightarrow> duel_record" where
  "duelRecord T user = count_duels user (filter (\<lambda>d. du_status d = D_settled \<and> fights user d) T)
     \<lparr>dr_won = 0, dr_lost = 0, dr_drawn = 0\<rparr>"

definition recentDuels :: "duel_row list \<Rightarrow> nat \<Rightarrow> duel_row list" where
  "recentDuels T limit = take limit (js_sort (\<lambda>l r. the (du_settledAt r) - the (du_settledAt l)) (filter (\<lambda>d. du_status d = D_settled) T))"

section \<open>What an account is worth\<close>

text \<open>\<open>pools\<close> gives the reserves of a token's pool, if it has one that could be read.\<close>

definition spot_price :: "(string \<Rightarrow> (int \<times> int) option) \<Rightarrow> string \<Rightarrow> int option" where
  "spot_price pools m = (case pools m of
       None \<Rightarrow> None
     | Some (sol, tokens) \<Rightarrow> (case priceFromReserves sol tokens of Inl _ \<Rightarrow> None | Inr p \<Rightarrow> Some p))"

definition equityOf :: "(string \<Rightarrow> (int \<times> int) option) \<Rightarrow> 'a ledger_scheme \<Rightarrow> account_view \<Rightarrow> int \<times> int" where
  "equityOf pools L a = foldl (\<lambda>(value, unpriced) p. case spot_price pools (po_mint p) of
       None \<Rightarrow> (value + po_costBasis p, unpriced + 1)
     | Some price \<Rightarrow> (value + (po_tokenAmount p * price) sdiv PRICE_SCALE, unpriced))
     (av_solBalance a, 0) (openPositions L (av_id a))"

section \<open>The route and the worker\<close>

record arena =
  ar_bank :: bank
  ar_duels :: "duel_row list"

text \<open>\<open>POST\<close>: \<open>whom\<close> is the wallet the name or address resolved to; \<open>rows\<close> are the seasons as they were read.\<close>

definition offer_route :: "season_row list \<Rightarrow> arena \<Rightarrow> string \<Rightarrow> string option \<Rightarrow> int \<Rightarrow> int \<Rightarrow> arena \<Rightarrow> (duel_error + duel_row) \<times> arena" where
  "offer_route rows seen user whom windowSeconds now A =
     (if windowSeconds \<notin> set DUEL_WINDOWS then (Inl No_such_window, A)
      else case currentRankedSeason rows now of
        None \<Rightarrow> (Inl No_season_to_duel_in, A)
      | Some season \<Rightarrow>
          if \<not> seasonTradingOpen season now then (Inl Season_not_open, A)
          else case whom of
            None \<Rightarrow> (Inl Nobody_by_that_name, A)
          | Some opponent \<Rightarrow>
              if opponent = user then (Inl Yourself, A)
              else if \<not> hasEntered (ar_bank seen) (row_id season) user then (Inl You_have_not_entered, A)
              else if \<not> hasEntered (ar_bank seen) (row_id season) opponent then (Inl They_have_not_entered, A)
              else case offerDuel (ar_duels seen) (row_id season) user opponent windowSeconds now (ar_duels A) of
                  Inl e \<Rightarrow> (Inl e, A)
                | Inr (d, T) \<Rightarrow> (Inr d, A\<lparr>ar_duels := T\<rparr>))"

definition close_route :: "arena \<Rightarrow> string \<Rightarrow> int \<Rightarrow> bool \<Rightarrow> arena \<Rightarrow> (duel_error + duel_row) \<times> arena" where
  "close_route seen user i declined A = (case closeOffer (ar_duels seen) i user declined (ar_duels A) of
       Inl e \<Rightarrow> (Inl e, A) | Inr (d, T) \<Rightarrow> (Inr d, A\<lparr>ar_duels := T\<rparr>))"

text \<open>
  \<open>PATCH\<close> with \<open>accept\<close>, in two parts, since the pools are read in between: the accounts are
  ensured, then both are valued and the duel is accepted. \<open>now\<close> is when the request came, \<open>now2\<close>
  when the valuation was done.
\<close>

definition ready_to_accept :: "season_row list \<Rightarrow> arena \<Rightarrow> int \<Rightarrow> int \<Rightarrow> duel_error + duel_row" where
  "ready_to_accept rows seen i now = (case duelById (ar_duels seen) i of
       None \<Rightarrow> Inl No_such_duel
     | Some d \<Rightarrow> (case currentRankedSeason rows now of
         None \<Rightarrow> Inl Season_not_open
       | Some season \<Rightarrow>
           if \<not> seasonTradingOpen season now \<or> row_id season \<noteq> du_seasonId d then Inl Season_not_open
           else if sql_holds (\<lambda>t. now + du_windowSeconds d * 1000 > t) (row_endsAt season) then Inl Past_the_end
           else Inr d))"

definition accept_route :: "season_row list \<Rightarrow> arena \<Rightarrow> arena \<Rightarrow> string \<Rightarrow> int \<Rightarrow> int \<Rightarrow> int \<Rightarrow> (string \<Rightarrow> (int \<times> int) option) \<Rightarrow> arena
    \<Rightarrow> (duel_error + duel_row) \<times> arena" where
  "accept_route rows seen busy user i now now2 pools A = (case ready_to_accept rows seen i now of
       Inl e \<Rightarrow> (Inl e, A)
     | Inr d \<Rightarrow> (case rbind (ensureAccount (du_seasonId d) (du_challenger d) now (ar_bank A)) (\<lambda>(challenger, B1).
           rbind (ensureAccount (du_seasonId d) (du_opponent d) now B1) (\<lambda>(opponent, B2). Inr (challenger, opponent, B2))) of
         Inl _ \<Rightarrow> (Inl No_account, A)
       | Inr (challenger, opponent, B) \<Rightarrow>
           (case (equityOf pools B challenger, equityOf pools B opponent) of ((a, ua), (b, ub)) \<Rightarrow>
             (case acceptDuel (ar_duels seen) (ar_duels busy) i user a b (ua + ub) now2 (ar_duels A) of
                Inl e \<Rightarrow> (Inl e, A\<lparr>ar_bank := B\<rparr>)
              | Inr (d', T) \<Rightarrow> (Inr d', A\<lparr>ar_bank := B, ar_duels := T\<rparr>)))))"

text \<open>One duel of a tick; without both accounts it fails and stays as it was.\<close>

definition settle_one :: "(string \<Rightarrow> string) \<Rightarrow> arena \<Rightarrow> (string \<Rightarrow> (int \<times> int) option) \<Rightarrow> int \<Rightarrow> duel_row \<Rightarrow> arena \<Rightarrow> bool \<times> arena" where
  "settle_one sha seen pools now d A =
     (case (accountFor (ar_bank seen) (du_seasonId d) (du_challenger d), accountFor (ar_bank seen) (du_seasonId d) (du_opponent d)) of
        (Some c, Some p) \<Rightarrow>
          (case (equityOf pools (ar_bank seen) c, equityOf pools (ar_bank seen) p) of ((a, ua), (b, ub)) \<Rightarrow>
            (case settleDuel sha (ar_duels seen) (du_id d) a b (ua + ub) now (ar_duels A) of
               (r, T) \<Rightarrow> (r \<noteq> None, A\<lparr>ar_duels := T\<rparr>)))
      | _ \<Rightarrow> (False, A))"

fun settle_due :: "(string \<Rightarrow> string) \<Rightarrow> (string \<Rightarrow> (int \<times> int) option) \<Rightarrow> int \<Rightarrow> duel_row list \<Rightarrow> arena \<Rightarrow> nat \<times> arena" where
  "settle_due sha pools now [] A = (0, A)"
| "settle_due sha pools now (d # ds) A = (case settle_one sha A pools now d A of
     (ok, A') \<Rightarrow> (case settle_due sha pools now ds A' of (n, A'') \<Rightarrow> (if ok then n + 1 else n, A'')))"

definition duel_tick :: "(string \<Rightarrow> string) \<Rightarrow> (string \<Rightarrow> (int \<times> int) option) \<Rightarrow> int \<Rightarrow> arena \<Rightarrow> (nat \<times> nat) \<times> arena" where
  "duel_tick sha pools now A = (case expireOffers now (ar_duels A) of
     (lapsed, T) \<Rightarrow> (case settle_due sha pools now (dueDuels T now 20) (A\<lparr>ar_duels := T\<rparr>) of
       (n, A') \<Rightarrow> ((lapsed, n), A')))"

section \<open>A client of the duels\<close>

text \<open>
  The states so far, the newest first. A request reads any of them, \<open>0\<close> for the newest, and writes
  to the newest.
\<close>

datatype duel_op =
    At_the_bank bank_op
  | Offer "season_row list" nat string "string option" int int
  | Close nat string int bool
  | Accept "season_row list" nat nat string int int int "string \<Rightarrow> (int \<times> int) option"
  | Settle nat int nat nat "string \<Rightarrow> (int \<times> int) option" int
  | Expire int

definition ago :: "nat \<Rightarrow> arena list \<Rightarrow> arena" where
  "ago k hist = hist ! min k (length hist - 1)"

definition next_arena :: "(byte list \<Rightarrow> byte list) \<Rightarrow> (string \<Rightarrow> byte list option) \<Rightarrow> (string \<Rightarrow> chain_read) \<Rightarrow> (string \<Rightarrow> string)
    \<Rightarrow> arena list \<Rightarrow> duel_op \<Rightarrow> arena" where
  "next_arena H dec chain sha hist op = (let A = hd hist in case op of
       At_the_bank bop \<Rightarrow> A\<lparr>ar_bank := run_bank H dec chain (ar_bank A) bop\<rparr>
     | Offer rows k user whom windowSeconds now \<Rightarrow> snd (offer_route rows (ago k hist) user whom windowSeconds now A)
     | Close k user i declined \<Rightarrow> snd (close_route (ago k hist) user i declined A)
     | Accept rows k b user i now now2 pools \<Rightarrow> snd (accept_route rows (ago k hist) (ago b hist) user i now now2 pools A)
     | Settle k0 now0 n k pools now \<Rightarrow> (case drop n (dueDuels (ar_duels (ago k0 hist)) now0 20) of
           [] \<Rightarrow> A | d # _ \<Rightarrow> snd (settle_one sha (ago k hist) pools now d A))
     | Expire now \<Rightarrow> A\<lparr>ar_duels := snd (expireOffers now (ar_duels A))\<rparr>)"

definition run_arena :: "(byte list \<Rightarrow> byte list) \<Rightarrow> (string \<Rightarrow> byte list option) \<Rightarrow> (string \<Rightarrow> chain_read) \<Rightarrow> (string \<Rightarrow> string)
    \<Rightarrow> arena list \<Rightarrow> duel_op \<Rightarrow> arena list" where
  "run_arena H dec chain sha hist op = next_arena H dec chain sha hist op # hist"

section \<open>How a row may change\<close>

definition same_terms :: "duel_row \<Rightarrow> duel_row \<Rightarrow> bool" where
  "same_terms d e \<longleftrightarrow> du_id e = du_id d \<and> du_seasonId e = du_seasonId d \<and> du_challenger e = du_challenger d
     \<and> du_opponent e = du_opponent d \<and> du_windowSeconds e = du_windowSeconds d"

definition same_start :: "duel_row \<Rightarrow> duel_row \<Rightarrow> bool" where
  "same_start d e \<longleftrightarrow> du_startedAt e = du_startedAt d \<and> du_endsAt e = du_endsAt d \<and> du_challengerOpen e = du_challengerOpen d
     \<and> du_opponentOpen e = du_opponentOpen d \<and> du_unpricedOpen e = du_unpricedOpen d"

definition duel_step :: "duel_row \<Rightarrow> duel_row \<Rightarrow> bool" where
  "duel_step d e \<longleftrightarrow> same_terms d e \<and> (e = d \<or> du_status d = D_offered
     \<or> is_live d \<and> du_status e = D_settled \<and> same_start d e)"

lemma duel_step_refl [simp]: "duel_step d d"
  by (simp add: duel_step_def same_terms_def)

lemma duel_step_trans: "duel_step d e \<Longrightarrow> duel_step e f \<Longrightarrow> duel_step d f"
  by (auto simp: duel_step_def same_terms_def same_start_def)

lemma live_stays: "duel_step d e \<Longrightarrow> is_live d \<Longrightarrow> is_live e \<Longrightarrow> e = d"
  by (auto simp: duel_step_def)

definition evolves :: "duel_row list \<Rightarrow> duel_row list \<Rightarrow> bool" where
  "evolves T T' \<longleftrightarrow> (\<forall>d \<in> set T. \<exists>e \<in> set T'. duel_step d e)"

lemma evolves_refl [simp]: "evolves T T"
  unfolding evolves_def using duel_step_refl by blast

lemma evolves_trans: "evolves T T' \<Longrightarrow> evolves T' T'' \<Longrightarrow> evolves T T''"
  unfolding evolves_def using duel_step_trans by blast

lemma update_evolves: "(\<And>d. d \<in> set T \<Longrightarrow> hit d \<Longrightarrow> duel_step d (f d)) \<Longrightarrow> evolves T (update_duels hit f T)"
  unfolding evolves_def
proof
  fix d assume a: "\<And>d. d \<in> set T \<Longrightarrow> hit d \<Longrightarrow> duel_step d (f d)" and d: "d \<in> set T"
  then have "(if hit d then f d else d) \<in> set (update_duels hit f T)" by (simp add: update_duels_def)
  moreover have "duel_step d (if hit d then f d else d)" using a d by simp
  ultimately show "\<exists>e \<in> set (update_duels hit f T). duel_step d e" by blast
qed

definition sound_duel :: "(string \<Rightarrow> string) \<Rightarrow> duel_row \<Rightarrow> bool" where
  "sound_duel sha d \<longleftrightarrow> du_challenger d \<noteq> du_opponent d \<and> du_windowSeconds d \<in> set DUEL_WINDOWS
     \<and> (is_live d \<or> du_status d = D_settled \<longrightarrow> (\<exists>s a b. du_startedAt d = Some s \<and> du_endsAt d = Some (s + du_windowSeconds d * 1000)
          \<and> du_challengerOpen d = Some a \<and> du_opponentOpen d = Some b))
     \<and> (du_status d = D_settled \<longrightarrow> (\<exists>c p. du_challengerClose d = Some c \<and> du_opponentClose d = Some p
          \<and> du_challengerBps d = Some (duel_returnBps (the (du_challengerOpen d)) c)
          \<and> du_opponentBps d = Some (duel_returnBps (the (du_opponentOpen d)) p)
          \<and> du_winner d = (if the (du_challengerBps d) = the (du_opponentBps d) then None
              else if the (du_challengerBps d) > the (du_opponentBps d) then Some (du_challenger d) else Some (du_opponent d))
          \<and> du_seal d = Some (duelSeal sha d)))"

definition duels_ok :: "(string \<Rightarrow> string) \<Rightarrow> duel_row list \<Rightarrow> bool" where
  "duels_ok sha T \<longleftrightarrow> distinct (map du_id T) \<and> list_all (sound_duel sha) T \<and> live_indexes_hold T"

lemma duelById_in: "duelById T i = Some d \<Longrightarrow> d \<in> set T \<and> du_id d = i"
  unfolding duelById_def by (metis (mono_tags, lifting) find_Some_iff nth_mem)

lemma same_row: "distinct (map du_id T) \<Longrightarrow> d \<in> set T \<Longrightarrow> e \<in> set T \<Longrightarrow> du_id d = du_id e \<Longrightarrow> d = e"
  by (auto simp: distinct_map dest: inj_onD)

lemma duel_update_ids [simp]: "(\<And>d. du_id (f d) = du_id d) \<Longrightarrow> map du_id (update_duels hit f T) = map du_id T"
  by (simp add: update_duels_def)

lemma update_sound:
  "list_all (sound_duel sha) T \<Longrightarrow> (\<And>d. d \<in> set T \<Longrightarrow> hit d \<Longrightarrow> sound_duel sha d \<Longrightarrow> sound_duel sha (f d))
    \<Longrightarrow> list_all (sound_duel sha) (update_duels hit f T)"
  by (auto simp: list_all_iff update_duels_def)

text \<open>Leaving the live rows out of the indexes keeps them.\<close>

lemma live_fewer:
  assumes "live_indexes_hold T" "\<And>d. is_live (g d) \<Longrightarrow> is_live d"
    "\<And>d. du_challenger (g d) = du_challenger d \<and> du_opponent (g d) = du_opponent d"
  shows "live_indexes_hold (map g T)"
proof -
  have "filter is_live (map g T) = map g (filter (\<lambda>d. is_live (g d)) (filter is_live T))"
    using assms(2) by (auto simp: filter_map comp_def intro!: arg_cong [where f = "map g"] filter_cong)
  then have k: "map k (filter is_live (map g T)) = map k (filter (\<lambda>d. is_live (g d)) (filter is_live T))"
    if "\<And>d. k (g d) = k d" for k :: "duel_row \<Rightarrow> string" using that by simp
  have "distinct (map k (filter is_live (map g T)))" if "\<And>d. k (g d) = k d" "distinct (map k (filter is_live T))" for k :: "duel_row \<Rightarrow> string"
    unfolding k [of k, OF that(1)] by (rule distinct_map_filter [OF that(2)])
  then show ?thesis using assms(1,3) by (simp add: live_indexes_hold_def)
qed

section \<open>Every statement keeps the table\<close>

lemma offer_keeps:
  assumes "duels_ok sha T" "offerDuel seen s c p w now T = Inr (d, T')"
  shows "duels_ok sha T' \<and> evolves T T'"
proof -
  have c: "c \<noteq> p" "w \<in> set DUEL_WINDOWS" and d: "d = new_duel (next_id (map du_id T)) s c p w now" and T': "T' = T @ [d]"
    using assms(2) by (auto simp: offerDuel_def Let_def split: if_splits)
  have "sound_duel sha d" using c by (simp add: d new_duel_def sound_duel_def)
  moreover have "distinct (map du_id T')" using assms(1) next_id_new [of "map du_id T"] by (auto simp: T' d new_duel_def duels_ok_def)
  moreover have "live_indexes_hold T'" using assms(1) by (simp add: T' d new_duel_def duels_ok_def live_indexes_hold_def)
  moreover have "evolves T T'" unfolding T' evolves_def using duel_step_refl by (metis UnI1 set_append)
  ultimately show ?thesis using assms(1) by (simp add: duels_ok_def T')
qed

lemma accept_keeps:
  assumes T: "duels_ok sha T" and e: "evolves seen T" and run: "acceptDuel seen busy i u a b n now T = Inr (x, T')"
  shows "duels_ok sha T' \<and> evolves T T'"
proof -
  obtain d where d: "duelById seen i = Some d" using run by (auto simp: acceptDuel_def split: option.splits)
  let ?f = "started (du_windowSeconds d) a b n now" and ?hit = "\<lambda>x. du_id x = i \<and> du_status x = D_offered \<and> du_offerExpiresAt x > now"
  have T': "T' = update_duels ?hit ?f T" "live_indexes_hold T'"
    using run d by (auto simp: acceptDuel_def Let_def split: option.splits if_splits)
  have din: "d \<in> set seen" "du_id d = i" using duelById_in [OF d] by simp_all
  then obtain e0 where e0: "e0 \<in> set T" "duel_step d e0" using e by (auto simp: evolves_def)
  have w: "du_windowSeconds x = du_windowSeconds d" if "x \<in> set T" "?hit x" for x
  proof -
    have "du_id e0 = i" using e0(2) din(2) by (simp add: duel_step_def same_terms_def)
    then have "e0 = x" using same_row [OF _ e0(1) that(1)] T that(2) by (simp add: duels_ok_def)
    then show ?thesis using e0(2) by (simp add: duel_step_def same_terms_def)
  qed
  have "sound_duel sha (?f x)" if "x \<in> set T" "?hit x" "sound_duel sha x" for x
    using that(3) w [OF that(1,2)] by (simp add: sound_duel_def started_def)
  then have "list_all (sound_duel sha) T'" unfolding T'(1) using T by (intro update_sound) (simp_all add: duels_ok_def)
  moreover have "evolves T T'" unfolding T'(1) by (rule update_evolves) (simp add: duel_step_def same_terms_def started_def)
  moreover have "distinct (map du_id T')" using T unfolding T'(1) by (simp add: started_def duels_ok_def)
  ultimately show ?thesis using T'(2) by (simp add: duels_ok_def)
qed

lemma leave_indexes:
  assumes "live_indexes_hold T" "\<And>d. \<not> is_live (f d)" "\<And>d. du_challenger (f d) = du_challenger d \<and> du_opponent (f d) = du_opponent d"
  shows "live_indexes_hold (update_duels hit f T)"
  unfolding update_duels_def by (rule live_fewer [OF assms(1)]) (use assms(2,3) in \<open>auto split: if_splits\<close>)

lemma close_keeps:
  assumes T: "duels_ok sha T" and run: "closeOffer seen i u declined T = Inr (x, T')"
  shows "duels_ok sha T' \<and> evolves T T'"
proof -
  let ?f = "\<lambda>x. x\<lparr>du_status := if declined then D_declined else D_withdrawn\<rparr>" and ?hit = "\<lambda>x. du_id x = i \<and> du_status x = D_offered"
  have T': "T' = update_duels ?hit ?f T" using run by (auto simp: closeOffer_def Let_def split: option.splits if_splits)
  have "list_all (sound_duel sha) T'" unfolding T' using T
    by (intro update_sound) (simp_all add: duels_ok_def sound_duel_def)
  moreover have "evolves T T'" unfolding T' by (rule update_evolves) (simp add: duel_step_def same_terms_def)
  moreover have "live_indexes_hold T'" unfolding T' using T by (intro leave_indexes) (simp_all add: duels_ok_def)
  ultimately show ?thesis using T unfolding T' by (simp add: duels_ok_def)
qed

lemma expire_keeps:
  assumes "duels_ok sha T"
  shows "duels_ok sha (snd (expireOffers now T)) \<and> evolves T (snd (expireOffers now T))"
proof -
  let ?f = "\<lambda>d. d\<lparr>du_status := D_expired\<rparr>" and ?hit = "\<lambda>d. du_status d = D_offered \<and> du_offerExpiresAt d \<le> now"
  have T': "snd (expireOffers now T) = update_duels ?hit ?f T" by (simp add: expireOffers_def Let_def)
  have "list_all (sound_duel sha) (update_duels ?hit ?f T)" using assms by (intro update_sound) (simp_all add: duels_ok_def sound_duel_def)
  moreover have "evolves T (update_duels ?hit ?f T)" by (rule update_evolves) (simp add: duel_step_def same_terms_def)
  moreover have "live_indexes_hold (update_duels ?hit ?f T)" using assms by (intro leave_indexes) (simp_all add: duels_ok_def)
  ultimately show ?thesis using assms unfolding T' by (simp add: duels_ok_def)
qed

text \<open>A result is written over the very row it was worked out from.\<close>

lemma settle_keeps:
  assumes T: "duels_ok sha T" and e: "evolves seen T" and run: "settleDuel sha seen i c p n now T = (r, T')"
  shows "duels_ok sha T' \<and> evolves T T'"
proof (cases "T' = T")
  case True
  then show ?thesis using T by simp
next
  case False
  then obtain d where d: "duelById seen i = Some d" "is_live d" and T': "T' = update_duels (\<lambda>x. du_id x = i \<and> is_live x) (scored sha d c p n now) T"
    using run by (auto simp: settleDuel_def Let_def split: option.splits if_splits)
  let ?f = "scored sha d c p n now" and ?hit = "\<lambda>x. du_id x = i \<and> is_live x"
  have din: "d \<in> set seen" "du_id d = i" using duelById_in [OF d(1)] by simp_all
  then obtain e0 where e0: "e0 \<in> set T" "duel_step d e0" using e by (auto simp: evolves_def)
  have same: "x = d" if "x \<in> set T" "?hit x" for x
  proof -
    have "du_id e0 = i" using e0(2) din(2) by (simp add: duel_step_def same_terms_def)
    then have "e0 = x" using same_row [OF _ e0(1) that(1)] T that(2) by (simp add: duels_ok_def)
    then show ?thesis using live_stays [OF e0(2) d(2)] that(2) by simp
  qed
  have "sound_duel sha (?f x)" if "x \<in> set T" "?hit x" "sound_duel sha x" for x
    using that(3) d(2) unfolding same [OF that(1,2)]
    by (auto simp: sound_duel_def scored_def Let_def duelSeal_def duel_seal_body_def)
  then have "list_all (sound_duel sha) T'" unfolding T' using T by (intro update_sound) (simp_all add: duels_ok_def)
  moreover have "evolves T T'" unfolding T'
    by (rule update_evolves) (simp add: duel_step_def same_terms_def same_start_def scored_def Let_def)
  moreover have "live_indexes_hold T'" unfolding T' using T by (intro leave_indexes) (simp_all add: duels_ok_def scored_def Let_def)
  moreover have "distinct (map du_id T')" using T unfolding T' by (simp add: duels_ok_def scored_def Let_def)
  ultimately show ?thesis by (simp add: duels_ok_def)
qed

section \<open>Any interleaving\<close>

definition good_history :: "(string \<Rightarrow> string) \<Rightarrow> arena list \<Rightarrow> bool" where
  "good_history sha hist \<longleftrightarrow> hist \<noteq> [] \<and> duels_ok sha (ar_duels (hd hist))
     \<and> (\<forall>A \<in> set hist. evolves (ar_duels A) (ar_duels (hd hist)))"

lemma ago_in: "hist \<noteq> [] \<Longrightarrow> ago k hist \<in> set hist"
  unfolding ago_def by (rule nth_mem) (cases hist, simp_all)

lemma next_arena_keeps:
  assumes "good_history sha hist"
  shows "duels_ok sha (ar_duels (next_arena H dec chain sha hist op)) \<and> evolves (ar_duels (hd hist)) (ar_duels (next_arena H dec chain sha hist op))"
proof -
  let ?T = "ar_duels (hd hist)"
  have T: "duels_ok sha ?T" and e: "evolves (ar_duels (ago k hist)) ?T" for k
    using assms ago_in by (auto simp: good_history_def)
  show ?thesis
  proof (cases op)
    case (At_the_bank bop)
    then show ?thesis using T by (simp add: next_arena_def Let_def)
  next
    case (Offer rows k user whom w now)
    let ?A = "snd (offer_route rows (ago k hist) user whom w now (hd hist))"
    have "ar_duels ?A = ?T \<or> (\<exists>s p d. offerDuel (ar_duels (ago k hist)) s user p w now ?T = Inr (d, ar_duels ?A))"
      by (auto simp: offer_route_def split: option.splits sum.splits if_splits)
    then show ?thesis using T offer_keeps [OF T] by (auto simp: next_arena_def Let_def Offer)
  next
    case (Close k user i declined)
    let ?A = "snd (close_route (ago k hist) user i declined (hd hist))"
    have "ar_duels ?A = ?T \<or> (\<exists>d. closeOffer (ar_duels (ago k hist)) i user declined ?T = Inr (d, ar_duels ?A))"
      by (auto simp: close_route_def split: sum.splits)
    then show ?thesis using T close_keeps [OF T] by (auto simp: next_arena_def Let_def Close)
  next
    case (Accept rows k b user i now now2 pools)
    let ?A = "snd (accept_route rows (ago k hist) (ago b hist) user i now now2 pools (hd hist))"
    have "ar_duels ?A = ?T \<or> (\<exists>x y z d. acceptDuel (ar_duels (ago k hist)) (ar_duels (ago b hist)) i user x y z now2 ?T = Inr (d, ar_duels ?A))"
      by (auto simp: accept_route_def split: sum.splits prod.splits)
    then show ?thesis using T accept_keeps [OF T e] by (auto simp: next_arena_def Let_def Accept)
  next
    case (Settle k0 now0 n k pools now)
    have "duels_ok sha (ar_duels (snd (settle_one sha (ago k hist) pools now d (hd hist))))
      \<and> evolves ?T (ar_duels (snd (settle_one sha (ago k hist) pools now d (hd hist))))" for d
    proof -
      let ?A = "snd (settle_one sha (ago k hist) pools now d (hd hist))"
      have "ar_duels ?A = ?T \<or> (\<exists>x y z r. settleDuel sha (ar_duels (ago k hist)) (du_id d) x y z now ?T = (r, ar_duels ?A))"
        by (auto simp: settle_one_def split: option.splits prod.splits)
      then show ?thesis using T settle_keeps [OF T e] by auto
    qed
    then show ?thesis using T by (simp add: next_arena_def Let_def Settle split: list.split)
  next
    case (Expire now)
    then show ?thesis using expire_keeps [OF T] by (simp add: next_arena_def Let_def)
  qed
qed

lemma run_arena_good: "good_history sha hist \<Longrightarrow> good_history sha (run_arena H dec chain sha hist op)"
proof -
  assume g: "good_history sha hist"
  note k = next_arena_keeps [OF g, of H dec chain op]
  have "evolves (ar_duels A) (ar_duels (next_arena H dec chain sha hist op))" if "A \<in> set hist" for A
    using g that k evolves_trans unfolding good_history_def by blast
  then show ?thesis using k by (simp add: good_history_def run_arena_def)
qed

interpretation duels: loop "run_arena H dec chain sha" "\<lambda>_. True" "good_history sha" for H dec chain sha
  by unfold_locales (rule run_arena_good)

definition new_arena :: "bank \<Rightarrow> arena" where
  "new_arena B = \<lparr>ar_bank = B, ar_duels = []\<rparr>"

lemma new_arena_good: "good_history sha [new_arena B]"
  by (simp add: good_history_def new_arena_def duels_ok_def live_indexes_hold_def)

lemma runs_good: "good_history sha (foldl (run_arena H dec chain sha) [new_arena B] ops)"
  by (rule duels.fold_inv [OF new_arena_good]) (simp add: list_all_iff)

section \<open>What a duel promises\<close>

text \<open>
  C30: a settled duel follows its numbers. However requests and ticks interleaved and however old
  their readings were, the returns of a settled duel are those of the four equities stored with it,
  the winner is the side with the higher one, the seal is that of the row, and the window is the
  one both agreed to.
\<close>

theorem settled_duels_follow_their_numbers:
  assumes "d \<in> set (ar_duels (hd (foldl (run_arena H dec chain sha) [new_arena B] ops)))" "du_status d = D_settled"
  shows "\<exists>a b c p s. du_challengerOpen d = Some a \<and> du_opponentOpen d = Some b \<and> du_challengerClose d = Some c \<and> du_opponentClose d = Some p
    \<and> du_challengerBps d = Some (duel_returnBps a c) \<and> du_opponentBps d = Some (duel_returnBps b p)
    \<and> du_winner d = (if duel_returnBps a c = duel_returnBps b p then None
        else if duel_returnBps a c > duel_returnBps b p then Some (du_challenger d) else Some (du_opponent d))
    \<and> du_seal d = Some (duelSeal sha d) \<and> du_startedAt d = Some s \<and> du_endsAt d = Some (s + du_windowSeconds d * 1000)"
proof -
  have "sound_duel sha d" using runs_good [of sha H dec chain B ops] assms(1) by (simp add: good_history_def duels_ok_def list_all_iff)
  then show ?thesis using assms(2) by (auto simp: sound_duel_def)
qed

text \<open>
  C34: duels never go back. A row of any earlier state is still there with the same sides and
  window: unchanged, or it was an offer, or it was running and has been settled with the start it
  had. A settled, declined, withdrawn or lapsed duel never changes again.
\<close>

theorem duels_never_go_back:
  assumes "A \<in> set (foldl (run_arena H dec chain sha) [new_arena B] ops)" "d \<in> set (ar_duels A)"
  shows "\<exists>e \<in> set (ar_duels (hd (foldl (run_arena H dec chain sha) [new_arena B] ops))). same_terms d e
    \<and> (e = d \<or> du_status d = D_offered \<or> is_live d \<and> du_status e = D_settled \<and> same_start d e)"
proof -
  have "evolves (ar_duels A) (ar_duels (hd (foldl (run_arena H dec chain sha) [new_arena B] ops)))"
    using runs_good [of sha H dec chain B ops] assms(1) by (simp add: good_history_def)
  then show ?thesis using assms(2) by (auto simp: evolves_def duel_step_def)
qed

definition fresh_accept :: "duel_op \<Rightarrow> bool" where
  "fresh_accept op \<longleftrightarrow> (case op of Accept rows k b user i now now2 pools \<Rightarrow> b = 0 | _ \<Rightarrow> True)"

definition single :: "duel_row list \<Rightarrow> bool" where
  "single T \<longleftrightarrow> (\<forall>d \<in> set T. \<forall>e \<in> set T. is_live d \<and> is_live e
     \<and> (\<exists>u. fights u d \<and> fights u e) \<longrightarrow> du_id d = du_id e)"

lemma single_more: "single T \<Longrightarrow> \<not> is_live d \<Longrightarrow> single (T @ [d])"
  unfolding single_def by auto

lemma single_update:
  assumes "single T" "\<And>d. \<not> is_live (f d)"
  shows "single (update_duels hit f T)"
  using assms unfolding single_def update_duels_def by (auto split: if_splits)

lemma settle_single: "settleDuel sha seen i c p n now T = (r, T') \<Longrightarrow> single T \<Longrightarrow> single T'"
  by (auto simp: settleDuel_def Let_def scored_def intro!: single_update split: option.splits if_splits)

lemma accept_single:
  assumes T: "duels_ok sha T" "single T" and e: "evolves seen T" and run: "acceptDuel seen T i u a b n now T = Inr (x, T')"
  shows "single T'"
proof -
  obtain d where d: "duelById seen i = Some d" using run by (auto simp: acceptDuel_def split: option.splits)
  let ?f = "started (du_windowSeconds d) a b n now" and ?hit = "\<lambda>x. du_id x = i \<and> du_status x = D_offered \<and> du_offerExpiresAt x > now"
  have T': "T' = update_duels ?hit ?f T" and idle: "\<not> (is_live x \<and> (fights (du_challenger d) x \<or> fights (du_opponent d) x))" if "x \<in> set T" for x
    using run d that by (auto simp: acceptDuel_def Let_def find_None_iff split: option.splits if_splits)
  have din: "d \<in> set seen" "du_id d = i" using duelById_in [OF d] by simp_all
  then obtain e0 where e0: "e0 \<in> set T" "duel_step d e0" using e by (auto simp: evolves_def)
  have sides: "du_challenger x = du_challenger d \<and> du_opponent x = du_opponent d" if "x \<in> set T" "?hit x" for x
  proof -
    have "du_id e0 = i" using e0(2) din(2) by (simp add: duel_step_def same_terms_def)
    then have "e0 = x" using same_row [OF _ e0(1) that(1)] T(1) that(2) by (simp add: duels_ok_def)
    then show ?thesis using e0(2) by (simp add: duel_step_def same_terms_def)
  qed
  show ?thesis unfolding single_def
  proof (intro ballI impI, elim conjE exE)
    fix y z v assume y: "y \<in> set T'" and z: "z \<in> set T'" and live: "is_live y" "is_live z" and v: "fights v y" "fights v z"
    have T'': "T' = update_duels ?hit ?f T" using T' e0(1) by blast
    obtain y0 where y0: "y0 \<in> set T" "y = (if ?hit y0 then ?f y0 else y0)" using y unfolding T'' by (auto simp: update_duels_def)
    obtain z0 where z0: "z0 \<in> set T" "z = (if ?hit z0 then ?f z0 else z0)" using z unfolding T'' by (auto simp: update_duels_def)
    have ids: "du_id y = du_id y0" "du_id z = du_id z0" using y0(2) z0(2) by (auto simp: started_def)
    show "du_id y = du_id z"
    proof (cases "?hit y0")
      case hy: True
      show ?thesis
      proof (cases "?hit z0")
        case True
        then show ?thesis using hy ids by simp
      next
        case False
        have "z = z0" using z0(2) by (simp only: False if_False)
        moreover have "du_challenger y = du_challenger d" "du_opponent y = du_opponent d" using y0(2) hy sides [OF y0(1)] by (simp_all add: started_def)
        ultimately have False using idle [OF z0(1)] live(2) v by auto
        then show ?thesis ..
      qed
    next
      case hy: False
      have y: "y = y0" using y0(2) by (simp only: hy if_False)
      show ?thesis
      proof (cases "?hit z0")
        case True
        then have "du_challenger z = du_challenger d" "du_opponent z = du_opponent d" using z0(2) sides [OF z0(1)] by (simp_all add: started_def)
        then have False using idle [OF y0(1)] live(1) v y by auto
        then show ?thesis ..
      next
        case False
        have "z = z0" using z0(2) by (simp only: False if_False)
        then show ?thesis using T(2) y0(1) z0(1) y live v unfolding single_def by blast
      qed
    qed
  qed
qed

lemma next_arena_single:
  assumes "good_history sha hist" "single (ar_duels (hd hist))" "fresh_accept op"
  shows "single (ar_duels (next_arena H dec chain sha hist op))"
proof -
  let ?T = "ar_duels (hd hist)"
  have T: "duels_ok sha ?T" and e: "evolves (ar_duels (ago k hist)) ?T" for k
    using assms(1) ago_in by (auto simp: good_history_def)
  show ?thesis
  proof (cases op)
    case (Offer rows k user whom w now)
    let ?A = "snd (offer_route rows (ago k hist) user whom w now (hd hist))"
    have "ar_duels ?A = ?T \<or> (\<exists>i s p. ar_duels ?A = ?T @ [new_duel i s user p w now])"
      by (auto simp: offer_route_def offerDuel_def Let_def split: option.splits sum.splits if_splits)
    moreover have "single (?T @ [new_duel i s user p w now])" for i s p
      by (rule single_more [OF assms(2)]) (simp add: new_duel_def)
    ultimately have "single (ar_duels ?A)" using assms(2) by metis
    then show ?thesis by (simp add: next_arena_def Let_def Offer)
  next
    case (Close k user i declined)
    let ?A = "snd (close_route (ago k hist) user i declined (hd hist))"
    have "ar_duels ?A = ?T \<or> (\<exists>hit. ar_duels ?A = update_duels hit (\<lambda>x. x\<lparr>du_status := if declined then D_declined else D_withdrawn\<rparr>) ?T)"
      by (auto simp: close_route_def closeOffer_def Let_def split: sum.splits option.splits if_splits)
    moreover have "single (update_duels hit (\<lambda>x. x\<lparr>du_status := if declined then D_declined else D_withdrawn\<rparr>) ?T)" for hit
      by (rule single_update [OF assms(2)]) simp
    ultimately have "single (ar_duels ?A)" using assms(2) by metis
    then show ?thesis by (simp add: next_arena_def Let_def Close)
  next
    case (Accept rows k b user i now now2 pools)
    let ?A = "snd (accept_route rows (ago k hist) (ago b hist) user i now now2 pools (hd hist))"
    have b: "ago b hist = hd hist" using assms(1,3) Accept by (simp add: fresh_accept_def ago_def good_history_def hd_conv_nth)
    have "ar_duels ?A = ?T \<or> (\<exists>x y z d. acceptDuel (ar_duels (ago k hist)) ?T i user x y z now2 ?T = Inr (d, ar_duels ?A))"
      unfolding b by (auto simp: accept_route_def split: sum.splits prod.splits)
    then have "single (ar_duels ?A)" using assms(2) accept_single [OF T assms(2) e] by auto
    then show ?thesis by (simp add: next_arena_def Let_def Accept)
  next
    case (Settle k0 now0 n k pools now)
    have "single (ar_duels (snd (settle_one sha (ago k hist) pools now d (hd hist))))" for d
    proof -
      let ?A = "snd (settle_one sha (ago k hist) pools now d (hd hist))"
      have "ar_duels ?A = ?T \<or> (\<exists>x y z r. settleDuel sha (ar_duels (ago k hist)) (du_id d) x y z now ?T = (r, ar_duels ?A))"
        by (auto simp: settle_one_def split: option.splits prod.splits)
      then show ?thesis using assms(2) settle_single by metis
    qed
    then show ?thesis using assms(2) by (simp add: next_arena_def Let_def Settle split: list.split)
  next
    case (Expire now)
    then show ?thesis using assms(2) by (simp add: next_arena_def Let_def expireOffers_def single_update)
  qed (use assms(2) in \<open>simp add: next_arena_def Let_def\<close>)
qed

interpretation singles: loop "run_arena H dec chain sha" fresh_accept "\<lambda>hist. good_history sha hist \<and> single (ar_duels (hd hist))" for H dec chain sha
  by unfold_locales (use run_arena_good next_arena_single in \<open>simp add: run_arena_def\<close>)

lemma new_arena_single: "good_history sha [new_arena B] \<and> single (ar_duels (hd [new_arena B]))"
  using new_arena_good by (simp add: new_arena_def single_def)

text \<open>
  C32: when nobody accepts on a stale reading of who is duelling, a wallet fights one duel at a
  time, on whichever side.
\<close>

theorem one_duel_at_a_time:
  assumes "list_all fresh_accept ops"
  shows "single (ar_duels (hd (foldl (run_arena H dec chain sha) [new_arena B] ops)))"
  using singles.fold_inv [OF new_arena_single assms] by simp

section \<open>A season of three\<close>

definition duel_terms :: season_terms where
  "duel_terms = \<lparr>te_id = 1, te_ordinal = 1, te_name = ''Season 1'', te_ranked = True, te_startingBalance = 10000000000,
     te_latencyMs = 400, te_maxPriceImpactBps = 1500, te_engineVersion = 1, te_sponsorLamports = 0\<rparr>"

definition duel_season :: season_row where
  "duel_season = \<lparr>row_id = 1, row_ordinal = 1, row_name = ''Season 1'', row_ranked = True, row_status = ''running'',
     row_startsAt = Some 1, row_endsAt = Some 100000000, row_entryOpensAt = Some 1, row_entryClosesAt = Some 50,
     row_startingBalance = ''10000000000'', row_entryCost = ''50000000'', row_rulesetHash = ''''\<rparr>"

text \<open>''ann'' holds a token she paid one SOL for.\<close>

definition duel_bank :: bank where
  "duel_bank = (new_bank [duel_terms])\<lparr>
     accounts := [\<lparr>acc_id = 1, acc_seasonId = 1, acc_user = ''ann'', acc_generation = 0, acc_balance = 9000000000,
       acc_createdAt = 3, acc_updatedAt = 3\<rparr>],
     positions := [\<lparr>po_id = 1, po_accountId = 1, po_mint = ''mint'', po_tokenAmount = 30000000000000, po_costBasis = 1000000000,
       po_realizedPnl = 0, po_openedAt = 3, po_closedAt = None, po_updatedAt = 3\<rparr>]\<rparr>"

definition risen :: "string \<Rightarrow> (int \<times> int) option" where
  "risen m = (if m = ''mint'' then Some (1000000000, 10000000000000) else None)"

abbreviation fight :: "arena list \<Rightarrow> duel_op \<Rightarrow> arena list" where
  "fight \<equiv> run_arena (\<lambda>_. []) key_of sample_chain (\<lambda>_. ''seal'')"

definition three_entered :: "duel_op list" where
  "three_entered = map (\<lambda>u. At_the_bank (Enter_free 1 u no_evidence 4)) [''ann'', ''bob'', ''cat'']"

text \<open>''ann'', whose token rises, challenges ''bob'', and the hour is over.\<close>

definition one_duel :: "duel_op list" where
  "one_duel = three_entered @ [Offer [duel_season] 0 ''ann'' (Some ''bob'') 3600 100,
     Accept [duel_season] 0 0 ''bob'' 1 200 210 (\<lambda>_. None),
     Settle 0 3600210 0 0 risen 3600220]"

text \<open>''bob'' has challenged ''cat'' too, and both accept before either sees the other.\<close>

definition two_duels :: "duel_op list" where
  "two_duels = three_entered @ [Offer [duel_season] 0 ''ann'' (Some ''bob'') 3600 100,
     Offer [duel_season] 0 ''bob'' (Some ''cat'') 3600 110, Accept [duel_season] 0 0 ''bob'' 1 200 210 (\<lambda>_. None),
     Accept [duel_season] 1 1 ''cat'' 2 205 211 (\<lambda>_. None)]"

definition after_one :: arena where "after_one = hd (foldl fight [new_arena duel_bank] one_duel)"

definition after_two :: arena where "after_two = hd (foldl fight [new_arena duel_bank] two_duels)"

lemma one_duel_result: "map (\<lambda>d. (du_status d, du_challengerBps d, du_opponentBps d, du_winner d, du_seal d, du_endsAt d))
    (ar_duels after_one)
  = [(D_settled, Some 2000, Some 0, Some ''ann'', Some ''seal'', Some 3600210)]"
  by code_simp

lemma two_duel_result: "map (\<lambda>d. (du_status d, du_challenger d, du_opponent d))
    (ar_duels after_two)
  = [(D_live, ''ann'', ''bob''), (D_live, ''bob'', ''cat'')]"
  by code_simp

theorem settled_duels_follow_their_numbers_witness:
  "\<exists>d a b c p. ar_duels after_one = [d] \<and> duel_returnBps a c = 2000 \<and> duel_returnBps b p = 0 \<and> du_winner d = Some (du_challenger d)"
proof -
  obtain d where T: "ar_duels after_one = [d]" and d: "du_status d = D_settled" "du_challengerBps d = Some 2000" "du_opponentBps d = Some 0"
    using one_duel_result by (auto simp: map_eq_Cons_conv)
  have "d \<in> set (ar_duels (hd (foldl fight [new_arena duel_bank] one_duel)))" using T by (simp add: after_one_def)
  from settled_duels_follow_their_numbers [OF this d(1)] T d(2,3) show ?thesis by auto
qed

theorem one_duel_at_a_time_witness: "single (ar_duels after_one) \<and> list_all fresh_accept one_duel"
proof -
  have "list_all fresh_accept one_duel" by (simp add: one_duel_def three_entered_def fresh_accept_def)
  from one_duel_at_a_time [OF this, of "\<lambda>_. []" key_of sample_chain "\<lambda>_. ''seal''" duel_bank] this
  show ?thesis by (simp add: after_one_def)
qed


definition before_the_end :: "arena list" where "before_the_end = foldl fight [new_arena duel_bank] (butlast one_duel)"

lemma before_the_end_result: "map du_status (ar_duels (hd before_the_end)) = [D_live]"
  by code_simp

theorem duels_never_go_back_witness:
  "\<exists>d e. ar_duels (hd before_the_end) = [d] \<and> is_live d \<and> e \<in> set (ar_duels after_one) \<and> same_terms d e \<and> same_start d e \<and> du_status e = D_settled"
proof -
  obtain d where T: "ar_duels (hd before_the_end) = [d]" and d: "is_live d" using before_the_end_result by (auto simp: map_eq_Cons_conv)
  have split: "one_duel = butlast one_duel @ [last one_duel]" by (simp add: one_duel_def butlast_append)
  have run: "foldl fight [new_arena duel_bank] one_duel = fight before_the_end (last one_duel)"
    unfolding before_the_end_def by (subst split) (simp only: foldl_append foldl.simps)
  have "before_the_end \<noteq> []" using runs_good unfolding before_the_end_def good_history_def by blast
  then have "hd before_the_end \<in> set (foldl fight [new_arena duel_bank] one_duel)" unfolding run run_arena_def by simp
  then obtain e where e: "e \<in> set (ar_duels after_one)" "same_terms d e" "e = d \<or> is_live d \<and> du_status e = D_settled \<and> same_start d e"
    using duels_never_go_back [of "hd before_the_end" "\<lambda>_. []" key_of sample_chain "\<lambda>_. ''seal''" duel_bank one_duel d] T d by (auto simp: after_one_def)
  have "du_status e = D_settled" using e(1) one_duel_result by (auto simp: map_eq_Cons_conv)
  then show ?thesis using T d e by auto
qed

section \<open>Records\<close>

lemma count_duels_won: "dr_won (count_duels u ds r) = dr_won r + length (filter (\<lambda>d. du_winner d = Some u) ds)"
  by (induction u ds r rule: count_duels.induct) (auto split: option.splits)

lemma count_duels_lost: "dr_lost (count_duels u ds r) = dr_lost r + length (filter (\<lambda>d. du_winner d \<noteq> None \<and> du_winner d \<noteq> Some u) ds)"
  by (induction u ds r rule: count_duels.induct) (auto split: option.splits)

lemma count_duels_drawn: "dr_drawn (count_duels u ds r) = dr_drawn r + length (filter (\<lambda>d. du_winner d = None) ds)"
  by (induction u ds r rule: count_duels.induct) (auto split: option.splits)

lemma one_of: "distinct us \<Longrightarrow> x \<in> set us \<Longrightarrow> sum_list (map (\<lambda>u. if u = x then 1 else 0) us) = (1::nat)"
  by (induction us) (auto simp: sum_list_0)

text \<open>Over every wallet, each settled duel with a winner counts one won and one lost.\<close>

lemma counted_once:
  assumes us: "distinct us" "\<And>d. d \<in> set T \<Longrightarrow> du_challenger d \<in> set us \<and> du_opponent d \<in> set us" and T: "list_all (sound_duel sha) T"
  shows "(\<Sum>u\<leftarrow>us. length (filter (\<lambda>d. du_winner d = Some u) (filter (\<lambda>d. du_status d = D_settled \<and> fights u d) T)))
    = (\<Sum>u\<leftarrow>us. length (filter (\<lambda>d. du_winner d \<noteq> None \<and> du_winner d \<noteq> Some u) (filter (\<lambda>d. du_status d = D_settled \<and> fights u d) T)))"
  using us(2) T
proof (induction T)
  case (Cons d T)
  let ?won = "\<lambda>u. (if du_status d = D_settled \<and> fights u d \<and> du_winner d = Some u then 1 else 0 :: nat)"
  let ?lost = "\<lambda>u. (if du_status d = D_settled \<and> fights u d \<and> du_winner d \<noteq> None \<and> du_winner d \<noteq> Some u then 1 else 0 :: nat)"
  have d: "sound_duel sha d" "du_challenger d \<in> set us" "du_opponent d \<in> set us" using Cons.prems by auto
  have "sum_list (map ?won us) = sum_list (map ?lost us)"
  proof (cases "du_status d = D_settled \<and> du_winner d \<noteq> None")
    case True
    then have "du_winner d = Some (du_challenger d) \<or> du_winner d = Some (du_opponent d)" "du_challenger d \<noteq> du_opponent d"
      using d(1) by (auto simp: sound_duel_def split: if_splits)
    then obtain w l where w: "du_winner d = Some w" "w \<in> set us" "l \<in> set us" "\<And>u. fights u d \<longleftrightarrow> u = w \<or> u = l" "w \<noteq> l"
      using d(2,3) by metis
    then have "?won = (\<lambda>u. if u = w then 1 else 0)" "?lost = (\<lambda>u. if u = l then 1 else 0)" using True by (auto simp: fun_eq_iff)
    then show ?thesis using one_of [OF us(1)] w(2,3) by simp
  next
    case False
    then have "?won = (\<lambda>_. 0)" "?lost = (\<lambda>_. 0)" by (auto simp: fun_eq_iff)
    then show ?thesis by simp
  qed
  moreover have "(\<Sum>u\<leftarrow>us. length (filter (\<lambda>d. du_winner d = Some u) (filter (\<lambda>d. du_status d = D_settled \<and> fights u d) (d # T))))
      = sum_list (map ?won us) + (\<Sum>u\<leftarrow>us. length (filter (\<lambda>d. du_winner d = Some u) (filter (\<lambda>d. du_status d = D_settled \<and> fights u d) T)))"
    unfolding sum_list_addf [symmetric] by (intro arg_cong [where f = sum_list] map_cong) auto
  moreover have "(\<Sum>u\<leftarrow>us. length (filter (\<lambda>d. du_winner d \<noteq> None \<and> du_winner d \<noteq> Some u) (filter (\<lambda>d. du_status d = D_settled \<and> fights u d) (d # T))))
      = sum_list (map ?lost us) + (\<Sum>u\<leftarrow>us. length (filter (\<lambda>d. du_winner d \<noteq> None \<and> du_winner d \<noteq> Some u) (filter (\<lambda>d. du_status d = D_settled \<and> fights u d) T)))"
    unfolding sum_list_addf [symmetric] by (intro arg_cong [where f = sum_list] map_cong) auto
  ultimately show ?case using Cons by simp
qed simp

text \<open>
  records add up. A wallet's record counts each of its settled duels once, and over all wallets
  that ever fought, the duels won are as many as the duels lost.
\<close>

theorem duel_records_add_up:
  assumes "distinct us" "\<And>d. d \<in> set T \<Longrightarrow> du_challenger d \<in> set us \<and> du_opponent d \<in> set us"
    and "T = ar_duels (hd (foldl (run_arena H dec chain sha) [new_arena B] ops))"
  shows "(\<Sum>u\<leftarrow>us. dr_won (duelRecord T u)) = (\<Sum>u\<leftarrow>us. dr_lost (duelRecord T u))
    \<and> dr_won (duelRecord T u) + dr_lost (duelRecord T u) + dr_drawn (duelRecord T u)
      = length (filter (\<lambda>d. du_status d = D_settled \<and> fights u d) T)"
proof
  have "list_all (sound_duel sha) T" using runs_good [of sha H dec chain B ops] assms(3) by (simp add: good_history_def duels_ok_def)
  then show "(\<Sum>u\<leftarrow>us. dr_won (duelRecord T u)) = (\<Sum>u\<leftarrow>us. dr_lost (duelRecord T u))"
    using counted_once [OF assms(1,2)] by (simp add: duelRecord_def count_duels_won count_duels_lost)
  show "dr_won (duelRecord T u) + dr_lost (duelRecord T u) + dr_drawn (duelRecord T u)
      = length (filter (\<lambda>d. du_status d = D_settled \<and> fights u d) T)"
    unfolding duelRecord_def count_duels_won count_duels_lost count_duels_drawn
    by (induction T) auto
qed

theorem duel_records_add_up_witness:
  "(\<Sum>u\<leftarrow>[''ann'', ''bob'', ''cat'']. dr_won (duelRecord (ar_duels after_one) u)) = (\<Sum>u\<leftarrow>[''ann'', ''bob'', ''cat'']. dr_lost (duelRecord (ar_duels after_one) u))
    \<and> dr_won (duelRecord (ar_duels after_one) ''bob'') + dr_lost (duelRecord (ar_duels after_one) ''bob'') + dr_drawn (duelRecord (ar_duels after_one) ''bob'') = 1" (is "?A \<and> _")
proof -
  have T: "map (\<lambda>d. (du_status d, du_challenger d, du_opponent d)) (ar_duels after_one) = [(D_settled, ''ann'', ''bob'')]" by code_simp
  have "du_challenger d \<in> set [''ann'', ''bob'', ''cat''] \<and> du_opponent d \<in> set [''ann'', ''bob'', ''cat'']" if "d \<in> set (ar_duels after_one)" for d
    using T that by (auto simp: map_eq_Cons_conv)
  moreover have "ar_duels after_one = ar_duels (hd (foldl fight [new_arena duel_bank] one_duel))" by (simp only: after_one_def)
  moreover have "distinct [''ann'', ''bob'', ''cat'']" by simp
  ultimately have A: "?A \<and> dr_won (duelRecord (ar_duels after_one) ''bob'') + dr_lost (duelRecord (ar_duels after_one) ''bob'')
      + dr_drawn (duelRecord (ar_duels after_one) ''bob'') = length (filter (\<lambda>d. du_status d = D_settled \<and> fights ''bob'' d) (ar_duels after_one))"
    by (intro duel_records_add_up)
  have "length (filter (\<lambda>d. du_status d = D_settled \<and> fights ''bob'' d) (ar_duels after_one)) = 1"
    using T by (auto simp: map_eq_Cons_conv)
  then show ?thesis using A by (simp only:)
qed

section \<open>The worker\<close>

lemma settle_one_bank [simp]: "ar_bank (snd (settle_one sha seen pools now d A)) = ar_bank A"
  by (auto simp: settle_one_def split: option.splits prod.splits)

text \<open>A duel that was read live, with both accounts there, is over after its turn; no other becomes live.\<close>

lemma settle_one_ends:
  assumes "duels_ok sha (ar_duels A)" "d \<in> set (ar_duels A)" "is_live d"
    and "accountFor (ar_bank A) (du_seasonId d) (du_challenger d) \<noteq> None" "accountFor (ar_bank A) (du_seasonId d) (du_opponent d) \<noteq> None"
  shows "duels_ok sha (ar_duels (snd (settle_one sha A pools now d A)))
    \<and> filter is_live (ar_duels (snd (settle_one sha A pools now d A))) = filter (\<lambda>e. is_live e \<and> du_id e \<noteq> du_id d) (ar_duels A)
    \<and> filter (\<lambda>e. du_status e = D_offered) (ar_duels (snd (settle_one sha A pools now d A))) = filter (\<lambda>e. du_status e = D_offered) (ar_duels A)"
proof -
  let ?T = "ar_duels A" and ?A = "snd (settle_one sha A pools now d A)"
  have "duelById ?T (du_id d) = Some d"
  proof -
    obtain x where x: "duelById ?T (du_id d) = Some x" using assms(2) by (cases "duelById ?T (du_id d)") (auto simp: duelById_def find_None_iff)
    then have "x = d" using same_row [of ?T x d] duelById_in [OF x] assms(1,2) by (simp add: duels_ok_def)
    then show ?thesis using x by simp
  qed
  moreover have "du_challengerOpen d \<noteq> None" "du_opponentOpen d \<noteq> None" "du_startedAt d \<noteq> None" "du_endsAt d \<noteq> None"
    using assms(1-3) by (auto simp: duels_ok_def list_all_iff sound_duel_def dest: bspec)
  ultimately have one: "settleDuel sha ?T (du_id d) a b u now ?T
      = (map_option (scored sha d a b u now) (List.find (\<lambda>x. du_id x = du_id d \<and> is_live x) ?T),
         update_duels (\<lambda>x. du_id x = du_id d \<and> is_live x) (scored sha d a b u now) ?T)" for a b u
    using assms(3) by (auto simp: settleDuel_def Let_def)
  obtain c p where "accountFor (ar_bank A) (du_seasonId d) (du_challenger d) = Some c" "accountFor (ar_bank A) (du_seasonId d) (du_opponent d) = Some p"
    using assms(4,5) by auto
  moreover obtain a ua b ub where "equityOf pools (ar_bank A) c = (a, ua)" "equityOf pools (ar_bank A) p = (b, ub)" by fastforce
  ultimately obtain a b u where T: "ar_duels ?A = update_duels (\<lambda>x. du_id x = du_id d \<and> is_live x) (scored sha d a b u now) ?T"
    by (simp add: settle_one_def one)
  have "duels_ok sha (ar_duels ?A)" using settle_keeps [OF assms(1) evolves_refl one] T by simp
  moreover have "filter is_live (update_duels (\<lambda>x. du_id x = du_id d \<and> is_live x) (scored sha d a b u now) ds)
      = filter (\<lambda>e. is_live e \<and> du_id e \<noteq> du_id d) ds" for ds
    unfolding update_duels_def by (induction ds) (auto simp: scored_def Let_def)
  moreover have "filter (\<lambda>e. du_status e = D_offered) (update_duels (\<lambda>x. du_id x = du_id d \<and> is_live x) (scored sha d a b u now) ds)
      = filter (\<lambda>e. du_status e = D_offered) ds" for ds
    unfolding update_duels_def by (induction ds) (auto simp: scored_def Let_def)
  ultimately show ?thesis by (simp only: T)
qed

lemma settle_due_ends:
  assumes "duels_ok sha (ar_duels A)" "distinct (map du_id ds)" "set ds \<subseteq> set (filter is_live (ar_duels A))"
    and "\<And>d. d \<in> set ds \<Longrightarrow> accountFor (ar_bank A) (du_seasonId d) (du_challenger d) \<noteq> None
      \<and> accountFor (ar_bank A) (du_seasonId d) (du_opponent d) \<noteq> None"
  shows "filter is_live (ar_duels (snd (settle_due sha pools now ds A))) = filter (\<lambda>e. is_live e \<and> du_id e \<notin> du_id ` set ds) (ar_duels A)
    \<and> filter (\<lambda>e. du_status e = D_offered) (ar_duels (snd (settle_due sha pools now ds A))) = filter (\<lambda>e. du_status e = D_offered) (ar_duels A)"
  using assms
proof (induction ds arbitrary: A)
  case (Cons d ds)
  let ?A = "snd (settle_one sha A pools now d A)"
  have d: "d \<in> set (ar_duels A)" "is_live d" using Cons.prems(3) by simp_all
  have acc: "accountFor (ar_bank A) (du_seasonId d) (du_challenger d) \<noteq> None" "accountFor (ar_bank A) (du_seasonId d) (du_opponent d) \<noteq> None"
    using Cons.prems(4) [of d] by simp_all
  note one = settle_one_ends [OF Cons.prems(1) d acc, of pools now]
  have "du_id d \<notin> du_id ` set ds" using Cons.prems(2) by simp
  then have "set ds \<subseteq> set (filter (\<lambda>e. is_live e \<and> du_id e \<noteq> du_id d) (ar_duels A))" using Cons.prems(3) by (auto simp: image_iff)
  then have "set ds \<subseteq> set (filter is_live (ar_duels ?A))" by (simp only: one)
  then have ih: "filter is_live (ar_duels (snd (settle_due sha pools now ds ?A))) = filter (\<lambda>e. is_live e \<and> du_id e \<notin> du_id ` set ds) (ar_duels ?A)
    \<and> filter (\<lambda>e. du_status e = D_offered) (ar_duels (snd (settle_due sha pools now ds ?A))) = filter (\<lambda>e. du_status e = D_offered) (ar_duels ?A)"
    using Cons.prems(2,4) one by (intro Cons.IH) simp_all
  have "filter (\<lambda>e. is_live e \<and> du_id e \<notin> du_id ` set ds) (ar_duels ?A) = filter (\<lambda>e. du_id e \<notin> du_id ` set ds) (filter is_live (ar_duels ?A))"
    by (simp add: conj_commute)
  also have "\<dots> = filter (\<lambda>e. is_live e \<and> du_id e \<notin> du_id ` set (d # ds)) (ar_duels A)"
    using one by (auto intro: filter_cong)
  finally show ?case using ih one by (auto split: prod.split)
qed simp

definition nothing_due :: "int \<Rightarrow> duel_row list \<Rightarrow> bool" where
  "nothing_due now T \<longleftrightarrow> list_all (\<lambda>d. \<not> (is_live d \<and> sql_holds (\<lambda>t. t \<le> now) (du_endsAt d))
     \<and> \<not> (du_status d = D_offered \<and> du_offerExpiresAt d \<le> now)) T"

definition both_accounts :: "arena \<Rightarrow> duel_row \<Rightarrow> bool" where
  "both_accounts A d \<longleftrightarrow> accountFor (ar_bank A) (du_seasonId d) (du_challenger d) \<noteq> None
     \<and> accountFor (ar_bank A) (du_seasonId d) (du_opponent d) \<noteq> None"

text \<open>
  C31: a tick leaves nothing due. After a tick of the worker no duel is live past its end and no
  offer is open past its time, when at most twenty were due and both accounts of each are there.
\<close>

theorem a_tick_leaves_nothing_due:
  assumes "A = hd (foldl (run_arena H dec chain sha) [new_arena B] ops)"
    and "list_all (both_accounts A) (filter (\<lambda>d. is_live d \<and> sql_holds (\<lambda>t. t \<le> now) (du_endsAt d)) (ar_duels A))"
    and "length (filter (\<lambda>d. is_live d \<and> sql_holds (\<lambda>t. t \<le> now) (du_endsAt d)) (ar_duels A)) \<le> 20"
  shows "nothing_due now (ar_duels (snd (duel_tick sha pools now A)))"
proof -
  let ?late = "\<lambda>d. is_live d \<and> sql_holds (\<lambda>t. t \<le> now) (du_endsAt d)" and ?T = "snd (expireOffers now (ar_duels A))"
  let ?A = "A\<lparr>ar_duels := ?T\<rparr>" and ?ds = "dueDuels (snd (expireOffers now (ar_duels A))) now 20"
  have T: "duels_ok sha ?T" using expire_keeps runs_good assms(1) unfolding good_history_def by blast
  have live: "filter is_live (snd (expireOffers now ds)) = filter is_live ds"
    and lapsed: "filter (\<lambda>d. du_status d = D_offered) (snd (expireOffers now ds)) = filter (\<lambda>d. du_status d = D_offered \<and> du_offerExpiresAt d > now) ds" for ds
    by (induction ds) (auto simp: expireOffers_def update_duels_def Let_def)
  have late: "filter ?late ?T = filter ?late (ar_duels A)" using arg_cong [OF live, of "filter (\<lambda>d. sql_holds (\<lambda>t. t \<le> now) (du_endsAt d))"]
    by (simp add: conj_commute)
  have ds: "mset ?ds = mset (filter ?late (ar_duels A))" unfolding dueDuels_def late using assms(3) by simp
  have set_ds: "set ?ds = set (filter ?late ?T)" unfolding late by (rule mset_eq_setD [OF ds])
  have "mset (map du_id ?ds) = mset (map du_id (filter ?late ?T))" unfolding late using ds by simp
  moreover have "distinct (map du_id (filter ?late ?T))" using T by (intro distinct_map_filter) (simp add: duels_ok_def)
  ultimately have "distinct (map du_id ?ds)" by (rule mset_eq_imp_distinct_iff [THEN iffD2])
  moreover have "set ?ds \<subseteq> set (filter is_live ?T)" unfolding set_ds by auto
  moreover have "accountFor (ar_bank A) (du_seasonId d) (du_challenger d) \<noteq> None \<and> accountFor (ar_bank A) (du_seasonId d) (du_opponent d) \<noteq> None"
    if "d \<in> set ?ds" for d
    using assms(2) that unfolding set_ds late list_all_iff both_accounts_def by blast
  ultimately have ended: "filter is_live (ar_duels (snd (settle_due sha pools now ?ds ?A))) = filter (\<lambda>e. is_live e \<and> du_id e \<notin> du_id ` set ?ds) ?T
      \<and> filter (\<lambda>e. du_status e = D_offered) (ar_duels (snd (settle_due sha pools now ?ds ?A))) = filter (\<lambda>e. du_status e = D_offered) ?T"
    using settle_due_ends [of sha ?A ?ds pools now] T by simp
  have tick: "ar_duels (snd (duel_tick sha pools now A)) = ar_duels (snd (settle_due sha pools now ?ds ?A))"
    by (simp add: duel_tick_def split: prod.split)
  show ?thesis unfolding nothing_due_def list_all_iff tick
  proof (intro ballI conjI notI)
    fix d assume d: "d \<in> set (ar_duels (snd (settle_due sha pools now ?ds ?A)))"
    { assume l: "?late d"
      then have "d \<in> set (filter (\<lambda>e. is_live e \<and> du_id e \<notin> du_id ` set ?ds) ?T)" using d conjunct1 [OF ended, THEN arg_cong, of set] by auto
      then have "d \<in> set ?T" "du_id d \<notin> du_id ` set ?ds" by auto
      then show False using l set_ds by auto }
    { assume l: "du_status d = D_offered \<and> du_offerExpiresAt d \<le> now"
      then have "d \<in> set (filter (\<lambda>e. du_status e = D_offered) ?T)" using d conjunct2 [OF ended, THEN arg_cong, of set] by auto
      then show False using l unfolding lapsed by simp }
  qed
qed

theorem a_tick_leaves_nothing_due_witness:
  "\<not> nothing_due 3600210 (ar_duels (hd before_the_end))
    \<and> nothing_due 3600210 (ar_duels (snd (duel_tick (\<lambda>_. ''seal'') risen 3600210 (hd before_the_end))))"
proof -
  have "list_all (both_accounts (hd before_the_end)) (filter (\<lambda>d. is_live d \<and> sql_holds (\<lambda>t. t \<le> 3600210) (du_endsAt d)) (ar_duels (hd before_the_end)))
    \<and> length (filter (\<lambda>d. is_live d \<and> sql_holds (\<lambda>t. t \<le> 3600210) (du_endsAt d)) (ar_duels (hd before_the_end))) \<le> 20
    \<and> \<not> nothing_due 3600210 (ar_duels (hd before_the_end))" by code_simp
  moreover have "hd before_the_end = hd (foldl fight [new_arena duel_bank] (butlast one_duel))" by (simp only: before_the_end_def)
  ultimately show ?thesis using a_tick_leaves_nothing_due by blast
qed

end
