(* ===== verification/Spec2Isabelle.thy ===== *)
theory Spec2Isabelle
  imports Prelude Contracts Fixed Doubles Json Engine Execution Trading Strategy Backtest Copy Leaf Merkle Verify
    Ruleset Payout Season Rollover Rank Finalize Ledger Payments Board Settlement Keeper Evidence Coverage Duels
begin

text \<open>
  A verification library for the Probatio arena, in which traders compete with practice SOL at
  the prices of the live market, and the winners of a ranked season are paid a pot of real SOL.

  \<^bold>\<open>How the parts work together.\<close> A trader asks for an order
  (src/app/lib/execute-trade.ts). The pool of the token is read when they click and again after
  the latency of the season; the simulator (src/packages/sim) quotes both and fills or rejects;
  the fill is applied to the account (src/packages/trading), and the row of the trade, with the
  hash of its leaf (src/packages/commit), is written with the new balance and position in one
  transaction (src/packages/db/src/trading.ts). The leaves of a batch make a Merkle tree whose
  root the keeper (src/packages/keeper) folds into an accumulator on chain, against which anybody
  can verify a trade. A season
  (src/packages/seasons, src/app/lib/season-*.ts) opens, takes entries, which are payments
  confirmed against the chain (src/packages/payments, src/packages/db/src/payments.ts), runs,
  ends, is ranked (src/packages/scoring, src/app/lib/leaderboard.ts) and is paid out of its pot
  (src/app/lib/season-payout.ts). Strategies trade by themselves by rules that can be tested over
  recorded swaps first (src/packages/sim/src/strategy.ts, backtest.ts, copy.ts).

  \<^bold>\<open>Theories.\<close>
  \<^item> Prelude, Contracts, Doubles, Json: results and errors, JavaScript arithmetic, the collections
    of hints; the locales every interface is stated as (comparators, codecs, hash functions, loops
    over requests); IEEE doubles as far as sizing needs them; the values \<open>JSON.parse\<close> makes.
  \<^item> Fixed, Engine, Execution, Trading: src/packages/sim (fixed.ts, engine.ts, execution.ts)
    and src/packages/trading.
  \<^item> Strategy, Backtest, Copy: src/packages/sim (strategy.ts, backtest.ts, copy.ts).
  \<^item> Leaf, Merkle, Verify: src/packages/commit.
  \<^item> Ruleset, Payout, Season, Rollover: src/packages/seasons, the season workers of src/app/lib
    and the transitions of src/packages/vault.
  \<^item> Rank, Finalize: src/packages/scoring.
  \<^item> Ledger: the tables of accounts, positions, trades and snapshots (src/packages/db/src/trading.ts)
    and the whole path of an order (src/app/lib/execute-trade.ts).
  \<^item> Payments: the price list, intents and verification (src/packages/payments), the tables of
    intents, payments and entries (src/packages/db/src/payments.ts) and the two handlers.
  \<^item> Board: the rows and the boards (src/packages/db/src/seasons.ts, src/app/lib/leaderboard.ts).
  \<^item> Settlement: the payout worker, its transfers and the columns of what left.
  \<^item> Keeper: batches and their leaves, the write-ahead rows of the commits, one pass of the keeper
    and its recovery, the audit (src/packages/keeper, src/packages/db/src/commits.ts,
    src/app/lib/keeper.ts). Its state \<open>keeper_world\<close> is the ledger with the commits and the chain.
  \<^item> Evidence: the proof endpoint (src/app/app/api/proof/route.ts), over Keeper and Verify.
  \<^item> Coverage: what the commits of a record cover of its trades, which plan, pass and recovery keep.
  \<^item> Duels: head to head duels (src/packages/db/src/duels.ts), the value of an account
    (src/app/lib/duel-equity.ts), the route (src/app/app/api/duel/route.ts) and the worker
    (src/app/lib/duel-settle.ts). Its state \<open>arena\<close> is the bank with the table of duels; a client
    runs over the history of states, so a request may read any earlier one.

  \<^bold>\<open>State and operations.\<close> A table is a list of records in the order of insertion, with the
  columns the code reads; a unique index or a check is a branch that fails with \<open>Db_error\<close>; a
  transaction is one function that returns the new tables or an error, so a rollback is the old
  tables. The state of a component extends the one it builds on: \<open>ledger\<close>, \<open>bank\<close> (the ledger with
  intents, payments and entries) and \<open>prizes\<close> (the bank with the seasons, the boards drawn lately
  and what left the wallet). What was read before an await is an argument of its own, so every
  interleaving of requests is a list of operations, each with readings of any age
  (\<open>ledger_op\<close>, \<open>bank_op\<close>, \<open>prize_op\<close>, \<open>duel_op\<close>). Amounts are unbounded integers, as \<open>bigint\<close> is; counters that
  the code writes into fixed-width fields are written with the wrap of \<open>setUint32\<close> and
  \<open>setUint16\<close>. An exception is a value of \<open>error\<close>.

  \<^bold>\<open>What is shown.\<close> The engine never drains a pool and no round trip pays; a fill is inside every
  rule; accounts stay sound. Orders that race behave as if they came one at a time, and the books
  are always what replaying the log gives. Practice money comes only from opening balances, trades
  and verified purchases; a transaction is credited once, and only when it really paid. Whatever
  crashes and lost answers come between, the chain holds the replay of the confirmed commits of a
  trader with at most the one in flight on top, and an honest keeper never halts. The commits of a
  record tile its trades in order, every trade in them rebuilds to its seal, so every committed batch
  is served again, and what is served of a record at rest verifies. A verified
  trade was committed; a verified finalization pays the pot by the standings. A pot always splits
  exactly; a due season whose sends arrive pays all of it once, and what reached a wallet is what
  its entry records as long as confirmations are conclusive. A settled duel follows its four
  equities, a row never goes back, and a tick leaves nothing due. Where the code falls short, the
  theorem says so: a prize whose confirmation times out is sent again, prices that move between two
  ticks split one pot by two boards, the audit accuses a commit that landed before it was
  confirmed, two readings of a pool in one slot end a record, bought balance ranks as profit,
  two accepts at once put a wallet in two duels, a rolled-over season is never paid.

  \<^bold>\<open>Bounds and parameters.\<close> Loops without an evident bound are \<open>partial_function\<close>s whose termination is
  a theorem (crediting a purchase), or carry the bound the code has (the walk to the next opening
  moment). The hash function, base58, the time zone, the prices of tokens, what the chain answers to
  a signature or a transfer, what becomes of a commit on its way (its \<open>weather\<close>: it may land unseen,
  its answer may be lost, the process may die at any point), and whether the vault program accepts a transition are parameters;
  statements about binding say \<open>unless two hashed inputs collide\<close>.
  The collation of addresses is a parameter that is assumed to be a total order where batches are sorted by it.

  \<^bold>\<open>Not modelled.\<close> The interface (src/app/app, src/app/components) and the chat bot, which draw and
  ask for what is modelled here; the transport to the chain and to third parties; the schema
  migrations; the on-chain program, which is written in another language; the workers that only
  measure, fetch or clean up. The manifest lists each with its reason.
\<close>

end
